(* ===== verification/Prelude.thy ===== *)
theory Prelude
  imports Main "HOL-Library.Word"
begin

text \<open>
  Shared vocabulary of the wg-nx development: the machine integers of the C code as
  fixed-width words, byte strings as lists, the error codes of \<open>include/wireguard.h\<close>,
  little-endian loads and stores, and the generic facts on lists and words that the
  component theories use.
\<close>

unbundle bit_operations_syntax

section \<open>Machine types\<close>

type_synonym u8 = "8 word"
type_synonym u16 = "16 word"
type_synonym u32 = "32 word"
type_synonym u64 = "64 word"
type_synonym bytes = "8 word list"

named_theorems wg_consts \<open>values of the preprocessor constants\<close>
named_theorems bytes_len \<open>lengths of the byte strings the operations return\<close>

section \<open>Return codes\<close>

text \<open>\<open>WgError\<close>: every operation of the library returns \<open>WG_OK\<close> or one of the errors.\<close>

datatype WgError =
    WG_OK
  | WG_ERR_INVALID_CONFIG
  | WG_ERR_SOCKET
  | WG_ERR_HANDSHAKE
  | WG_ERR_TIMEOUT
  | WG_ERR_DECRYPT
  | WG_ERR_NOT_CONNECTED
  | WG_ERR_BUFFER_TOO_SMALL
  | WG_ERR_THREAD
  | WG_ERR_ALREADY_RUNNING

fun err_code :: "WgError \<Rightarrow> int" where
  "err_code WG_OK = 0"
| "err_code WG_ERR_INVALID_CONFIG = -1"
| "err_code WG_ERR_SOCKET = -2"
| "err_code WG_ERR_HANDSHAKE = -3"
| "err_code WG_ERR_TIMEOUT = -4"
| "err_code WG_ERR_DECRYPT = -5"
| "err_code WG_ERR_NOT_CONNECTED = -6"
| "err_code WG_ERR_BUFFER_TOO_SMALL = -7"
| "err_code WG_ERR_THREAD = -8"
| "err_code WG_ERR_ALREADY_RUNNING = -9"

lemma err_code_inj [simp]: "err_code a = err_code b \<longleftrightarrow> a = b"
  by (cases a; cases b) simp_all

lemma err_code_neg [simp]: "err_code e < 0 \<longleftrightarrow> e \<noteq> WG_OK"
  by (cases e) simp_all

section \<open>Generic facts\<close>

lemma mod_eq_bounded:
  fixes a b n :: nat
  assumes "a mod n = b mod n" and "a \<le> b" and "b < a + n"
  shows "a = b"
proof -
  from assms(1,2) have "n dvd b - a" by (metis mod_eq_dvd_iff_nat)
  moreover from assms(2,3) have "b - a < n" by linarith
  ultimately have "b - a = 0" using nat_dvd_not_less by blast
  with assms(2) show ?thesis by simp
qed

text \<open>Every residue occurs among \<open>n\<close> consecutive numbers.\<close>

lemma residue_in_window:
  fixes t n j :: nat
  assumes "j < n"
  shows "\<exists>w. t < w \<and> w \<le> t + n \<and> w mod n = j"
proof (cases "t mod n < j")
  case True
  have "t = t div n * n + t mod n" by simp
  with True assms have "t < t div n * n + j" and "t div n * n + j \<le> t + n"
    by linarith+
  moreover have "(t div n * n + j) mod n = j"
    using assms by simp
  ultimately show ?thesis by blast
next
  case False
  have t: "t = t div n * n + t mod n" by simp
  have "t mod n < n" using assms by simp
  with t False have "t < t div n * n + n + j" and "t div n * n + n + j \<le> t + n"
    by linarith+
  moreover have "((t div n + 1) * n + j) mod n = j"
    using assms by (simp only: mod_mult_self3 mod_less)
  then have "(t div n * n + n + j) mod n = j"
    by (simp only: distrib_right mult_1)
  ultimately show ?thesis by blast
qed

text \<open>A sum in two limbs: the carry is visible in the lower one.\<close>

lemma div_carry:
  fixes n k N :: nat
  assumes "k \<le> N" and "0 < N"
  shows "(n + k) mod N < k \<and> (n + k) div N = n div N + 1 \<or>
    \<not> (n + k) mod N < k \<and> (n + k) div N = n div N"
proof -
  define q r where "q = n div N" and "r = n mod N"
  have n: "n = q * N + r" and r: "r < N" using assms by (simp_all add: q_def r_def)
  show ?thesis
  proof (cases "r + k < N")
    case True
    then have "(n + k) div N = q" "(n + k) mod N = r + k" by (simp_all add: n add.assoc)
    then show ?thesis by (simp add: q_def)
  next
    case False
    then have "n + k = (q + 1) * N + (r + k - N)" "r + k - N < N"
      using r assms by (simp_all add: n)
    then have "(n + k) div N = q + 1" "(n + k) mod N = r + k - N"
      by (simp_all only: div_mult_self3 mod_mult_self3 div_less mod_less assms(2) neq0_conv add_0_right)
    then show ?thesis using r False assms by (auto simp: q_def)
  qed
qed

section \<open>Bits of words\<close>

lemma bit_u8_out [simp]: "8 \<le> n \<Longrightarrow> \<not> bit (w :: u8) n"
  using bit_imp_le_length [of w n] by auto

lemma below_8_cases:
  "(k :: nat) < 8 \<Longrightarrow> k = 0 \<or> k = 1 \<or> k = 2 \<or> k = 3 \<or> k = 4 \<or> k = 5 \<or> k = 6 \<or> k = 7"
  by linarith

lemma u8_eqI:
  fixes v w :: u8
  assumes "bit v 0 = bit w 0" "bit v 1 = bit w 1" "bit v 2 = bit w 2" "bit v 3 = bit w 3"
    "bit v 4 = bit w 4" "bit v 5 = bit w 5" "bit v 6 = bit w 6" "bit v 7 = bit w 7"
  shows "v = w"
proof (rule bit_word_eqI)
  fix n assume "n < LENGTH(8)"
  then have "n < 8" by simp
  then show "bit v n = bit w n" using below_8_cases [of n] assms by auto
qed

end
