(* ===== verification/Counter.thy ===== *)
theory Counter
  imports Prelude
begin

text \<open>
  The anti-replay window of \<open>src/src/wg_counter.c\<close>: a ring of 128 words of 64 bits
  (\<open>WgReplayCounter\<close> of \<open>wg_internal.h\<close>) that remembers which transport counters were
  accepted, and \<open>wg_counter_validate\<close>, which decides whether a counter is new.
\<close>

unbundle bit_operations_syntax

section \<open>Model\<close>

definition WG_COUNTER_WINDOW_SIZE :: u64 where
  [wg_consts]: "WG_COUNTER_WINDOW_SIZE = 8192"

definition BITS_PER_WORD :: u64 where
  [wg_consts]: "BITS_PER_WORD = 64"

definition WG_COUNTER_WORDS :: u64 where
  [wg_consts]: "WG_COUNTER_WORDS = WG_COUNTER_WINDOW_SIZE div BITS_PER_WORD"

definition WG_REJECT_AFTER_MESSAGES :: u64 where
  [wg_consts]: "WG_REJECT_AFTER_MESSAGES = - 1 - WG_COUNTER_WINDOW_SIZE - 1"

record WgReplayCounter =
  rc_counter :: u64
  backtrack :: "u64 list"

text \<open>The state \<open>crypto_wipe\<close> leaves in \<open>session.replay\<close> when a session starts.\<close>

definition replay_init :: WgReplayCounter where
  "replay_init = \<lparr>rc_counter = 0, backtrack = replicate 128 0\<rparr>"

text \<open>The loop \<open>for (i = 1; i <= diff; i++) backtrack[(old_word + i) % WORDS] = 0\<close>.\<close>

definition clear_words :: "u64 \<Rightarrow> u64 \<Rightarrow> u64 list \<Rightarrow> u64 list" where
  "clear_words old_word diff bt =
     fold (\<lambda>i b. b[unat ((old_word + of_nat i) mod WG_COUNTER_WORDS) := 0])
       [1..<Suc (unat diff)] bt"

definition advance_window :: "WgReplayCounter \<Rightarrow> u64 \<Rightarrow> WgReplayCounter" where
  "advance_window rc counter =
     (if rc_counter rc < counter then
        (let new_word = counter div BITS_PER_WORD;
             old_word = rc_counter rc div BITS_PER_WORD;
             diff = new_word - old_word
         in if WG_COUNTER_WORDS \<le> diff
            then rc\<lparr>backtrack := replicate (length (backtrack rc)) 0, rc_counter := counter\<rparr>
            else rc\<lparr>backtrack := clear_words old_word diff (backtrack rc), rc_counter := counter\<rparr>)
      else rc)"

definition wg_counter_validate :: "WgReplayCounter \<Rightarrow> u64 \<Rightarrow> bool \<times> WgReplayCounter" where
  "wg_counter_validate rc counter =
     (if WG_REJECT_AFTER_MESSAGES \<le> counter then (False, rc)
      else if WG_COUNTER_WINDOW_SIZE \<le> rc_counter rc \<and>
              counter < rc_counter rc - WG_COUNTER_WINDOW_SIZE then (False, rc)
      else
        (let word_idx = (counter div BITS_PER_WORD) mod WG_COUNTER_WORDS;
             bit_mask = push_bit (unat (counter mod BITS_PER_WORD)) 1;
             rc' = advance_window rc counter
         in if backtrack rc' ! unat word_idx AND bit_mask \<noteq> 0 then (False, rc')
            else (True, rc'\<lparr>backtrack := (backtrack rc')
                    [unat word_idx := backtrack rc' ! unat word_idx OR bit_mask]\<rparr>)))"

section \<open>Reading the model on natural numbers\<close>

text \<open>
  \<open>rc_top\<close> is the largest counter seen, \<open>marked\<close> reads the bit of a counter in the ring, and
  \<open>live\<close> says that the ring still has a word of its own for it: the word of the counter is
  fewer than 128 words behind the word of \<open>rc_top\<close>.
\<close>

definition rc_top :: "WgReplayCounter \<Rightarrow> nat" where
  "rc_top rc = unat (rc_counter rc)"

definition marked :: "WgReplayCounter \<Rightarrow> nat \<Rightarrow> bool" where
  "marked rc k = bit (backtrack rc ! (k div 64 mod 128)) (k mod 64)"

definition live :: "nat \<Rightarrow> nat \<Rightarrow> bool" where
  "live t k \<longleftrightarrow> t div 64 < k div 64 + 128"

definition wf_replay :: "WgReplayCounter \<Rightarrow> bool" where
  "wf_replay rc \<longleftrightarrow> length (backtrack rc) = 128"

lemma wf_replay_init [simp]: "wf_replay replay_init"
  by (simp add: wf_replay_def replay_init_def)

lemma unat_consts [simp]:
  "unat WG_COUNTER_WINDOW_SIZE = 8192" "unat BITS_PER_WORD = 64"
  "unat WG_COUNTER_WORDS = 128" "unat WG_REJECT_AFTER_MESSAGES = 2 ^ 64 - 8194"
  by (simp_all add: wg_consts)

lemma word_index [simp]:
  "unat (c div BITS_PER_WORD mod WG_COUNTER_WORDS) = unat c div 64 mod 128"
  by (simp add: unat_div unat_mod)

lemma mask_bit:
  "w AND push_bit (unat (c mod BITS_PER_WORD)) (1 :: u64) = 0 \<longleftrightarrow> \<not> bit w (unat c mod 64)"
proof -
  have "unat (c mod BITS_PER_WORD) = unat c mod 64" by (simp add: unat_mod)
  then show ?thesis by (simp add: bit_iff_and_push_bit_not_eq_0 del: push_bit_of_1)
qed

lemma bit_or_mask:
  "bit (w OR push_bit (unat (c mod BITS_PER_WORD)) (1 :: u64)) n \<longleftrightarrow> bit w n \<or> n = unat c mod 64"
proof -
  have "unat c mod 64 < 64" by simp
  moreover have "unat (c mod BITS_PER_WORD) = unat c mod 64" by (simp add: unat_mod)
  ultimately show ?thesis by (auto simp: bit_simps)
qed

lemma fold_upd_zero_len:
  "length (fold (\<lambda>i b. b[f i := 0]) is bt) = length bt"
  by (induction "is" arbitrary: bt) auto

lemma fold_upd_zero_nth:
  "j < length bt \<Longrightarrow>
   fold (\<lambda>i b. b[f i := (0 :: u64)]) is bt ! j = (if j \<in> f ` set is then 0 else bt ! j)"
  by (induction "is" arbitrary: bt) (auto simp: nth_list_update)

lemma clear_words_len [simp]: "length (clear_words ow d bt) = length bt"
  by (simp add: clear_words_def fold_upd_zero_len)

text \<open>Which words the loop clears: those of the words after the old one, up to the new one.\<close>

lemma clear_words_nth:
  assumes "length bt = 128" and "j < 128" and "unat ow + unat d < 2 ^ 64"
  shows "clear_words ow d bt ! j =
    (if \<exists>w. unat ow < w \<and> w \<le> unat ow + unat d \<and> w mod 128 = j then 0 else bt ! j)"
proof -
  let ?f = "\<lambda>i. unat ((ow + of_nat i) mod WG_COUNTER_WORDS)"
  have f: "?f i = (unat ow + i) mod 128" if "i \<le> unat d" for i
  proof -
    have "unat ow + i < 2 ^ 64" using that assms(3) by linarith
    then have "unat (of_nat i :: u64) = i" by (simp add: unat_of_nat)
    with \<open>unat ow + i < 2 ^ 64\<close> have "unat (ow + of_nat i) = unat ow + i"
      by (simp add: unat_word_ariths)
    then show ?thesis by (simp add: unat_mod)
  qed
  have "?f ` set [1..<Suc (unat d)] = (\<lambda>i. (unat ow + i) mod 128) ` set [1..<Suc (unat d)]"
    by (rule image_cong) (use f in \<open>auto simp del: upt_Suc\<close>)
  then have "j \<in> ?f ` set [1..<Suc (unat d)] \<longleftrightarrow>
      (\<exists>i. 1 \<le> i \<and> i \<le> unat d \<and> (unat ow + i) mod 128 = j)"
    by (auto simp: image_iff less_Suc_eq_le simp del: upt_Suc)
  also have "\<dots> \<longleftrightarrow> (\<exists>w. unat ow < w \<and> w \<le> unat ow + unat d \<and> w mod 128 = j)"
  proof
    assume "\<exists>i. 1 \<le> i \<and> i \<le> unat d \<and> (unat ow + i) mod 128 = j"
    then obtain i where "1 \<le> i" "i \<le> unat d" "(unat ow + i) mod 128 = j" by blast
    then show "\<exists>w. unat ow < w \<and> w \<le> unat ow + unat d \<and> w mod 128 = j"
      by (intro exI [of _ "unat ow + i"]) simp
  next
    assume "\<exists>w. unat ow < w \<and> w \<le> unat ow + unat d \<and> w mod 128 = j"
    then obtain w where "unat ow < w" "w \<le> unat ow + unat d" "w mod 128 = j" by blast
    then show "\<exists>i. 1 \<le> i \<and> i \<le> unat d \<and> (unat ow + i) mod 128 = j"
      by (intro exI [of _ "w - unat ow"]) auto
  qed
  finally show ?thesis
    using assms(1,2) by (simp add: clear_words_def fold_upd_zero_nth del: upt_Suc)
qed

text \<open>The advance of the window, read on natural numbers.\<close>

lemma advance_top [simp]: "rc_counter (advance_window rc c) = max (rc_counter rc) c"
  by (auto simp: advance_window_def Let_def max_def)

lemma advance_wf [simp]: "wf_replay (advance_window rc c) = wf_replay rc"
  by (auto simp: advance_window_def Let_def wf_replay_def)

lemma advance_marked:
  assumes "wf_replay rc"
  shows "marked (advance_window rc c) k \<longleftrightarrow>
    marked rc k \<and> \<not> (\<exists>w. rc_top rc div 64 < w \<and> w \<le> unat c div 64 \<and> w mod 128 = k div 64 mod 128)"
proof (cases "rc_counter rc < c")
  case False
  then have "unat c \<le> rc_top rc" by (simp add: rc_top_def word_less_nat_alt)
  then have "unat c div 64 \<le> rc_top rc div 64" by (rule div_le_mono)
  with False show ?thesis by (auto simp: advance_window_def)
next
  case True
  let ?ow = "rc_counter rc div BITS_PER_WORD" and ?nw = "c div BITS_PER_WORD"
  have ow: "unat ?ow = rc_top rc div 64" by (simp add: rc_top_def unat_div)
  have nw: "unat ?nw = unat c div 64" by (simp add: unat_div)
  from True have "rc_top rc \<le> unat c" by (simp add: rc_top_def word_less_nat_alt)
  then have le: "rc_top rc div 64 \<le> unat c div 64" by (rule div_le_mono)
  then have "?ow \<le> ?nw" by (simp add: word_le_nat_alt ow nw)
  then have d: "unat (?nw - ?ow) = unat c div 64 - rc_top rc div 64"
    by (simp add: unat_sub ow nw)
  show ?thesis
  proof (cases "WG_COUNTER_WORDS \<le> ?nw - ?ow")
    case far: True
    then have far': "128 \<le> unat c div 64 - rc_top rc div 64" by (simp add: word_le_nat_alt d)
    let ?j = "k div 64 mod 128" and ?t = "rc_top rc div 64"
    have "\<exists>w. ?t < w \<and> w \<le> ?t + 128 \<and> w mod 128 = ?j"
      by (rule residue_in_window) simp
    moreover have "?t + 128 \<le> unat c div 64" using far' by linarith
    ultimately have "\<exists>w. ?t < w \<and> w \<le> unat c div 64 \<and> w mod 128 = ?j"
      by (meson le_trans)
    with True far show ?thesis
      using assms by (simp add: advance_window_def marked_def wf_replay_def)
  next
    case near: False
    have "unat ?ow + unat (?nw - ?ow) < 2 ^ 64"
      using le d ow nw unsigned_less [of ?nw, where ?'a = nat] by simp
    moreover have "unat ?ow + unat (?nw - ?ow) = unat c div 64"
      using le by (simp add: d ow)
    ultimately show ?thesis
      using True near assms
      by (auto simp: advance_window_def marked_def wf_replay_def clear_words_nth ow Let_def)
  qed
qed

definition set_mark :: "WgReplayCounter \<Rightarrow> u64 \<Rightarrow> WgReplayCounter" where
  "set_mark rc counter =
     (let word_idx = (counter div BITS_PER_WORD) mod WG_COUNTER_WORDS;
          bit_mask = push_bit (unat (counter mod BITS_PER_WORD)) 1
      in rc\<lparr>backtrack := (backtrack rc)
              [unat word_idx := backtrack rc ! unat word_idx OR bit_mask]\<rparr>)"

lemma set_mark_simps [simp]:
  "rc_counter (set_mark rc c) = rc_counter rc" "wf_replay (set_mark rc c) = wf_replay rc"
  by (simp_all add: set_mark_def wf_replay_def Let_def)

lemma set_mark_marked:
  assumes "wf_replay rc"
  shows "marked (set_mark rc c) k \<longleftrightarrow>
    marked rc k \<or> k div 64 mod 128 = unat c div 64 mod 128 \<and> k mod 64 = unat c mod 64"
  using assms
  by (auto simp: marked_def set_mark_def Let_def wf_replay_def nth_list_update bit_or_mask
      simp del: push_bit_of_1)

text \<open>Counters that can be rejected without looking at the ring.\<close>

definition out_of_range :: "nat \<Rightarrow> nat \<Rightarrow> bool" where
  "out_of_range t k \<longleftrightarrow> 2 ^ 64 - 8194 \<le> k \<or> k + 8192 < t"

lemma validate_eq:
  "wg_counter_validate rc c =
     (if out_of_range (rc_top rc) (unat c) then (False, rc)
      else if marked (advance_window rc c) (unat c) then (False, advance_window rc c)
      else (True, set_mark (advance_window rc c) c))"
proof -
  have "WG_REJECT_AFTER_MESSAGES \<le> c \<longleftrightarrow> 2 ^ 64 - 8194 \<le> unat c"
    by (simp add: word_le_nat_alt)
  moreover have "WG_COUNTER_WINDOW_SIZE \<le> rc_counter rc \<and>
      c < rc_counter rc - WG_COUNTER_WINDOW_SIZE \<longleftrightarrow> unat c + 8192 < rc_top rc"
  proof (cases "WG_COUNTER_WINDOW_SIZE \<le> rc_counter rc")
    case True
    then have "unat (rc_counter rc - WG_COUNTER_WINDOW_SIZE) = rc_top rc - 8192"
      by (simp add: unat_sub rc_top_def)
    with True show ?thesis by (auto simp: word_less_nat_alt)
  next
    case False
    then have "rc_top rc < 8192" by (simp add: word_le_nat_alt rc_top_def)
    with False show ?thesis by simp
  qed
  ultimately show ?thesis
    by (simp add: wg_counter_validate_def out_of_range_def Let_def mask_bit set_mark_def marked_def
        del: push_bit_of_1)
qed

lemma rc_top_max: "rc_counter rc' = max (rc_counter rc) c \<Longrightarrow> rc_top rc' = max (rc_top rc) (unat c)"
  by (auto simp: rc_top_def max_def word_le_nat_alt)

lemma rc_top_advance [simp]: "rc_top (advance_window rc c) = max (rc_top rc) (unat c)"
  by (rule rc_top_max) simp

lemma rc_top_set_mark [simp]: "rc_top (set_mark rc c) = rc_top rc"
  by (simp add: rc_top_def)

section \<open>What a replay filter promises\<close>

text \<open>
  The contract of a replay filter whose memory reaches \<open>span\<close> counters back from the largest
  counter it has seen, and what a receiver gets from it: however many packets arrive in
  between, a counter that was accepted is refused as long as it is within the span.
\<close>

definition run_filter :: "('s \<Rightarrow> u64 \<Rightarrow> bool \<times> 's) \<Rightarrow> u64 list \<Rightarrow> 's \<Rightarrow> 's" where
  "run_filter validate cs s = fold (\<lambda>c s. snd (validate s c)) cs s"

lemma run_filter_simps [simp]:
  "run_filter v [] s = s" "run_filter v (c # cs) s = run_filter v cs (snd (v s c))"
  by (simp_all add: run_filter_def)

locale replay_filter =
  fixes validate :: "'s \<Rightarrow> u64 \<Rightarrow> bool \<times> 's"
    and wf :: "'s \<Rightarrow> bool"
    and hi :: "'s \<Rightarrow> nat"
    and seen :: "'s \<Rightarrow> nat \<Rightarrow> bool"
    and span :: nat
  assumes wf_step: "wf s \<Longrightarrow> wf (snd (validate s c))"
    and hi_mono: "wf s \<Longrightarrow> hi s \<le> hi (snd (validate s c))"
    and accept_seen: "wf s \<Longrightarrow> fst (validate s c) \<Longrightarrow>
      seen (snd (validate s c)) (unat c) \<and> unat c \<le> hi (snd (validate s c))"
    and seen_keep: "wf s \<Longrightarrow> seen s k \<Longrightarrow> k \<le> hi s \<Longrightarrow> hi (snd (validate s c)) \<le> k + span \<Longrightarrow>
      seen (snd (validate s c)) k"
    and seen_reject: "wf s \<Longrightarrow> seen s (unat c) \<Longrightarrow> unat c \<le> hi s \<Longrightarrow> hi s \<le> unat c + span \<Longrightarrow>
      \<not> fst (validate s c)"
begin

lemma run_wf: "wf s \<Longrightarrow> wf (run_filter validate cs s)"
  by (induction cs arbitrary: s) (simp_all add: wf_step)

lemma run_hi: "wf s \<Longrightarrow> hi s \<le> hi (run_filter validate cs s)"
proof (induction cs arbitrary: s)
  case Nil
  then show ?case by simp
next
  case (Cons c cs)
  from Cons.prems have "hi s \<le> hi (snd (validate s c))" by (rule hi_mono)
  also have "\<dots> \<le> hi (run_filter validate cs (snd (validate s c)))"
    using Cons.prems by (intro Cons.IH wf_step)
  finally show ?case by simp
qed

lemma run_seen:
  "wf s \<Longrightarrow> seen s k \<Longrightarrow> k \<le> hi s \<Longrightarrow> hi (run_filter validate cs s) \<le> k + span \<Longrightarrow>
   seen (run_filter validate cs s) k"
proof (induction cs arbitrary: s)
  case Nil
  then show ?case by simp
next
  case (Cons c cs)
  let ?s = "snd (validate s c)"
  from Cons.prems have wf': "wf ?s" by (simp add: wf_step)
  then have "hi ?s \<le> hi (run_filter validate cs ?s)" by (rule run_hi)
  with Cons.prems have "hi ?s \<le> k + span" by simp
  with Cons.prems have "seen ?s k" by (intro seen_keep)
  moreover have "k \<le> hi ?s" using Cons.prems hi_mono [of s c] by simp
  ultimately show ?case using Cons.IH [OF wf'] Cons.prems by simp
qed

lemma no_replay:
  assumes "wf s" and "fst (validate s c)"
    and "hi (run_filter validate cs (snd (validate s c))) \<le> unat c + span"
  shows "\<not> fst (validate (run_filter validate cs (snd (validate s c))) c)"
proof -
  let ?s = "snd (validate s c)"
  from assms have "wf ?s" "seen ?s (unat c)" "unat c \<le> hi ?s"
    using wf_step accept_seen by blast+
  with assms show ?thesis
    using run_seen [of ?s "unat c" cs] run_hi [of ?s cs] run_wf [of ?s cs]
    by (intro seen_reject) simp_all
qed

end

section \<open>The ring of words is a replay filter\<close>

text \<open>The span is 127 whole words: the word of \<open>rc_top\<close> itself is the 128th.\<close>

lemma live_span: "t \<le> k + 8128 \<Longrightarrow> live t k"
proof -
  assume "t \<le> k + 8128"
  then have "t div 64 \<le> (k + 8128) div 64" by (rule div_le_mono)
  then show ?thesis by (simp add: live_def)
qed

lemma live_not_cleared:
  assumes "k \<le> t" and "live t' k" and "t \<le> t'"
  shows "\<not> (\<exists>w. t div 64 < w \<and> w \<le> t' div 64 \<and> w mod 128 = k div 64 mod 128)"
proof
  assume "\<exists>w. t div 64 < w \<and> w \<le> t' div 64 \<and> w mod 128 = k div 64 mod 128"
  then obtain w where w: "t div 64 < w" "w \<le> t' div 64" "k div 64 mod 128 = w mod 128" by auto
  have "k div 64 \<le> t div 64" using assms(1) by (rule div_le_mono)
  with w assms(2) have "k div 64 \<le> w" "w < k div 64 + 128" by (simp_all add: live_def)
  from mod_eq_bounded [OF w(3) this] have "k div 64 = w" .
  with w(1) \<open>k div 64 \<le> t div 64\<close> show False by simp
qed

lemma advance_keeps:
  assumes "wf_replay rc" and "k \<le> rc_top rc" and "live (max (rc_top rc) (unat c)) k"
  shows "marked (advance_window rc c) k \<longleftrightarrow> marked rc k"
proof (cases "rc_top rc \<le> unat c")
  case True
  with assms have "live (unat c) k" by (simp add: max_def)
  from live_not_cleared [OF assms(2) this True] show ?thesis
    by (simp add: advance_marked [OF assms(1)])
next
  case False
  then have "\<not> rc_counter rc < c" by (simp add: rc_top_def word_less_nat_alt)
  then show ?thesis by (simp add: advance_window_def)
qed

interpretation wgrc: replay_filter wg_counter_validate wf_replay rc_top marked 8128
proof
  fix s c
  assume wf: "wf_replay s"
  show "wf_replay (snd (wg_counter_validate s c))" using wf by (simp add: validate_eq)
  show "rc_top s \<le> rc_top (snd (wg_counter_validate s c))" by (simp add: validate_eq)
  show "marked (snd (wg_counter_validate s c)) (unat c) \<and> unat c \<le> rc_top (snd (wg_counter_validate s c))"
    if "fst (wg_counter_validate s c)"
    using that wf by (auto simp: validate_eq set_mark_marked split: if_splits)
  show "marked (snd (wg_counter_validate s c)) k"
    if "marked s k" "k \<le> rc_top s" "rc_top (snd (wg_counter_validate s c)) \<le> k + 8128" for k
  proof (cases "out_of_range (rc_top s) (unat c)")
    case False
    with that(3) have "max (rc_top s) (unat c) \<le> k + 8128"
      by (auto simp: validate_eq split: if_splits)
    then have "marked (advance_window s c) k"
      using that wf by (simp add: advance_keeps live_span)
    then show ?thesis using wf False by (simp add: validate_eq set_mark_marked)
  qed (use that in \<open>simp add: validate_eq\<close>)
  show "\<not> fst (wg_counter_validate s c)"
    if "marked s (unat c)" "unat c \<le> rc_top s" "rc_top s \<le> unat c + 8128"
  proof -
    from that(2) have "advance_window s c = s"
      by (simp add: advance_window_def rc_top_def word_less_nat_alt)
    with that show ?thesis by (simp add: validate_eq)
  qed
qed

section \<open>The ideal window\<close>

text \<open>
  The specification the ring approximates: the largest counter and the set of all counters
  ever accepted. A counter is \<open>aliased\<close> when the range check lets it through although
  its word of the ring has been taken over by a later word.
\<close>

fun ideal_validate :: "nat \<times> nat set \<Rightarrow> nat \<Rightarrow> bool \<times> (nat \<times> nat set)" where
  "ideal_validate (t, S) k =
     (if out_of_range t k \<or> k \<in> S then (False, (t, S)) else (True, (max t k, insert k S)))"

definition aliased :: "nat \<Rightarrow> nat \<Rightarrow> bool" where
  "aliased t k \<longleftrightarrow> \<not> out_of_range t k \<and> \<not> live t k"

fun ring_rel :: "WgReplayCounter \<Rightarrow> nat \<times> nat set \<Rightarrow> bool" where
  "ring_rel rc (t, S) \<longleftrightarrow>
     wf_replay rc \<and> rc_top rc = t \<and> (\<forall>k\<in>S. k \<le> t) \<and>
     (\<forall>k. live t k \<and> k \<le> t \<longrightarrow> (marked rc k \<longleftrightarrow> k \<in> S)) \<and>
     (\<forall>k. t < k \<and> k div 64 = t div 64 \<longrightarrow> \<not> marked rc k)"

lemma same_position:
  assumes "live t j" "live t k" "j div 64 \<le> t div 64" "k div 64 \<le> t div 64"
    and "j div 64 mod 128 = k div 64 mod 128" and "j mod 64 = k mod 64"
  shows "j = k"
proof -
  have "j div 64 = k div 64"
  proof (cases "j div 64 \<le> k div 64")
    case True
    moreover have "k div 64 < j div 64 + 128" using assms by (simp add: live_def)
    ultimately show ?thesis using mod_eq_bounded assms(5) by blast
  next
    case False
    then have "k div 64 \<le> j div 64" by simp
    moreover have "j div 64 < k div 64 + 128" using assms by (simp add: live_def)
    ultimately show ?thesis using mod_eq_bounded [OF assms(5) [symmetric]] by simp
  qed
  with assms(6) show ?thesis by (metis div_mult_mod_eq)
qed

lemma advance_new_unmarked:
  assumes "ring_rel rc (t, S)" and "t < j" and "j div 64 \<le> unat c div 64"
  shows "\<not> marked (advance_window rc c) j"
proof (cases "j div 64 = t div 64")
  case True
  with assms show ?thesis by (simp add: advance_marked)
next
  case False
  moreover have "t div 64 \<le> j div 64" using assms(2) by (simp add: div_le_mono)
  ultimately have "t div 64 < j div 64" by simp
  with assms show ?thesis by (auto simp: advance_marked)
qed

lemma ring_rel_old:
  assumes R: "ring_rel rc (t, S)" and "live t (unat c)" "unat c \<le> t" "unat c \<notin> S"
  shows "ring_rel (set_mark rc c) (t, insert (unat c) S)"
proof -
  have wf: "wf_replay rc" using R by simp
  have le: "unat c div 64 \<le> t div 64" using assms(3) by (rule div_le_mono)
  have pos: "j = unat c" if "live t j" "j div 64 \<le> t div 64"
    "j div 64 mod 128 = unat c div 64 mod 128" "j mod 64 = unat c mod 64" for j
    using same_position [OF that(1) assms(2) that(2) le that(3,4)] .
  have "\<not> marked (set_mark rc c) j" if "t < j" "j div 64 = t div 64" for j
    using that pos [of j] R assms(3) by (auto simp: set_mark_marked [OF wf] live_def)
  moreover have "marked (set_mark rc c) j \<longleftrightarrow> j \<in> insert (unat c) S" if "live t j" "j \<le> t" for j
    using that pos [of j] R by (auto simp: set_mark_marked [OF wf] div_le_mono)
  ultimately show ?thesis
    using R assms by auto
qed

lemma ring_rel_new:
  assumes R: "ring_rel rc (t, S)" and "t < unat c"
  shows "ring_rel (set_mark (advance_window rc c) c) (unat c, insert (unat c) S)"
proof -
  let ?a = "advance_window rc c" and ?k = "unat c"
  have wf: "wf_replay rc" "wf_replay ?a" and t: "rc_top rc = t" using R by simp_all
  have old: "marked ?a j \<longleftrightarrow> j \<in> S" if "live ?k j" "j \<le> ?k" for j
  proof (cases "j \<le> t")
    case True
    moreover have "live t j" using that(1) assms(2) div_le_mono [of t ?k 64] by (simp add: live_def)
    ultimately show ?thesis
      using advance_keeps [of rc j c] R that assms(2) by (simp add: max_def)
  next
    case False
    then have "\<not> marked ?a j" using advance_new_unmarked [OF R] that(2) by (simp add: div_le_mono)
    moreover have "j \<notin> S" using R False by auto
    ultimately show ?thesis by simp
  qed
  have pos: "j = ?k" if "live ?k j" "j div 64 \<le> ?k div 64"
    "j div 64 mod 128 = ?k div 64 mod 128" "j mod 64 = ?k mod 64" for j
    using same_position [OF that(1) _ that(2) _ that(3,4)] by (simp add: live_def)
  have "\<not> marked (set_mark ?a c) j" if "?k < j" "j div 64 = ?k div 64" for j
    using that advance_new_unmarked [OF R, of j c] assms(2) pos [of j] wf
    by (auto simp: set_mark_marked live_def)
  moreover have "marked (set_mark ?a c) j \<longleftrightarrow> j \<in> insert ?k S" if "live ?k j" "j \<le> ?k" for j
    using old [OF that] pos [OF that(1)] that wf
    by (auto simp: set_mark_marked div_le_mono)
  ultimately show ?thesis using R wf t assms(2) by (auto simp: max_def)
qed

lemma validate_refines:
  assumes R: "ring_rel rc (t, S)" and "\<not> aliased t (unat c)"
  shows "fst (wg_counter_validate rc c) = fst (ideal_validate (t, S) (unat c)) \<and>
         ring_rel (snd (wg_counter_validate rc c)) (snd (ideal_validate (t, S) (unat c)))"
proof (cases "out_of_range t (unat c)")
  case True
  with R show ?thesis by (simp add: validate_eq)
next
  case False
  with assms(2) have live: "live t (unat c)" by (simp add: aliased_def)
  have t: "rc_top rc = t" using R by simp
  show ?thesis
  proof (cases "unat c \<le> t")
    case le: True
    then have "advance_window rc c = rc"
      using t by (simp add: advance_window_def rc_top_def word_less_nat_alt)
    then show ?thesis
      using R False live le ring_rel_old [OF R live le] by (simp add: validate_eq t max_def)
  next
    case gt: False
    then have "t < unat c" by simp
    moreover have "unat c \<notin> S" using R gt by auto
    ultimately show ?thesis
      using False advance_new_unmarked [OF R, of "unat c" c] ring_rel_new [OF R, of c]
      by (simp add: validate_eq t max_def)
  qed
qed

lemma ring_rel_init: "ring_rel replay_init (0, {})"
proof -
  have "replicate 128 (0 :: u64) ! (k div 64 mod 128) = 0" for k
    by (rule nth_replicate) simp
  then show ?thesis
    by (simp add: replay_init_def wf_replay_def rc_top_def marked_def live_def)
qed

lemma rc_top_validate:
  "rc_top (snd (wg_counter_validate rc c)) =
     (if out_of_range (rc_top rc) (unat c) then rc_top rc else max (rc_top rc) (unat c))"
  by (simp add: validate_eq)

text \<open>The verdicts on a sequence of counters.\<close>

fun run_verdicts :: "('s \<Rightarrow> u64 \<Rightarrow> bool \<times> 's) \<Rightarrow> u64 list \<Rightarrow> 's \<Rightarrow> bool list" where
  "run_verdicts v [] s = []"
| "run_verdicts v (c # cs) s = fst (v s c) # run_verdicts v cs (snd (v s c))"

lemma out_of_range_new: "t \<le> k + 8128 \<Longrightarrow> k < 2 ^ 64 - 8194 \<Longrightarrow> \<not> out_of_range t k"
  by (simp add: out_of_range_def)

lemma reordered_run:
  assumes "ring_rel rc (t, S)" and "distinct cs" and "\<forall>c\<in>set cs. unat c \<notin> S"
    and "\<forall>c\<in>set cs. c < WG_REJECT_AFTER_MESSAGES \<and> t \<le> unat c + 8128"
    and "sorted_wrt (\<lambda>a b. unat a \<le> unat b + 8128) cs"
  shows "run_verdicts wg_counter_validate cs rc = replicate (length cs) True"
  using assms
proof (induction cs arbitrary: rc t S)
  case Nil
  then show ?case by simp
next
  case (Cons c cs)
  have "t \<le> unat c + 8128" and "unat c < 2 ^ 64 - 8194"
    using Cons.prems(4) by (simp_all add: word_less_nat_alt)
  then have nr: "\<not> out_of_range t (unat c)" and "\<not> aliased t (unat c)"
    by (simp_all add: out_of_range_new aliased_def live_span)
  from validate_refines [OF Cons.prems(1) this(2)] nr Cons.prems(3)
  have "fst (wg_counter_validate rc c)"
    and R: "ring_rel (snd (wg_counter_validate rc c)) (max t (unat c), insert (unat c) S)"
    by simp_all
  moreover have "run_verdicts wg_counter_validate cs (snd (wg_counter_validate rc c)) =
      replicate (length cs) True"
    by (rule Cons.IH [OF R]) (use Cons.prems in \<open>auto dest: unsigned_word_eqI\<close>)
  ultimately show ?case by simp
qed

section \<open>Properties\<close>

text \<open>
  C6: a transport counter that the window accepted is refused ever after, whatever other
  counters are presented in between, as long as the largest counter is at most 8128 (127
  words) ahead of it.
\<close>

theorem counter_no_replay:
  assumes "wf_replay s" and "fst (wg_counter_validate s c)"
    and "rc_top (run_filter wg_counter_validate cs (snd (wg_counter_validate s c))) \<le> unat c + 8128"
  shows "\<not> fst (wg_counter_validate
    (run_filter wg_counter_validate cs (snd (wg_counter_validate s c))) c)"
  using assms by (rule wgrc.no_replay)

theorem counter_no_replay_witness:
  "\<not> fst (wg_counter_validate
     (run_filter wg_counter_validate [9, 4, 700] (snd (wg_counter_validate replay_init 5))) 5)"
proof -
  have "fst (wg_counter_validate replay_init 5)"
    using validate_refines [OF ring_rel_init, of 5]
    by (simp add: aliased_def live_def out_of_range_def)
  moreover have "rc_top (run_filter wg_counter_validate [9, 4, 700]
      (snd (wg_counter_validate replay_init 5))) \<le> unat (5 :: u64) + 8128"
    by (simp add: rc_top_validate out_of_range_def) (simp add: rc_top_def replay_init_def)
  ultimately show ?thesis by (rule counter_no_replay [OF wf_replay_init])
qed

text \<open>
  C9: on every counter that is not aliased the ring decides exactly as the ideal window
  (largest counter and set of accepted counters) and keeps representing it.
\<close>

theorem counter_refines_ideal:
  assumes "ring_rel rc (t, S)" and "\<not> aliased t (unat c)"
  shows "fst (wg_counter_validate rc c) = fst (ideal_validate (t, S) (unat c)) \<and>
         ring_rel (snd (wg_counter_validate rc c)) (snd (ideal_validate (t, S) (unat c)))"
  using assms by (rule validate_refines)

theorem counter_refines_ideal_witness:
  "fst (wg_counter_validate replay_init 77) = fst (ideal_validate (0, {}) 77) \<and>
   ring_rel (snd (wg_counter_validate replay_init 77)) (snd (ideal_validate (0, {}) 77))"
  using counter_refines_ideal [OF ring_rel_init, of 77]
  by (simp add: aliased_def live_def)

text \<open>
  C30: no valid packet is lost to the window: distinct counters below the message limit, each
  at most 8128 behind the largest one before it, are all accepted, in whatever order they
  arrive.
\<close>

theorem counter_accepts_reordered:
  assumes "distinct cs" and "\<forall>c\<in>set cs. c < WG_REJECT_AFTER_MESSAGES"
    and "sorted_wrt (\<lambda>a b. unat a \<le> unat b + 8128) cs"
  shows "run_verdicts wg_counter_validate cs replay_init = replicate (length cs) True"
  by (rule reordered_run [OF ring_rel_init]) (use assms in auto)

theorem counter_accepts_reordered_witness:
  "run_verdicts wg_counter_validate [3, 8000, 0, 130, 129] replay_init = [True, True, True, True, True]"
  using counter_accepts_reordered [of "[3, 8000, 0, 130, 129]"]
  by (simp add: word_less_nat_alt)

text \<open>
  C31: the window check admits 64 counters too many. After a jump of the counter to the
  start of the 128th following word, a counter \<open>k\<close> that was accepted before passes the range
  check again, finds its bit cleared, and is accepted a second time.
\<close>

theorem counter_replay_hole:
  assumes "unat k < 2 ^ 63" and "k mod 64 \<noteq> 0"
  shows "run_verdicts wg_counter_validate [k, 64 * (k div 64 + 128), k] replay_init
           = [True, True, True]"
proof -
  let ?k = "unat k"
  define c where "c = 64 * (k div 64 + 128)"
  have c: "unat c = 64 * (?k div 64 + 128)"
    using assms(1) by (simp add: c_def unat_word_ariths unat_div)
  have k64: "?k mod 64 \<noteq> 0"
    using assms(2) by (simp add: word_unat_eq_iff unat_mod)
  define s1 where "s1 = snd (wg_counter_validate replay_init k)"
  define s2 where "s2 = snd (wg_counter_validate s1 c)"
  have "\<not> out_of_range 0 ?k" "\<not> aliased 0 ?k"
    using assms(1) by (simp_all add: out_of_range_def aliased_def live_def)
  with validate_refines [OF ring_rel_init, of k]
  have 1: "fst (wg_counter_validate replay_init k)" and R1: "ring_rel s1 (?k, {?k})"
    by (simp_all add: s1_def)
  define q where "q = ?k div 64"
  have "64 * (n div 64) \<le> n \<and> n < 64 * (n div 64) + 64" for n :: nat by presburger
  then have q: "64 * q \<le> ?k" "?k < 64 * q + 64" "unat c = 64 * q + 8192"
    by (simp_all add: q_def c)
  then have lt: "?k < unat c" by linarith
  have "\<not> out_of_range ?k (unat c)"
    using q(1,2) assms(1) unfolding out_of_range_def q(3) by simp
  with lt validate_refines [OF R1, of c]
  have 2: "fst (wg_counter_validate s1 c)" and s2: "s2 = set_mark (advance_window s1 c) c"
    using advance_new_unmarked [OF R1 lt] R1 by (simp_all add: s2_def validate_eq aliased_def live_def)
  have "\<not> marked (advance_window s1 c) ?k"
  proof -
    have "unat c div 64 = ?k div 64 + 128" by (simp add: c)
    then have "?k div 64 < unat c div 64 \<and> unat c div 64 mod 128 = ?k div 64 mod 128" by simp
    then show ?thesis using R1 by (auto simp: advance_marked)
  qed
  then have "\<not> marked s2 ?k"
    using R1 c k64 by (simp add: s2 set_mark_marked)
  moreover have top2: "rc_top s2 = unat c"
    using lt R1 by (simp add: s2 max_def)
  then have "advance_window s2 k = s2"
    using lt by (simp add: advance_window_def word_less_nat_alt rc_top_def)
  moreover have "\<not> out_of_range (rc_top s2) ?k"
    using q(1,2) assms(1) unfolding out_of_range_def top2 q(3) by simp
  ultimately have "fst (wg_counter_validate s2 k)" by (simp add: validate_eq)
  with 1 2 show ?thesis unfolding c_def [symmetric] by (simp add: s1_def s2_def)
qed

theorem counter_replay_hole_witness:
  "run_verdicts wg_counter_validate [1, 8192, 1] replay_init = [True, True, True]"
  using counter_replay_hole [of 1] by simp

end
