(* ===== verification/Base64.thy ===== *)
theory Base64
  imports Prelude
begin

text \<open>
  The key encoding of \<open>src/src/wireguard.c\<close>: \<open>wg_key_to_base64\<close> and
  \<open>wg_key_from_base64\<close>. A C string is a list of characters, \<open>None\<close> the null pointer; the
  decoder returns its return code and the bytes it has written to \<open>key[]\<close>.
\<close>

unbundle bit_operations_syntax

section \<open>Model\<close>

definition WG_KEY_LEN :: nat where
  [wg_consts]: "WG_KEY_LEN = 32"

definition b64_table :: string where
  "b64_table = ''ABCDEFGHIJKLMNOPQRSTUVWXYZabcdefghijklmnopqrstuvwxyz0123456789+/''"

definition b64_decode_char :: "char \<Rightarrow> int" where
  "b64_decode_char ch =
     (let c = int (of_char ch)
      in if c \<ge> 65 \<and> c \<le> 90 then c - 65
         else if c \<ge> 97 \<and> c \<le> 122 then c - 97 + 26
         else if c \<ge> 48 \<and> c \<le> 57 then c - 48 + 52
         else if c = 43 then 62
         else if c = 47 then 63
         else -1)"

text \<open>Reading a C string: position \<open>strlen\<close> holds the terminating zero.\<close>

definition cstr_at :: "string \<Rightarrow> nat \<Rightarrow> char" where
  "cstr_at s i = (if i < length s then s ! i else CHR 0x00)"

text \<open>One store \<open>if (out_idx < WG_KEY_LEN && ok) key[out_idx++] = v\<close>.\<close>

definition put_key :: "bool \<Rightarrow> int \<Rightarrow> bytes \<Rightarrow> bytes" where
  "put_key ok v key = (if length key < WG_KEY_LEN \<and> ok then key @ [word_of_int v] else key)"

function b64_decode_loop :: "string \<Rightarrow> nat \<Rightarrow> bytes \<Rightarrow> int \<times> bytes" where
  "b64_decode_loop base64 i key =
     (if i < 43 \<and> length key < WG_KEY_LEN then
        (let a = b64_decode_char (cstr_at base64 i);
             b = b64_decode_char (cstr_at base64 (i + 1));
             c = (if i + 2 < 43 then b64_decode_char (cstr_at base64 (i + 2)) else 0);
             d = (if i + 3 < 43 then b64_decode_char (cstr_at base64 (i + 3)) else 0)
         in if a < 0 \<or> b < 0 then (-1, key)
            else b64_decode_loop base64 (i + 4)
              (put_key (cstr_at base64 (i + 3) \<noteq> CHR ''='') (or (push_bit 6 c) d)
                (put_key (cstr_at base64 (i + 2) \<noteq> CHR ''='') (or (push_bit 4 b) (drop_bit 2 c))
                  (put_key True (or (push_bit 2 a) (drop_bit 4 b)) key))))
      else (if length key = WG_KEY_LEN then 0 else -1, key))"
  by pat_completeness auto
termination
  by (relation "measure (\<lambda>(s, i, key). 43 - i)") auto

definition wg_key_from_base64 :: "string option \<Rightarrow> int \<times> bytes" where
  "wg_key_from_base64 base64 =
     (case base64 of None \<Rightarrow> (-1, [])
      | Some s \<Rightarrow> if length s < 43 then (-1, []) else b64_decode_loop s 0 [])"

definition b64_char :: "u32 \<Rightarrow> char" where
  "b64_char v = b64_table ! unat (v AND 0x3F)"

definition b64_encode_group :: "bytes \<Rightarrow> nat \<Rightarrow> string" where
  "b64_encode_group key i =
     (let n0 = push_bit 16 (ucast (key ! i)) :: u32;
          n1 = (if i + 1 < WG_KEY_LEN then n0 OR push_bit 8 (ucast (key ! (i + 1))) else n0);
          n = (if i + 2 < WG_KEY_LEN then n1 OR ucast (key ! (i + 2)) else n1)
      in [b64_char (drop_bit 18 n), b64_char (drop_bit 12 n),
          if i + 1 < WG_KEY_LEN then b64_char (drop_bit 6 n) else CHR ''='',
          if i + 2 < WG_KEY_LEN then b64_char n else CHR ''=''])"

function b64_encode_loop :: "bytes \<Rightarrow> nat \<Rightarrow> string" where
  "b64_encode_loop key i =
     (if i < WG_KEY_LEN then b64_encode_group key i @ b64_encode_loop key (i + 3) else [])"
  by pat_completeness auto
termination
  by (relation "measure (\<lambda>(key, i). 32 - i)") (auto simp: WG_KEY_LEN_def)

text \<open>The caller's buffer has \<open>len\<close> bytes; the result is the string written, without its zero.\<close>

definition wg_key_to_base64 :: "nat \<Rightarrow> bytes \<Rightarrow> int \<times> string" where
  "wg_key_to_base64 len key = (if len < 45 then (-1, []) else (0, b64_encode_loop key 0))"

declare b64_decode_loop.simps [simp del] b64_encode_loop.simps [simp del]

section \<open>One group of four characters\<close>

lemma table_len [simp]: "length b64_table = 64"
  by (simp add: b64_table_def)

lemma map_decode_table: "map b64_decode_char b64_table = map int [0..<64]"
  by (simp add: b64_table_def b64_decode_char_def upt_conv_Cons)

lemma decode_table: "v < 64 \<Longrightarrow> b64_decode_char (b64_table ! v) = int v"
  using nth_map [of v b64_table b64_decode_char] by (simp add: map_decode_table)

lemma table_not_pad: "v < 64 \<Longrightarrow> b64_table ! v \<noteq> CHR ''=''"
proof -
  have "CHR ''='' \<notin> set b64_table" by (simp add: b64_table_def)
  then show "v < 64 \<Longrightarrow> b64_table ! v \<noteq> CHR ''=''" by (metis nth_mem table_len)
qed

lemma unat_sextet: "unat (v AND 0x3F :: u32) < 64"
proof -
  have "v AND 0x3F \<le> (0x3F :: u32)" by (rule word_and_le1)
  then show ?thesis by (simp add: word_le_nat_alt)
qed

lemma decode_b64_char [simp]: "b64_decode_char (b64_char v) = uint (v AND 0x3F)"
  by (simp add: b64_char_def decode_table unat_sextet)

lemma b64_char_not_pad [simp]: "b64_char v \<noteq> CHR ''=''"
  by (simp add: b64_char_def table_not_pad unat_sextet)

text \<open>The three bytes of a group are recovered from its four six-bit digits.\<close>

lemma and_63: "(v AND 0x3F :: u32) = take_bit 6 v"
  by (simp add: take_bit_eq_mask mask_eq_exp_minus_1)

lemma sextet_bit: "bit (uint (take_bit 6 (drop_bit s n :: u32))) j \<longleftrightarrow> j < 6 \<and> bit n (s + j)"
  by (auto simp: bit_simps dest: bit_imp_le_length)

lemma group_bytes:
  fixes x y z :: u8
  defines "n \<equiv> push_bit 16 (ucast x) OR push_bit 8 (ucast y) OR ucast z :: u32"
  shows "word_of_int (or (push_bit 2 (uint (take_bit 6 (drop_bit 18 n)))) (drop_bit 4 (uint (take_bit 6 (drop_bit 12 n))))) = x"
    and "word_of_int (or (push_bit 4 (uint (take_bit 6 (drop_bit 12 n)))) (drop_bit 2 (uint (take_bit 6 (drop_bit 6 n))))) = y"
    and "word_of_int (or (push_bit 6 (uint (take_bit 6 (drop_bit 6 n)))) (uint (take_bit 6 (drop_bit 0 n)))) = z"
proof -
  note bits = bit_simps sextet_bit n_def
  show "word_of_int (or (push_bit 2 (uint (take_bit 6 (drop_bit 18 n)))) (drop_bit 4 (uint (take_bit 6 (drop_bit 12 n))))) = x"
    by (rule u8_eqI) (simp_all add: bits)
  show "word_of_int (or (push_bit 4 (uint (take_bit 6 (drop_bit 12 n)))) (drop_bit 2 (uint (take_bit 6 (drop_bit 6 n))))) = y"
    by (rule u8_eqI) (simp_all add: bits)
  show "word_of_int (or (push_bit 6 (uint (take_bit 6 (drop_bit 6 n)))) (uint (take_bit 6 (drop_bit 0 n)))) = z"
    by (rule u8_eqI) (simp_all add: bits)
qed

section \<open>The loops\<close>

lemma encode_group_len [simp]: "length (b64_encode_group key i) = 4"
  by (simp add: b64_encode_group_def Let_def)

lemma encode_loop_groups:
  "b64_encode_loop key 0 = concat (map (\<lambda>g. b64_encode_group key (3 * g)) [0..<11])"
  by (simp add: b64_encode_loop.simps WG_KEY_LEN_def upt_conv_Cons)

lemma nth_concat_blocks:
  assumes "\<forall>x\<in>set xs. length (f x) = n" and "g < length xs" and "r < n"
  shows "concat (map f xs) ! (n * g + r) = f (xs ! g) ! r"
  using assms
proof (induction xs arbitrary: g)
  case Nil
  then show ?case by simp
next
  case (Cons x xs)
  show ?case
  proof (cases g)
    case 0
    with Cons.prems show ?thesis by (simp add: nth_append)
  next
    case (Suc h)
    then have "concat (map f xs) ! (n * h + r) = f (xs ! h) ! r"
      using Cons.prems by (intro Cons.IH) simp_all
    with Suc Cons.prems show ?thesis by (simp add: nth_append add.assoc)
  qed
qed

lemma encode_loop_len [simp]: "length (b64_encode_loop key 0) = 44"
  by (simp add: encode_loop_groups upt_conv_Cons)

lemma encode_loop_at:
  assumes "g < 11" and "r < 4"
  shows "cstr_at (b64_encode_loop key 0) (4 * g + r) = b64_encode_group key (3 * g) ! r"
proof -
  have "4 * g + r < 44" using assms by linarith
  moreover have "b64_encode_loop key 0 ! (4 * g + r) = b64_encode_group key (3 * g) ! r"
    unfolding encode_loop_groups
    using nth_concat_blocks [of "[0..<11]" "\<lambda>g. b64_encode_group key (3 * g)" 4 g r] assms by simp
  ultimately show ?thesis by (simp add: cstr_at_def)
qed

lemma take_Suc3:
  "i + 2 < length xs \<Longrightarrow> take (i + 3) xs = take i xs @ [xs ! i, xs ! (i + 1), xs ! (i + 2)]"
  by (simp add: take_Suc_conv_app_nth eval_nat_numeral)

lemma decode_group:
  fixes key :: bytes and i :: nat
  assumes "i + 2 < 32"
  defines "cs \<equiv> b64_encode_group key i"
  shows "0 \<le> b64_decode_char (cs ! 0)" "0 \<le> b64_decode_char (cs ! 1)"
    "cs ! 2 \<noteq> CHR ''=''" "cs ! 3 \<noteq> CHR ''=''"
    "word_of_int (or (push_bit 2 (b64_decode_char (cs ! 0))) (drop_bit 4 (b64_decode_char (cs ! 1)))) = key ! i"
    "word_of_int (or (push_bit 4 (b64_decode_char (cs ! 1))) (drop_bit 2 (b64_decode_char (cs ! 2)))) = key ! (i + 1)"
    "word_of_int (or (push_bit 6 (b64_decode_char (cs ! 2))) (b64_decode_char (cs ! 3))) = key ! (i + 2)"
proof -
  define n :: u32 where
    "n = push_bit 16 (ucast (key ! i)) OR push_bit 8 (ucast (key ! (i + 1))) OR ucast (key ! (i + 2))"
  have cs: "cs = [b64_char (drop_bit 18 n), b64_char (drop_bit 12 n), b64_char (drop_bit 6 n), b64_char (drop_bit 0 n)]"
    using assms(1) by (simp add: cs_def b64_encode_group_def n_def Let_def WG_KEY_LEN_def or.assoc)
  note g = group_bytes [where x = "key ! i" and y = "key ! (i + 1)" and z = "key ! (i + 2)", folded n_def]
  show "0 \<le> b64_decode_char (cs ! 0)" "0 \<le> b64_decode_char (cs ! 1)"
    "cs ! 2 \<noteq> CHR ''=''" "cs ! 3 \<noteq> CHR ''=''"
    by (simp_all add: cs)
  show "word_of_int (or (push_bit 2 (b64_decode_char (cs ! 0))) (drop_bit 4 (b64_decode_char (cs ! 1)))) = key ! i"
    "word_of_int (or (push_bit 4 (b64_decode_char (cs ! 1))) (drop_bit 2 (b64_decode_char (cs ! 2)))) = key ! (i + 1)"
    "word_of_int (or (push_bit 6 (b64_decode_char (cs ! 2))) (b64_decode_char (cs ! 3))) = key ! (i + 2)"
    using g by (simp_all add: cs and_63)
qed

text \<open>The last group carries two bytes.\<close>

lemma decode_last_group:
  fixes key :: bytes
  defines "cs \<equiv> b64_encode_group key 30"
  shows "0 \<le> b64_decode_char (cs ! 0)" "0 \<le> b64_decode_char (cs ! 1)" "cs ! 2 \<noteq> CHR ''=''"
    "word_of_int (or (push_bit 2 (b64_decode_char (cs ! 0))) (drop_bit 4 (b64_decode_char (cs ! 1)))) = key ! 30"
    "word_of_int (or (push_bit 4 (b64_decode_char (cs ! 1))) (drop_bit 2 (b64_decode_char (cs ! 2)))) = key ! 31"
proof -
  define n :: u32 where
    "n = push_bit 16 (ucast (key ! 30)) OR push_bit 8 (ucast (key ! 31)) OR ucast (0 :: u8)"
  have cs: "cs = [b64_char (drop_bit 18 n), b64_char (drop_bit 12 n), b64_char (drop_bit 6 n), CHR ''='']"
    by (simp add: cs_def b64_encode_group_def n_def Let_def WG_KEY_LEN_def or.assoc)
  note g = group_bytes [where x = "key ! 30" and y = "key ! 31" and z = 0, folded n_def]
  show "0 \<le> b64_decode_char (cs ! 0)" "0 \<le> b64_decode_char (cs ! 1)" "cs ! 2 \<noteq> CHR ''=''"
    by (simp_all add: cs)
  show "word_of_int (or (push_bit 2 (b64_decode_char (cs ! 0))) (drop_bit 4 (b64_decode_char (cs ! 1)))) = key ! 30"
    "word_of_int (or (push_bit 4 (b64_decode_char (cs ! 1))) (drop_bit 2 (b64_decode_char (cs ! 2)))) = key ! 31"
    using g by (simp_all add: cs and_63)
qed

lemma decode_step_full:
  assumes "length key = 32" and "g < 10"
  shows "b64_decode_loop (b64_encode_loop key 0) (4 * g) (take (3 * g) key) =
         b64_decode_loop (b64_encode_loop key 0) (4 * Suc g) (take (3 * Suc g) key)"
proof -
  let ?s = "b64_encode_loop key 0" and ?i = "3 * g"
  have at: "cstr_at ?s (4 * g) = b64_encode_group key ?i ! 0"
    "cstr_at ?s (4 * g + 1) = b64_encode_group key ?i ! 1"
    "cstr_at ?s (4 * g + 2) = b64_encode_group key ?i ! 2"
    "cstr_at ?s (4 * g + 3) = b64_encode_group key ?i ! 3"
    using encode_loop_at [of g 0 key] encode_loop_at [of g 1 key] encode_loop_at [of g 2 key]
      encode_loop_at [of g 3 key] assms(2) by simp_all
  have lt: "4 * g < 43" "4 * g + 2 < 43" "4 * g + 3 < 43" "?i + 2 < 32" "?i < 32"
    using assms(2) by linarith+
  have tk: "take (3 * Suc g) key = take ?i key @ [key ! ?i, key ! (?i + 1), key ! (?i + 2)]"
    using take_Suc3 [of ?i key] lt assms(1) by (simp add: add.commute)
  have len: "length (take ?i key) = ?i" using lt assms(1) by simp
  have "b64_decode_loop ?s (4 * g) (take ?i key) =
      b64_decode_loop ?s (4 * g + 4) (take ?i key @ [key ! ?i, key ! (?i + 1), key ! (?i + 2)])"
    unfolding b64_decode_loop.simps [of ?s "4 * g"] Let_def at
    using lt decode_group [OF lt(4), of key] len
    by (simp only: WG_KEY_LEN_def put_key_def) auto
  then show ?thesis unfolding tk by (simp add: add.commute)
qed

lemma decode_step_last:
  assumes "length key = 32"
  shows "b64_decode_loop (b64_encode_loop key 0) 40 (take 30 key) = (0, key)"
proof -
  let ?s = "b64_encode_loop key 0"
  have at: "cstr_at ?s 40 = b64_encode_group key 30 ! 0"
    "cstr_at ?s (40 + 1) = b64_encode_group key 30 ! 1"
    "cstr_at ?s (40 + 2) = b64_encode_group key 30 ! 2"
    using encode_loop_at [of 10 0 key] encode_loop_at [of 10 1 key] encode_loop_at [of 10 2 key]
    by simp_all
  have key: "take 30 key @ [key ! 30, key ! 31] = key"
    using assms take_Suc_conv_app_nth [of 30 key] take_Suc_conv_app_nth [of 31 key] by simp
  have "b64_decode_loop ?s 40 (take 30 key) = b64_decode_loop ?s (40 + 4) (take 30 key @ [key ! 30, key ! 31])"
    unfolding b64_decode_loop.simps [of ?s 40] Let_def at
    using decode_last_group [of key] assms by (simp only: WG_KEY_LEN_def put_key_def) auto
  then show ?thesis
    using assms by (simp add: key b64_decode_loop.simps [of ?s 44] WG_KEY_LEN_def)
qed

lemma decode_loop_correct:
  assumes "length key = 32" and "g \<le> 10"
  shows "b64_decode_loop (b64_encode_loop key 0) (4 * g) (take (3 * g) key) = (0, key)"
  using assms(2)
proof (induction rule: inc_induct)
  case base
  then show ?case using decode_step_last [OF assms(1)] by simp
next
  case (step g)
  then show ?case using decode_step_full [OF assms(1)] by simp
qed

lemma put_key_len: "length key \<le> 32 \<Longrightarrow> length (put_key ok v key) \<le> 32"
  by (auto simp: put_key_def WG_KEY_LEN_def)

lemma decode_loop_bounds:
  "length key \<le> 32 \<Longrightarrow>
   length (snd (b64_decode_loop s i key)) \<le> 32 \<and>
   fst (b64_decode_loop s i key) = (if length (snd (b64_decode_loop s i key)) = 32 then 0 else -1)"
proof (induction s i key rule: b64_decode_loop.induct)
  case (1 s i key)
  show ?case
  proof (cases "i < 43 \<and> length key < WG_KEY_LEN \<and>
      0 \<le> b64_decode_char (cstr_at s i) \<and> 0 \<le> b64_decode_char (cstr_at s (i + 1))")
    case True
    with "1" show ?thesis
      by (subst (1 2 3) b64_decode_loop.simps) (simp add: Let_def put_key_len)
  next
    case False
    with "1.prems" show ?thesis
      by (subst (1 2 3) b64_decode_loop.simps) (auto simp: Let_def WG_KEY_LEN_def)
  qed
qed

text \<open>
  A string without padding whose first two characters of every group are valid: the other
  two are never checked.
\<close>

definition half_checked :: "string \<Rightarrow> bool" where
  "half_checked s \<longleftrightarrow> length s = 43 \<and> CHR ''='' \<notin> set s \<and>
     list_all (\<lambda>i. i mod 4 < 2 \<longrightarrow> 0 \<le> b64_decode_char (s ! i)) [0..<43]"

lemma neq_if_mem: "c \<notin> A \<Longrightarrow> x \<in> A \<Longrightarrow> x \<noteq> c"
  by blast

lemma half_checked_at:
  assumes "half_checked s" and "g \<le> 10"
  shows "0 \<le> b64_decode_char (cstr_at s (4 * g))" "0 \<le> b64_decode_char (cstr_at s (4 * g + 1))"
    "cstr_at s (4 * g + r) \<noteq> CHR ''=''"
proof -
  have len: "length s = 43" using assms(1) by (simp add: half_checked_def)
  have "4 * g < 43" "4 * g + 1 < 43" using assms(2) by simp_all
  then show "0 \<le> b64_decode_char (cstr_at s (4 * g))" "0 \<le> b64_decode_char (cstr_at s (4 * g + 1))"
    using assms(1) len unfolding half_checked_def cstr_at_def by (simp_all add: list_all_iff)
  show "cstr_at s (4 * g + r) \<noteq> CHR ''=''"
  proof (cases "4 * g + r < 43")
    case True
    have "CHR ''='' \<notin> set s" using assms(1) by (simp add: half_checked_def)
    moreover have "s ! (4 * g + r) \<in> set s" using True len by simp
    ultimately have "s ! (4 * g + r) \<noteq> CHR ''=''" by (rule neq_if_mem)
    with True len show ?thesis by (simp add: cstr_at_def)
  qed (use len in \<open>simp add: cstr_at_def\<close>)
qed

lemma half_checked_loop:
  assumes "half_checked s" and "g \<le> 10"
  shows "length key = 3 * g \<Longrightarrow> fst (b64_decode_loop s (4 * g) key) = 0"
  using assms(2)
proof (induction arbitrary: key rule: inc_induct)
  case base
  note at = half_checked_at [OF assms(1), of 10]
  have "length (snd (b64_decode_loop s (4 * 10) key)) = 32"
    unfolding b64_decode_loop.simps [of s "4 * 10"] Let_def
    using at(1,2) at(3) [of 2] base
    by (simp add: put_key_def WG_KEY_LEN_def b64_decode_loop.simps [of s 44])
  then show ?case using decode_loop_bounds [of key s "4 * 10"] base by simp
next
  case (step g)
  then have g: "g \<le> 10" by simp
  note at = half_checked_at [OF assms(1) g]
  have "4 * g < 43" "3 * g + 2 < 32" using step.hyps by simp_all
  moreover have "4 * g + 4 = 4 * Suc g" by simp
  ultimately show ?case
    unfolding b64_decode_loop.simps [of s "4 * g"] Let_def
    using at(1,2) at(3) [of 2] at(3) [of 3] step
    by (simp add: put_key_def WG_KEY_LEN_def add.commute)
qed

section \<open>Properties\<close>

text \<open>
  C29: encoding a key into a buffer of at least 45 bytes succeeds and writes 44 characters,
  and decoding these characters gives the key back.
\<close>

theorem base64_round_trip:
  assumes "length key = 32" and "45 \<le> len"
  shows "wg_key_to_base64 len key = (0, snd (wg_key_to_base64 len key)) \<and>
         length (snd (wg_key_to_base64 len key)) = 44 \<and>
         wg_key_from_base64 (Some (snd (wg_key_to_base64 len key))) = (0, key)"
  using assms decode_loop_correct [OF assms(1), of 0]
  by (simp add: wg_key_to_base64_def wg_key_from_base64_def)

theorem base64_round_trip_witness:
  "wg_key_from_base64 (Some (snd (wg_key_to_base64 45 (replicate 32 0xA7)))) = (0, replicate 32 0xA7)"
  using base64_round_trip [of "replicate 32 0xA7" 45] by simp

text \<open>
  C32: the decoder never writes past the 32 bytes of the key, and it reports success exactly
  when it has filled all of them; every other outcome is the error -1.
\<close>

theorem base64_decode_bounds:
  "length (snd (wg_key_from_base64 s)) \<le> 32 \<and>
   fst (wg_key_from_base64 s) = (if length (snd (wg_key_from_base64 s)) = 32 then 0 else -1)"
  by (cases s) (auto simp: wg_key_from_base64_def decode_loop_bounds)

text \<open>
  C33: the third and fourth character of a group are not validated. A 43 character string
  without padding is accepted as a key as soon as the first two characters of every group
  are base64 digits, whatever the others are.
\<close>

theorem base64_accepts_invalid:
  assumes "half_checked s"
  shows "fst (wg_key_from_base64 (Some s)) = 0"
  using half_checked_loop [OF assms, of 0 "[]"] assms
  by (simp add: wg_key_from_base64_def half_checked_def)

theorem base64_accepts_invalid_witness:
  "fst (wg_key_from_base64 (Some ''AA!?AA!?AA!?AA!?AA!?AA!?AA!?AA!?AA!?AA!?AA!'')) = 0"
proof -
  have "half_checked ''AA!?AA!?AA!?AA!?AA!?AA!?AA!?AA!?AA!?AA!?AA!''"
    by (simp add: half_checked_def b64_decode_char_def upt_conv_Cons)
  then show ?thesis by (rule base64_accepts_invalid)
qed

end
