(* ===== verification/RecvPool.thy ===== *)
theory RecvPool
  imports Prelude
begin

text \<open>
  The receive slot pool of \<open>src/src/wireguard.c\<close>: 256 fixed buffers linked through
  their \<open>next\<close> pointers into a free list. A slot pointer is an index into \<open>slots\<close>, \<open>None\<close> the
  null pointer. The critical sections under \<open>free_mutex\<close> are single steps of the model.
\<close>

section \<open>Model\<close>

definition WG_RECV_SLOT_CAP :: nat where
  [wg_consts]: "WG_RECV_SLOT_CAP = 2048"

definition WG_RECV_POOL_SIZE :: nat where
  [wg_consts]: "WG_RECV_POOL_SIZE = 256"

record WgRecvSlot =
  next_slot :: "nat option"
  slot_data :: bytes

record WgRecvPool =
  slots :: "WgRecvSlot list option"
  free_head :: "nat option"
  initialized :: bool

text \<open>The slots of a pool, none before the allocation.\<close>

definition pool_slots :: "WgRecvPool \<Rightarrow> WgRecvSlot list" where
  "pool_slots pool = (case slots pool of None \<Rightarrow> [] | Some ss \<Rightarrow> ss)"

definition zero_slot :: WgRecvSlot where
  "zero_slot = \<lparr>next_slot = None, slot_data = replicate WG_RECV_SLOT_CAP 0\<rparr>"

definition set_next :: "WgRecvSlot list \<Rightarrow> nat \<Rightarrow> nat option \<Rightarrow> WgRecvSlot list" where
  "set_next ss i n = ss[i := (ss ! i)\<lparr>next_slot := n\<rparr>]"

text \<open>The loop that links slot after slot in front of the free list.\<close>

definition link_slots :: "nat list \<Rightarrow> WgRecvSlot list \<times> nat option \<Rightarrow> WgRecvSlot list \<times> nat option" where
  "link_slots is = fold (\<lambda>i (ss, h). (set_next ss i h, Some i)) is"

text \<open>\<open>calloc_ok\<close> and \<open>mutex_ok\<close> say whether the allocation and \<open>wg_mutex_init\<close> succeed.\<close>

definition wg_recv_pool_init :: "bool \<Rightarrow> bool \<Rightarrow> WgRecvPool option \<Rightarrow> int \<times> WgRecvPool option" where
  "wg_recv_pool_init calloc_ok mutex_ok p =
     (case p of None \<Rightarrow> (-1, None)
      | Some pool \<Rightarrow>
          if \<not> calloc_ok then (-1, Some (pool\<lparr>slots := None\<rparr>))
          else if \<not> mutex_ok then (-1, Some (pool\<lparr>slots := None\<rparr>))
          else
            (let (ss, h) = link_slots [0..<WG_RECV_POOL_SIZE]
                             (replicate WG_RECV_POOL_SIZE zero_slot, None)
             in (0, Some (pool\<lparr>slots := Some ss, free_head := h, initialized := True\<rparr>))))"

definition wg_recv_pool_destroy :: "WgRecvPool option \<Rightarrow> WgRecvPool option" where
  "wg_recv_pool_destroy p =
     (case p of None \<Rightarrow> None
      | Some pool \<Rightarrow>
          if \<not> initialized pool then Some pool
          else Some (pool\<lparr>slots := None, free_head := None, initialized := False\<rparr>))"

definition wg_recv_pool_acquire :: "WgRecvPool \<Rightarrow> nat option \<times> WgRecvPool" where
  "wg_recv_pool_acquire pool =
     (if \<not> initialized pool then (None, pool)
      else
        (case free_head pool of
           None \<Rightarrow> (None, pool)
         | Some i \<Rightarrow>
             (let ss = pool_slots pool;
                  pool1 = pool\<lparr>free_head := next_slot (ss ! i)\<rparr>
              in (Some i, pool1\<lparr>slots := Some (set_next ss i None)\<rparr>))))"

definition wg_recv_pool_release :: "WgRecvPool \<Rightarrow> nat option \<Rightarrow> WgRecvPool" where
  "wg_recv_pool_release pool slot =
     (case slot of None \<Rightarrow> pool
      | Some i \<Rightarrow>
          if \<not> initialized pool then pool
          else pool\<lparr>slots := Some (set_next (pool_slots pool) i (free_head pool)),
                    free_head := Some i\<rparr>)"

section \<open>The free list\<close>

primrec chain :: "WgRecvSlot list \<Rightarrow> nat option \<Rightarrow> nat list \<Rightarrow> bool" where
  "chain ss h [] = (h = None)"
| "chain ss h (x # xs) = (h = Some x \<and> x < length ss \<and> chain ss (next_slot (ss ! x)) xs)"

text \<open>\<open>pool_free pool xs\<close>: the pool is initialized and its free list is \<open>xs\<close>, without repetition.\<close>

definition pool_free :: "WgRecvPool \<Rightarrow> nat list \<Rightarrow> bool" where
  "pool_free pool xs \<longleftrightarrow> initialized pool \<and> length (pool_slots pool) = WG_RECV_POOL_SIZE \<and>
     chain (pool_slots pool) (free_head pool) xs \<and> distinct xs"

lemma chain_unique: "chain ss h xs \<Longrightarrow> chain ss h ys \<Longrightarrow> xs = ys"
proof (induction xs arbitrary: h ys)
  case Nil
  then show ?case by (cases ys) auto
next
  case (Cons x xs)
  then show ?case by (cases ys) auto
qed

lemma chain_bound: "chain ss h xs \<Longrightarrow> set xs \<subseteq> {..<length ss}"
  by (induction xs arbitrary: h) auto

lemma set_next_len [simp]: "length (set_next ss i n) = length ss"
  by (simp add: set_next_def)

lemma set_next_nth [simp]:
  "j < length ss \<Longrightarrow> next_slot (set_next ss i n ! j) = (if i = j then n else next_slot (ss ! j))"
  by (simp add: set_next_def nth_list_update)

lemma chain_set_next: "i \<notin> set xs \<Longrightarrow> chain (set_next ss i n) h xs = chain ss h xs"
  by (induction xs arbitrary: h) (simp_all cong: conj_cong)

lemma link_slots_chain:
  assumes "chain ss h xs" and "distinct (rev is @ xs)" and "set is \<subseteq> {..<length ss}"
  shows "chain (fst (link_slots is (ss, h))) (snd (link_slots is (ss, h))) (rev is @ xs) \<and>
         length (fst (link_slots is (ss, h))) = length ss"
  using assms
proof (induction "is" arbitrary: ss h xs)
  case Nil
  then show ?case by (simp add: link_slots_def)
next
  case (Cons i "is")
  have "chain (set_next ss i h) (Some i) (i # xs)"
    using Cons.prems by (simp add: chain_set_next)
  from Cons.IH [OF this] Cons.prems show ?case by (simp add: link_slots_def)
qed

lemma pool_free_init:
  assumes "wg_recv_pool_init c m p = (0, Some pool)"
  shows "pool_free pool (rev [0..<WG_RECV_POOL_SIZE])"
proof -
  let ?is = "[0..<WG_RECV_POOL_SIZE]" and ?z = "replicate WG_RECV_POOL_SIZE zero_slot"
  have "chain (fst (link_slots ?is (?z, None))) (snd (link_slots ?is (?z, None))) (rev ?is @ []) \<and>
      length (fst (link_slots ?is (?z, None))) = length ?z"
    by (rule link_slots_chain) auto
  with assms show ?thesis
    by (auto simp: wg_recv_pool_init_def pool_free_def pool_slots_def
        split: option.splits if_splits prod.splits)
qed

lemma pool_free_acquire:
  assumes "pool_free pool xs"
  shows "case xs of [] \<Rightarrow> wg_recv_pool_acquire pool = (None, pool)
         | x # ys \<Rightarrow> fst (wg_recv_pool_acquire pool) = Some x \<and>
                     pool_free (snd (wg_recv_pool_acquire pool)) ys"
proof (cases xs)
  case Nil
  with assms show ?thesis by (simp add: wg_recv_pool_acquire_def pool_free_def)
next
  case (Cons x ys)
  with assms show ?thesis
    by (auto simp: wg_recv_pool_acquire_def pool_free_def pool_slots_def Let_def chain_set_next)
qed

lemma pool_free_release:
  assumes "pool_free pool xs" and "i < WG_RECV_POOL_SIZE" and "i \<notin> set xs"
  shows "pool_free (wg_recv_pool_release pool (Some i)) (i # xs)"
  using assms
  by (auto simp: wg_recv_pool_release_def pool_free_def pool_slots_def chain_set_next)

text \<open>The free list, read off the pointers; 256 steps are enough since it has no repetition.\<close>

fun walk :: "nat \<Rightarrow> WgRecvSlot list \<Rightarrow> nat option \<Rightarrow> nat list" where
  "walk 0 ss h = []"
| "walk (Suc n) ss None = []"
| "walk (Suc n) ss (Some i) = i # walk n ss (next_slot (ss ! i))"

definition free_list :: "WgRecvPool \<Rightarrow> nat list" where
  "free_list pool = walk WG_RECV_POOL_SIZE (pool_slots pool) (free_head pool)"

definition pool_ok :: "WgRecvPool \<Rightarrow> bool" where
  "pool_ok pool \<longleftrightarrow> pool_free pool (free_list pool)"

lemma chain_walk: "chain ss h xs \<Longrightarrow> length xs \<le> n \<Longrightarrow> walk n ss h = xs"
proof (induction xs arbitrary: h n)
  case Nil
  then show ?case by (cases n) auto
next
  case (Cons x xs)
  then obtain m where "n = Suc m" by (cases n) auto
  with Cons show ?case by auto
qed

lemma pool_free_length: "pool_free pool xs \<Longrightarrow> length xs \<le> WG_RECV_POOL_SIZE"
proof -
  assume a: "pool_free pool xs"
  then have "set xs \<subseteq> {..<WG_RECV_POOL_SIZE}" and "distinct xs"
    using chain_bound by (fastforce simp: pool_free_def)+
  then show ?thesis
    by (metis card_lessThan card_mono distinct_card finite_lessThan)
qed

lemma pool_free_list: "pool_free pool xs \<Longrightarrow> free_list pool = xs"
  using pool_free_length [of pool xs] by (simp add: free_list_def pool_free_def chain_walk)

lemma pool_okI: "pool_free pool xs \<Longrightarrow> pool_ok pool"
  using pool_free_list by (simp add: pool_ok_def)

section \<open>What a pool promises\<close>

text \<open>
  A run of a pool together with the set of slots that are in somebody's hands: a slot is taken
  out by \<open>acquire\<close> and put back by its owner, once.
\<close>

inductive pool_run ::
  "('p \<Rightarrow> nat option \<times> 'p) \<Rightarrow> ('p \<Rightarrow> nat option \<Rightarrow> 'p) \<Rightarrow> 'p \<Rightarrow> 'p \<Rightarrow> nat set \<Rightarrow> bool"
  for acquire release p0 where
  start: "pool_run acquire release p0 p0 {}"
| take: "pool_run acquire release p0 p owned \<Longrightarrow> acquire p = (Some s, p') \<Longrightarrow>
    pool_run acquire release p0 p' (insert s owned)"
| miss: "pool_run acquire release p0 p owned \<Longrightarrow> acquire p = (None, p') \<Longrightarrow>
    pool_run acquire release p0 p' owned"
| give: "pool_run acquire release p0 p owned \<Longrightarrow> s \<in> owned \<Longrightarrow>
    pool_run acquire release p0 (release p (Some s)) (owned - {s})"

locale slot_pool =
  fixes acquire :: "'p \<Rightarrow> nat option \<times> 'p"
    and release :: "'p \<Rightarrow> nat option \<Rightarrow> 'p"
    and free :: "'p \<Rightarrow> nat set"
    and ok :: "'p \<Rightarrow> bool"
    and N :: nat
  assumes free_bound: "ok p \<Longrightarrow> free p \<subseteq> {..<N}"
    and acquire_empty: "ok p \<Longrightarrow> free p = {} \<Longrightarrow> acquire p = (None, p)"
    and acquire_some: "ok p \<Longrightarrow> free p \<noteq> {} \<Longrightarrow>
      \<exists>s p'. acquire p = (Some s, p') \<and> s \<in> free p \<and> free p' = free p - {s} \<and> ok p'"
    and release_ok: "ok p \<Longrightarrow> s < N \<Longrightarrow> s \<notin> free p \<Longrightarrow>
      ok (release p (Some s)) \<and> free (release p (Some s)) = insert s (free p)"
begin

lemma acquire_cases:
  assumes "ok p"
  obtains "acquire p = (None, p)" "free p = {}"
  | s p' where "acquire p = (Some s, p')" "s \<in> free p" "free p' = free p - {s}" "ok p'"
  using acquire_empty [OF assms] acquire_some [OF assms] by blast

lemma run_partition:
  assumes "pool_run acquire release p0 p owned" and "ok p0" and "free p0 = {..<N}"
  shows "ok p \<and> owned \<inter> free p = {} \<and> owned \<union> free p = {..<N}"
  using assms(1)
proof (induction rule: pool_run.induct)
  case start
  then show ?case using assms(2,3) by simp
next
  case (take p owned s p')
  from take.IH have "ok p" by simp
  then show ?case
    by (cases rule: acquire_cases) (use take in auto)
next
  case (miss p owned p')
  from miss.IH have "ok p" by simp
  then show ?case
    by (cases rule: acquire_cases) (use miss in auto)
next
  case (give p owned s)
  then have "s < N" "s \<notin> free p" "ok p" by auto
  with release_ok [of p s] give show ?case by auto
qed

lemma run_exclusive:
  assumes "pool_run acquire release p0 p owned" and "ok p0" and "free p0 = {..<N}"
    and "acquire p = (r, p')"
  shows "case r of None \<Rightarrow> owned = {..<N} | Some s \<Rightarrow> s < N \<and> s \<notin> owned"
proof -
  from run_partition [OF assms(1-3)]
  have "ok p" "owned \<inter> free p = {}" "owned \<union> free p = {..<N}" by auto
  from this(1) show ?thesis
    by (cases rule: acquire_cases) (use assms(4) \<open>owned \<inter> free p = {}\<close> \<open>owned \<union> free p = {..<N}\<close> in auto)
qed

end

interpretation wgpool: slot_pool wg_recv_pool_acquire wg_recv_pool_release
  "\<lambda>p. set (free_list p)" pool_ok WG_RECV_POOL_SIZE
proof
  fix p :: WgRecvPool and s :: nat
  assume ok: "pool_ok p"
  then have f: "pool_free p (free_list p)" by (simp add: pool_ok_def)
  then show "set (free_list p) \<subseteq> {..<WG_RECV_POOL_SIZE}"
    using chain_bound by (fastforce simp: pool_free_def)
  show "wg_recv_pool_acquire p = (None, p)" if "set (free_list p) = {}"
    using pool_free_acquire [OF f] that by simp
  show "\<exists>s p'. wg_recv_pool_acquire p = (Some s, p') \<and> s \<in> set (free_list p) \<and>
      set (free_list p') = set (free_list p) - {s} \<and> pool_ok p'"
    if ne: "set (free_list p) \<noteq> {}"
  proof -
    from ne obtain x ys where xs: "free_list p = x # ys" by (cases "free_list p") auto
    let ?p' = "snd (wg_recv_pool_acquire p)"
    have "fst (wg_recv_pool_acquire p) = Some x" and p': "pool_free ?p' ys"
      using pool_free_acquire [OF f] by (simp_all add: xs)
    moreover have "x \<notin> set ys" using f by (simp add: pool_free_def xs)
    ultimately show ?thesis
      by (intro exI [of _ x] exI [of _ ?p'])
        (auto simp: xs pool_free_list [OF p'] pool_okI [OF p'] prod_eq_iff)
  qed
  show "pool_ok (wg_recv_pool_release p (Some s)) \<and>
      set (free_list (wg_recv_pool_release p (Some s))) = insert s (set (free_list p))"
    if "s < WG_RECV_POOL_SIZE" "s \<notin> set (free_list p)"
    using pool_free_release [OF f that] pool_free_list pool_okI by fastforce
qed

section \<open>Properties\<close>

text \<open>
  Exclusive ownership. In every run that starts from a freshly initialised pool and gives
  back only slots it holds, a slot handed out by the pool is in nobody's hands, and the pool
  refuses only when all 256 slots are out.
\<close>

theorem recv_pool_exclusive:
  assumes "wg_recv_pool_init c m p = (0, Some pool0)"
    and "pool_run wg_recv_pool_acquire wg_recv_pool_release pool0 pool owned"
    and "wg_recv_pool_acquire pool = (r, pool')"
  shows "case r of None \<Rightarrow> owned = {..<256} | Some s \<Rightarrow> s < 256 \<and> s \<notin> owned"
proof -
  have "pool_free pool0 (rev [0..<WG_RECV_POOL_SIZE])" using assms(1) by (rule pool_free_init)
  then have "pool_ok pool0" "set (free_list pool0) = {..<WG_RECV_POOL_SIZE}"
    using pool_okI pool_free_list by (auto simp: atLeast0LessThan)
  from wgpool.run_exclusive [OF assms(2) this assms(3)] show ?thesis
    unfolding WG_RECV_POOL_SIZE_def .
qed

theorem recv_pool_exclusive_witness:
  "\<exists>pool0 pool pool'.
     wg_recv_pool_init True True (Some \<lparr>slots = None, free_head = None, initialized = False\<rparr>) =
       (0, Some pool0) \<and>
     pool_run wg_recv_pool_acquire wg_recv_pool_release pool0 pool {255} \<and>
     wg_recv_pool_acquire pool = (Some 254, pool') \<and> 254 \<notin> ({255} :: nat set)"
proof -
  obtain pool0 where i: "wg_recv_pool_init True True
      (Some \<lparr>slots = None, free_head = None, initialized = False\<rparr>) = (0, Some pool0)"
    by (simp add: wg_recv_pool_init_def split_def Let_def)
  have "WG_RECV_POOL_SIZE = Suc (Suc 254)" by (simp add: WG_RECV_POOL_SIZE_def)
  then have l: "rev [0..<WG_RECV_POOL_SIZE] = 255 # 254 # rev [0..<254]"
    unfolding \<open>WG_RECV_POOL_SIZE = Suc (Suc 254)\<close> upt_Suc_append [OF le0] by simp
  obtain pool where p: "wg_recv_pool_acquire pool0 = (Some 255, pool)"
      "pool_free pool (254 # rev [0..<254])"
    using pool_free_acquire [OF pool_free_init [OF i]] by (cases "wg_recv_pool_acquire pool0") (simp add: l)
  obtain pool' where q: "wg_recv_pool_acquire pool = (Some 254, pool')"
    using pool_free_acquire [OF p(2)] by (cases "wg_recv_pool_acquire pool") simp
  have r: "pool_run wg_recv_pool_acquire wg_recv_pool_release pool0 pool {255}"
    by (rule pool_run.take [where acquire = wg_recv_pool_acquire, OF pool_run.start p(1)])
  show ?thesis
    using i r q recv_pool_exclusive [OF i r q, simplified] by auto
qed

end
