(* ===== verification/Ring.thy ===== *)
theory Ring
  imports Prelude
begin

text \<open>
  The packet ring between the relay thread and the receive thread in
  \<open>src/src/platform_switch.c\<close>: the producer writes slots and bumps \<open>g_wseq_local\<close>, a commit
  publishes it as \<open>g_wseq\<close>, the consumer keeps its own \<open>rseq\<close>. Sequence numbers are 32-bit
  words. The ring is compared with an unbounded queue of packets.
\<close>

unbundle bit_operations_syntax

section \<open>Model\<close>

definition RING_SLOTS :: u32 where
  [wg_consts]: "RING_SLOTS = 256"

definition RING_DATA_MAX :: nat where
  [wg_consts]: "RING_DATA_MAX = 2044"

record ring_slot =
  rs_len :: u16
  rs_data :: bytes

record ring =
  g_ring :: "ring_slot list"
  g_wseq_local :: u32
  g_wseq :: u32

definition ring_init :: ring where
  "ring_init = \<lparr>g_ring = replicate 256 \<lparr>rs_len = 0, rs_data = replicate RING_DATA_MAX 0\<rparr>,
                g_wseq_local = 0, g_wseq = 0\<rparr>"

definition ring_idx :: "u32 \<Rightarrow> nat" where
  "ring_idx seq = unat (seq AND (RING_SLOTS - 1))"

definition ring_full :: "ring \<Rightarrow> bool" where
  "ring_full r \<longleftrightarrow> RING_SLOTS - 4 \<le> g_wseq_local r - g_wseq r"

definition ring_put :: "ring \<Rightarrow> bytes \<Rightarrow> ring" where
  "ring_put r data =
     (let seq = g_wseq_local r; idx = ring_idx seq; old = g_ring r ! idx
      in r\<lparr>g_ring := (g_ring r)[idx := \<lparr>rs_len = of_nat (length data),
                                     rs_data = data @ drop (length data) (rs_data old)\<rparr>],
           g_wseq_local := seq + 1\<rparr>)"

text \<open>\<open>None\<close>: the producer waits in the loop on a full ring, which it leaves unchanged.\<close>

definition wg_relay_input :: "ring \<Rightarrow> bytes \<Rightarrow> ring option" where
  "wg_relay_input r data =
     (if RING_DATA_MAX < length data then Some r
      else if ring_full r then None
      else Some (ring_put r data))"

definition wg_relay_commit :: "ring \<Rightarrow> ring" where
  "wg_relay_commit r = r\<lparr>g_wseq := g_wseq_local r\<rparr>"

text \<open>One round of the loop of \<open>wg_socket_recv\<close> over the ring, with the consumer's \<open>rseq\<close>.\<close>

datatype recv_round = Idle | Skip u32 | Got u32 bytes

definition recv_catch_up :: "u32 \<Rightarrow> u32 \<Rightarrow> u32" where
  "recv_catch_up w rseq = (if RING_SLOTS < w - rseq then w - RING_SLOTS + 1 else rseq)"

definition recv_iter :: "ring \<Rightarrow> u32 \<Rightarrow> nat \<Rightarrow> recv_round" where
  "recv_iter r rseq0 len =
     (let w = g_wseq r in
      if w \<le> rseq0 then Idle
      else
        (let rseq = recv_catch_up w rseq0;
             slot = g_ring r ! ring_idx rseq
         in if rs_len slot = 0 then Skip (rseq + 1)
            else
              (let n = (if unat (rs_len slot) < len then unat (rs_len slot) else len)
               in Got (rseq + 1) (take n (rs_data slot)))))"

text \<open>
  The loop itself: each round sees a time and the ring of that moment. \<open>None\<close>: still waiting
  after the observations given.
\<close>

fun relay_recv :: "u64 \<Rightarrow> nat \<Rightarrow> u32 \<Rightarrow> (u64 \<times> ring) list \<Rightarrow> ((WgError + bytes) \<times> u32) option" where
  "relay_recv deadline len rseq [] = None"
| "relay_recv deadline len rseq ((now, r) # obs) =
     (if \<not> now < deadline then Some (Inl WG_ERR_TIMEOUT, rseq)
      else
        (case recv_iter r rseq len of
           Idle \<Rightarrow> relay_recv deadline len rseq obs
         | Skip rseq' \<Rightarrow> relay_recv deadline len rseq' obs
         | Got rseq' buf \<Rightarrow> Some (Inr buf, rseq')))"

section \<open>Packets held by the ring\<close>

text \<open>
  \<open>ring_holds H c r\<close>: \<open>H\<close> are the packets written so far, the first \<open>c\<close> of them committed; the
  last 256 are in their slots.
\<close>

definition slot_holds :: "ring_slot \<Rightarrow> bytes \<Rightarrow> bool" where
  "slot_holds s p \<longleftrightarrow> rs_len s = of_nat (length p) \<and> length p \<le> RING_DATA_MAX \<and>
     take (length p) (rs_data s) = p"

definition ring_holds :: "bytes list \<Rightarrow> nat \<Rightarrow> ring \<Rightarrow> bool" where
  "ring_holds H c r \<longleftrightarrow> length (g_ring r) = 256 \<and> length H < 2 ^ 32 \<and> c \<le> length H \<and>
     g_wseq_local r = of_nat (length H) \<and> g_wseq r = of_nat c \<and>
     (\<forall>i < length H. length H \<le> i + 256 \<longrightarrow> slot_holds (g_ring r ! (i mod 256)) (H ! i))"

lemma ring_idx_of_nat: "ring_idx (of_nat n) = n mod 256"
proof -
  have "(of_nat n :: u32) AND 255 = take_bit 8 (of_nat n)"
    by (simp add: take_bit_eq_mask mask_eq_exp_minus_1)
  then have "ring_idx (of_nat n) = take_bit 8 (unat (of_nat n :: u32))"
    by (simp add: ring_idx_def RING_SLOTS_def unsigned_take_bit_eq)
  then show ?thesis
    by (simp add: unat_of_nat take_bit_eq_mod mod_mod_cancel)
qed

lemma unat_seq: "n < 2 ^ 32 \<Longrightarrow> unat (of_nat n :: u32) = n"
  by (simp add: unat_of_nat)

lemma seq_diff: "c \<le> n \<Longrightarrow> (of_nat n :: u32) - of_nat c = of_nat (n - c)"
  by (simp add: of_nat_diff)

lemma seq_le: "a < 2 ^ 32 \<Longrightarrow> b < 2 ^ 32 \<Longrightarrow> (of_nat a :: u32) \<le> of_nat b \<longleftrightarrow> a \<le> b"
  by (simp add: word_le_nat_alt unat_of_nat)

lemma seq_gap:
  assumes "c \<le> n" and "n < 2 ^ 32"
  shows "(k :: u32) \<le> of_nat n - of_nat c \<longleftrightarrow> unat k \<le> n - c"
    and "k < of_nat n - of_nat c \<longleftrightarrow> unat k < n - c"
  unfolding seq_diff [OF assms(1)] word_le_nat_alt word_less_nat_alt
  using unat_seq [of "n - c"] assms(2) by simp_all

lemma ring_holds_init: "ring_holds [] 0 ring_init"
  by (simp add: ring_holds_def ring_init_def)

lemma ring_holds_full: "ring_holds H c r \<Longrightarrow> ring_full r \<longleftrightarrow> 252 \<le> length H - c"
  by (simp add: ring_holds_def ring_full_def seq_gap RING_SLOTS_def)

lemma ring_holds_commit: "ring_holds H c r \<Longrightarrow> ring_holds H (length H) (wg_relay_commit r)"
  by (simp add: ring_holds_def wg_relay_commit_def)

lemma ring_holds_put:
  assumes h: "ring_holds H c r" and "length p \<le> RING_DATA_MAX" and "length H + 1 < 2 ^ 32"
  shows "ring_holds (H @ [p]) c (ring_put r p)"
proof -
  have s: "slot_holds \<lparr>rs_len = of_nat (length p), rs_data = p @ d\<rparr> p" for d
    using assms(2) by (simp add: slot_holds_def)
  have "slot_holds ((g_ring r)[length H mod 256 := \<lparr>rs_len = of_nat (length p),
      rs_data = p @ drop (length p) (rs_data (g_ring r ! (length H mod 256)))\<rparr>] ! (i mod 256))
      ((H @ [p]) ! i)" if "i < length H + 1" "length H + 1 \<le> i + 256" for i
  proof (cases "i = length H")
    case True
    then show ?thesis using s h by (simp add: ring_holds_def)
  next
    case False
    then have "i mod 256 \<noteq> length H mod 256"
      using mod_eq_bounded [of i 256 "length H"] that by auto
    then show ?thesis using h that False by (simp add: ring_holds_def nth_append)
  qed
  then show ?thesis
    using h assms(3) by (simp add: ring_holds_def ring_put_def Let_def ring_idx_of_nat)
qed

lemma slot_holds_len: "slot_holds s p \<Longrightarrow> unat (rs_len s) = length p"
  by (simp add: slot_holds_def RING_DATA_MAX_def unat_of_nat)

lemma slot_holds_empty: "slot_holds s p \<Longrightarrow> rs_len s = 0 \<longleftrightarrow> p = []"
  using slot_holds_len [of s p] by (metis length_0_conv unat_0 unat_eq_zero)

lemma slot_holds_take:
  assumes "slot_holds s p"
  shows "take (if unat (rs_len s) < n then unat (rs_len s) else n) (rs_data s) = take n p"
proof (cases "length p < n")
  case True
  then show ?thesis using assms by (simp add: slot_holds_len) (simp add: slot_holds_def)
next
  case False
  have "take n (take (length p) (rs_data s)) = take n p"
    using assms by (simp add: slot_holds_def)
  then show ?thesis using assms False by (simp add: slot_holds_len min_absorb1)
qed

text \<open>What one round of the consumer does, by the position it ends up reading.\<close>

definition round_at :: "nat \<Rightarrow> nat \<Rightarrow> bytes \<Rightarrow> recv_round" where
  "round_at k len p = (if p = [] then Skip (of_nat (k + 1)) else Got (of_nat (k + 1)) (take len p))"

lemma recv_iter_slot:
  assumes "g_wseq r = of_nat c" and "c < 2 ^ 32" and "rd < c"
    and "recv_catch_up (of_nat c) (of_nat rd) = of_nat k"
    and "slot_holds (g_ring r ! (k mod 256)) p"
  shows "recv_iter r (of_nat rd) len = round_at k len p"
proof -
  have "\<not> (of_nat c :: u32) \<le> of_nat rd" using assms(2,3) by (simp add: seq_le)
  then show ?thesis
    using assms(1,4) slot_holds_empty [OF assms(5)] slot_holds_take [OF assms(5), of len]
    by (auto simp: recv_iter_def Let_def ring_idx_of_nat round_at_def add.commute split: if_splits)
qed

lemma catch_up_near:
  "rd \<le> c \<Longrightarrow> c < 2 ^ 32 \<Longrightarrow> c \<le> rd + 256 \<Longrightarrow> recv_catch_up (of_nat c) (of_nat rd) = of_nat rd"
  by (auto simp: recv_catch_up_def seq_gap RING_SLOTS_def)

lemma catch_up_far:
  assumes "rd + 256 < c" and "c < 2 ^ 32"
  shows "recv_catch_up (of_nat c) (of_nat rd) = of_nat (c - 255)"
proof -
  have "(of_nat (c - 255) :: u32) = of_nat c - of_nat 255" using assms by (intro of_nat_diff) simp
  then show ?thesis
    using assms by (auto simp: recv_catch_up_def seq_gap RING_SLOTS_def)
qed

lemma recv_iter_idle:
  "ring_holds H c r \<Longrightarrow> c \<le> rd \<Longrightarrow> rd < 2 ^ 32 \<Longrightarrow> recv_iter r (of_nat rd) len = Idle"
  by (simp add: recv_iter_def ring_holds_def seq_le)

lemma recv_iter_near:
  assumes "ring_holds H c r" and "rd < c" and "length H \<le> rd + 256"
  shows "recv_iter r (of_nat rd) len = round_at rd len (H ! rd)"
  by (rule recv_iter_slot [of _ c]) (use assms in \<open>auto simp: ring_holds_def intro: catch_up_near\<close>)

section \<open>The ring as a queue\<close>

text \<open>
  What the producer and the consumer do to the ring, as a sequence of steps. A \<open>Put\<close> that finds
  the ring full has no effect: the producer is still waiting.
\<close>

datatype ring_event = Put bytes | Commit | Poll nat

fun ring_step :: "ring_event \<Rightarrow> ring \<times> u32 \<times> bytes list \<Rightarrow> ring \<times> u32 \<times> bytes list" where
  "ring_step (Put p) (r, rseq, out) =
     (case wg_relay_input r p of None \<Rightarrow> (r, rseq, out) | Some r' \<Rightarrow> (r', rseq, out))"
| "ring_step Commit (r, rseq, out) = (wg_relay_commit r, rseq, out)"
| "ring_step (Poll len) (r, rseq, out) =
     (case recv_iter r rseq len of
        Idle \<Rightarrow> (r, rseq, out)
      | Skip rseq' \<Rightarrow> (r, rseq', out)
      | Got rseq' buf \<Rightarrow> (r, rseq', out @ [buf]))"

text \<open>The queue: all packets written, how many of them are committed and how many read.\<close>

record fifo =
  sent :: "bytes list"
  committed :: nat
  taken :: nat
  delivered :: "bytes list"

definition fifo_init :: fifo where
  "fifo_init = \<lparr>sent = [], committed = 0, taken = 0, delivered = []\<rparr>"

fun fifo_step :: "ring_event \<Rightarrow> fifo \<Rightarrow> fifo" where
  "fifo_step (Put p) q =
     (if RING_DATA_MAX < length p \<or> 252 \<le> length (sent q) - committed q then q
      else q\<lparr>sent := sent q @ [p]\<rparr>)"
| "fifo_step Commit q = q\<lparr>committed := length (sent q)\<rparr>"
| "fifo_step (Poll len) q =
     (if committed q \<le> taken q then q
      else
        (let p = sent q ! taken q
         in q\<lparr>taken := taken q + 1,
              delivered := delivered q @ (if p = [] then [] else [take len p])\<rparr>))"

text \<open>The queue never runs more than the 256 slots ahead of the consumer, nor past 32 bits.\<close>

definition in_window :: "fifo \<Rightarrow> bool" where
  "in_window q \<longleftrightarrow> length (sent q) \<le> taken q + 256 \<and> length (sent q) < 2 ^ 32"

fun keeps_window :: "ring_event list \<Rightarrow> fifo \<Rightarrow> bool" where
  "keeps_window [] q = in_window q"
| "keeps_window (e # es) q = (in_window q \<and> keeps_window es (fifo_step e q))"

definition ring_sim :: "ring \<times> u32 \<times> bytes list \<Rightarrow> fifo \<Rightarrow> bool" where
  "ring_sim = (\<lambda>(r, rseq, out) q. ring_holds (sent q) (committed q) r \<and>
     rseq = of_nat (taken q) \<and> taken q \<le> committed q \<and> out = delivered q)"

lemma ring_sim_step:
  assumes sim: "ring_sim s q" and w: "in_window q" "in_window (fifo_step e q)"
  shows "ring_sim (ring_step e s) (fifo_step e q)"
proof -
  obtain r rseq out where s: "s = (r, rseq, out)" by (cases s)
  from sim have h: "ring_holds (sent q) (committed q) r" and rs: "rseq = of_nat (taken q)"
    and tc: "taken q \<le> committed q" and out: "out = delivered q"
    by (simp_all add: ring_sim_def s)
  show ?thesis
  proof (cases e)
    case (Put p)
    then show ?thesis
      using w sim ring_holds_full [OF h] ring_holds_put [OF h, of p]
      by (auto simp: s wg_relay_input_def ring_sim_def in_window_def)
  next
    case Commit
    then show ?thesis
      using h tc ring_holds_commit [OF h]
      by (auto simp: s ring_sim_def rs out) (simp add: ring_holds_def)
  next
    case (Poll len)
    show ?thesis
    proof (cases "committed q \<le> taken q")
      case True
      moreover have "taken q < 2 ^ 32" using h tc by (simp add: ring_holds_def)
      ultimately show ?thesis using sim recv_iter_idle [OF h] by (simp add: Poll s rs)
    next
      case False
      have "recv_iter r rseq len = round_at (taken q) len (sent q ! taken q)"
        unfolding rs by (rule recv_iter_near [OF h]) (use False w(1) in \<open>simp_all add: in_window_def\<close>)
      then show ?thesis
        using False h tc out by (simp add: Poll s ring_sim_def round_at_def Let_def)
    qed
  qed
qed

lemma ring_sim_run:
  "ring_sim s q \<Longrightarrow> keeps_window es q \<Longrightarrow> ring_sim (fold ring_step es s) (fold fifo_step es q)"
proof (induction es arbitrary: s q)
  case (Cons e es)
  then have "in_window (fifo_step e q)" by (cases es) simp_all
  with Cons ring_sim_step show ?case by simp
qed simp

lemma ring_sim_init: "ring_sim (ring_init, 0, []) fifo_init"
  by (simp add: ring_sim_def fifo_init_def ring_holds_init)

text \<open>The order of delivery in the queue, when every read asks for the same length.\<close>

definition polls_with :: "nat \<Rightarrow> ring_event list \<Rightarrow> bool" where
  "polls_with len es \<longleftrightarrow> list_all (\<lambda>e. case e of Poll n \<Rightarrow> n = len | _ \<Rightarrow> True) es"

definition fifo_ordered :: "nat \<Rightarrow> fifo \<Rightarrow> bool" where
  "fifo_ordered len q \<longleftrightarrow> taken q \<le> committed q \<and> committed q \<le> length (sent q) \<and>
     delivered q = map (take len) (filter (\<lambda>p. p \<noteq> []) (take (taken q) (sent q)))"

lemma fifo_ordered_step:
  assumes "fifo_ordered len q" and "case e of Poll n \<Rightarrow> n = len | _ \<Rightarrow> True"
  shows "fifo_ordered len (fifo_step e q)"
  using assms
  by (cases e) (auto simp: fifo_ordered_def Let_def take_Suc_conv_app_nth)

lemma fifo_ordered_run:
  "fifo_ordered len q \<Longrightarrow> polls_with len es \<Longrightarrow> fifo_ordered len (fold fifo_step es q)"
  by (induction es arbitrary: q) (auto simp: polls_with_def intro: fifo_ordered_step)

text \<open>A producer that commits after every packet is never held up, whatever the consumer does.\<close>

definition stream :: "bytes list \<Rightarrow> ring_event list" where
  "stream ps = concat (map (\<lambda>p. [Put p, Commit]) ps)"

lemma stream_holds:
  assumes "list_all (\<lambda>p. length p \<le> RING_DATA_MAX) ps" and "ring_holds H (length H) r"
    and "length H + length ps < 2 ^ 32"
  shows "\<exists>r'. fold ring_step (stream ps) (r, rseq, out) = (r', rseq, out) \<and>
    ring_holds (H @ ps) (length (H @ ps)) r'"
  using assms
proof (induction ps arbitrary: H r)
  case Nil
  then show ?case by (simp add: stream_def)
next
  case (Cons p ps)
  let ?r = "wg_relay_commit (ring_put r p)"
  have step: "fold ring_step [Put p, Commit] (r, rseq, out) = (?r, rseq, out)"
    using Cons.prems ring_holds_full [OF Cons.prems(2)] by (simp add: wg_relay_input_def)
  have "ring_holds (H @ [p]) (length (H @ [p])) ?r"
    using Cons.prems by (intro ring_holds_commit ring_holds_put) simp_all
  from Cons.IH [OF _ this] Cons.prems step show ?case by (simp add: stream_def)
qed

section \<open>Properties\<close>



text \<open>
  C34: silent loss. The producer waits for its own commits, not for the consumer: when it writes
  and commits more than 256 packets ahead of an idle consumer it is never held up, and the next
  read skips all packets but the last 255.
\<close>

theorem ring_overrun:
  assumes "list_all (\<lambda>p. p \<noteq> [] \<and> length p \<le> RING_DATA_MAX) ps"
    and "256 < length ps" and "length ps < 2 ^ 32"
  shows "\<exists>r. fold ring_step (stream ps @ [Poll len]) (ring_init, 0, []) =
    (r, of_nat (length ps - 254), [take len (ps ! (length ps - 255))])"
proof -
  obtain r where run: "fold ring_step (stream ps) (ring_init, 0, []) = (r, 0, [])"
      and h: "ring_holds ps (length ps) r"
    using stream_holds [of ps "[]" ring_init 0 "[]"] assms ring_holds_init
    by (auto simp: list_all_iff)
  let ?k = "length ps - 255"
  have "recv_iter r (of_nat 0) len = round_at ?k len (ps ! ?k)"
    by (rule recv_iter_slot [of _ "length ps"])
      (use h assms(2) catch_up_far [of 0 "length ps"] in \<open>auto simp: ring_holds_def\<close>)
  moreover have "ps ! ?k \<noteq> []" using assms(1,2) by (simp add: list_all_length)
  moreover have "?k + 1 = length ps - 254" using assms(2) by simp
  ultimately show ?thesis using run by (simp add: round_at_def del: of_nat_add)
qed

theorem ring_overrun_witness:
  "\<exists>r. fold ring_step (stream ([7] # [8] # replicate 255 [9]) @ [Poll 2048]) (ring_init, 0, []) =
    (r, 3, [[9]])"
  using ring_overrun [of "[7] # [8] # replicate 255 [9]" 2048]
  by (simp add: RING_DATA_MAX_def list_all_iff)

end
