(* ===== verification/Bytes.thy ===== *)
theory Bytes
  imports Prelude
begin

text \<open>
  Memory as the C code handles it: copies into a byte array, little-endian loads and stores
  (the \<open>load32_le\<close> family of \<open>library/crypto/monocypher.c\<close>), and the lanes of the NEON
  registers with the intrinsics of \<open>arm_neon.h\<close> that the sources use.
\<close>

unbundle bit_operations_syntax

section \<open>Byte arrays\<close>

text \<open>\<open>memcpy(dst + off, src, length src)\<close>.\<close>

definition memcpy_at :: "bytes \<Rightarrow> nat \<Rightarrow> bytes \<Rightarrow> bytes" where
  "memcpy_at dst off src = take off dst @ src @ drop (off + length src) dst"

lemma memcpy_at_length [simp, bytes_len]:
  "off + length src \<le> length dst \<Longrightarrow> length (memcpy_at dst off src) = length dst"
  by (simp add: memcpy_at_def)

lemma memcpy_at_take [simp]:
  "off \<le> length dst \<Longrightarrow> take (off + length src) (memcpy_at dst off src) = take off dst @ src"
  by (simp add: memcpy_at_def)

definition xor_bytes :: "bytes \<Rightarrow> bytes \<Rightarrow> bytes" where
  "xor_bytes a b = map2 (XOR) a b"

lemma xor_bytes_length [simp, bytes_len]: "length (xor_bytes a b) = min (length a) (length b)"
  by (simp add: xor_bytes_def)

lemma xor_bytes_twice: "length a \<le> length b \<Longrightarrow> xor_bytes (xor_bytes a b) b = a"
proof (induction a arbitrary: b)
  case (Cons x a)
  then show ?case by (cases b) (simp_all add: xor_bytes_def xor.assoc)
qed (simp add: xor_bytes_def)

section \<open>Little-endian words\<close>

definition load32_le :: "bytes \<Rightarrow> u32" where
  "load32_le s = ucast (s ! 0) OR push_bit 8 (ucast (s ! 1)) OR
     push_bit 16 (ucast (s ! 2)) OR push_bit 24 (ucast (s ! 3))"

definition load64_le :: "bytes \<Rightarrow> u64" where
  "load64_le s = ucast (load32_le s) OR push_bit 32 (ucast (load32_le (drop 4 s)))"

definition store32_le :: "u32 \<Rightarrow> bytes" where
  "store32_le w = [ucast w, ucast (drop_bit 8 w), ucast (drop_bit 16 w), ucast (drop_bit 24 w)]"

definition store64_le :: "u64 \<Rightarrow> bytes" where
  "store64_le w = store32_le (ucast w) @ store32_le (ucast (drop_bit 32 w))"

lemma store32_le_length [simp, bytes_len]: "length (store32_le w) = 4"
  by (simp add: store32_le_def)

lemma store64_le_length [simp, bytes_len]: "length (store64_le w) = 8"
  by (simp add: store64_le_def)

lemma bit_u32_out [simp]: "32 \<le> n \<Longrightarrow> \<not> bit (w :: u32) n"
  using bit_imp_le_length [of w n] by auto

lemma bit_u64_out [simp]: "64 \<le> n \<Longrightarrow> \<not> bit (w :: u64) n"
  using bit_imp_le_length [of w n] by auto

lemma load32_le_store: "load32_le (store32_le w @ r) = w"
proof (rule bit_word_eqI)
  fix n assume "n < LENGTH(32)"
  then have "n < 32" by simp
  then consider "n < 8" | "8 \<le> n" "n < 16" | "16 \<le> n" "n < 24" | "24 \<le> n" "n < 32" by linarith
  then show "bit (load32_le (store32_le w @ r)) n = bit w n"
    by cases (auto simp: load32_le_def store32_le_def bit_simps)
qed

lemma load64_le_store: "load64_le (store64_le w @ r) = w"
proof (rule bit_word_eqI)
  fix n assume "n < LENGTH(64)"
  then have "n < 64" by simp
  then show "bit (load64_le (store64_le w @ r)) n = bit w n"
    by (cases "n < 32")
      (auto simp: load64_le_def store64_le_def load32_le_store append_assoc drop_append bit_simps)
qed

section \<open>NEON registers\<close>

datatype uint32x4 = V4 (lane0: u32) (lane1: u32) (lane2: u32) (lane3: u32)

datatype uint16x8 = V8 u16 u16 u16 u16 u16 u16 u16 u16

fun v4_lift2 :: "(u32 \<Rightarrow> u32 \<Rightarrow> u32) \<Rightarrow> uint32x4 \<Rightarrow> uint32x4 \<Rightarrow> uint32x4" where
  "v4_lift2 f (V4 a b c d) (V4 a' b' c' d') = V4 (f a a') (f b b') (f c c') (f d d')"

definition vaddq_u32 :: "uint32x4 \<Rightarrow> uint32x4 \<Rightarrow> uint32x4" where
  [simp]: "vaddq_u32 = v4_lift2 (+)"

definition veorq_u32 :: "uint32x4 \<Rightarrow> uint32x4 \<Rightarrow> uint32x4" where
  [simp]: "veorq_u32 = v4_lift2 (XOR)"

definition vorrq_u32 :: "uint32x4 \<Rightarrow> uint32x4 \<Rightarrow> uint32x4" where
  [simp]: "vorrq_u32 = v4_lift2 (OR)"

fun vshlq_n_u32 :: "uint32x4 \<Rightarrow> nat \<Rightarrow> uint32x4" where
  "vshlq_n_u32 (V4 a b c d) n = V4 (push_bit n a) (push_bit n b) (push_bit n c) (push_bit n d)"

fun vshrq_n_u32 :: "uint32x4 \<Rightarrow> nat \<Rightarrow> uint32x4" where
  "vshrq_n_u32 (V4 a b c d) n = V4 (drop_bit n a) (drop_bit n b) (drop_bit n c) (drop_bit n d)"

definition v4_list :: "uint32x4 \<Rightarrow> u32 list" where
  "v4_list v = [lane0 v, lane1 v, lane2 v, lane3 v]"

definition vld1q_u32 :: "u32 list \<Rightarrow> uint32x4" where
  "vld1q_u32 m = V4 (m ! 0) (m ! 1) (m ! 2) (m ! 3)"

text \<open>\<open>vextq_u32(a, b, n)\<close>: lanes \<open>n\<close> to \<open>n + 3\<close> of \<open>a\<close> followed by \<open>b\<close>.\<close>

definition vextq_u32 :: "uint32x4 \<Rightarrow> uint32x4 \<Rightarrow> nat \<Rightarrow> uint32x4" where
  "vextq_u32 a b n = vld1q_u32 (drop n (v4_list a @ v4_list b))"

fun vsetq_lane_u32 :: "u32 \<Rightarrow> uint32x4 \<Rightarrow> nat \<Rightarrow> uint32x4" where
  "vsetq_lane_u32 x (V4 a b c d) n =
     V4 (if n = 0 then x else a) (if n = 1 then x else b) (if n = 2 then x else c) (if n = 3 then x else d)"

fun vreinterpretq_u16_u32 :: "uint32x4 \<Rightarrow> uint16x8" where
  "vreinterpretq_u16_u32 (V4 a b c d) =
     V8 (ucast a) (ucast (drop_bit 16 a)) (ucast b) (ucast (drop_bit 16 b))
        (ucast c) (ucast (drop_bit 16 c)) (ucast d) (ucast (drop_bit 16 d))"

fun vreinterpretq_u32_u16 :: "uint16x8 \<Rightarrow> uint32x4" where
  "vreinterpretq_u32_u16 (V8 a b c d e f g h) =
     V4 (ucast a OR push_bit 16 (ucast b)) (ucast c OR push_bit 16 (ucast d))
        (ucast e OR push_bit 16 (ucast f)) (ucast g OR push_bit 16 (ucast h))"

fun vrev32q_u16 :: "uint16x8 \<Rightarrow> uint16x8" where
  "vrev32q_u16 (V8 a b c d e f g h) = V8 b a d c f e h g"

text \<open>Swapping the halves of a lane is a rotation by 16, and a shift pair a rotation.\<close>

lemma bit_u16_out [simp]: "16 \<le> n \<Longrightarrow> \<not> bit (w :: u16) n"
  using bit_imp_le_length [of w n] by auto

lemma swap_halves:
  fixes x :: u32
  shows "ucast (ucast (drop_bit 16 x) :: u16) OR push_bit 16 (ucast (ucast x :: u16)) =
   drop_bit 16 x OR push_bit 16 x" (is "?l = ?r")
proof (rule bit_word_eqI)
  fix n assume "n < LENGTH(32)"
  then show "bit ?l n = bit ?r n"
    by (cases "n < 16") (auto simp: bit_simps)
qed

lemma vrev32_rot16:
  "vreinterpretq_u32_u16 (vrev32q_u16 (vreinterpretq_u16_u32 v)) =
   vorrq_u32 (vshrq_n_u32 v 16) (vshlq_n_u32 v 16)"
  by (cases v) (simp add: swap_halves)

lemma vextq_lanes [simp]:
  "vextq_u32 (V4 a b c d) (V4 e f g h) 1 = V4 b c d e"
  "vextq_u32 (V4 a b c d) (V4 e f g h) (Suc 0) = V4 b c d e"
  "vextq_u32 (V4 a b c d) (V4 e f g h) 2 = V4 c d e f"
  "vextq_u32 (V4 a b c d) (V4 e f g h) 3 = V4 d e f g"
  by (simp_all add: vextq_u32_def v4_list_def vld1q_u32_def)

lemma v4_list_length [simp]: "length (v4_list v) = 4"
  by (simp add: v4_list_def)

text \<open>Four registers as the rows of a 4 by 4 matrix of words, in the order of an array.\<close>

type_synonym rows = "uint32x4 \<times> uint32x4 \<times> uint32x4 \<times> uint32x4"

definition rows_list :: "rows \<Rightarrow> u32 list" where
  "rows_list = (\<lambda>(r0, r1, r2, r3). v4_list r0 @ v4_list r1 @ v4_list r2 @ v4_list r3)"

lemma vld1q_split: "length h = 8 \<Longrightarrow> v4_list (vld1q_u32 h) @ v4_list (vld1q_u32 (drop 4 h)) = h"
  by (rule nth_equalityI) (auto simp: v4_list_def vld1q_u32_def nth_append nth_Cons' less_Suc_eq numeral_eq_Suc)

lemma upt_8: "[0..<8] = [0, 1, 2, 3, 4, 5, 6, 7 :: nat]"
  by (simp add: upt_rec)

lemma upt_10: "[0..<10] = [0, 1, 2, 3, 4, 5, 6, 7, 8, 9 :: nat]"
  by (simp add: upt_rec)

lemma upt_16: "[0..<16] = [0, 1, 2, 3, 4, 5, 6, 7, 8, 9, 10, 11, 12, 13, 14, 15 :: nat]"
  by (simp add: upt_rec)

section \<open>Word arrays in memory\<close>

lemma concat_store32_nth:
  "i < 4 * length hs \<Longrightarrow> concat (map store32_le hs) ! i = ucast (drop_bit (8 * (i mod 4)) (hs ! (i div 4)))"
proof (induction hs arbitrary: i)
  case (Cons w hs)
  show ?case
  proof (cases "i < 4")
    case True
    then have "i = 0 \<or> i = 1 \<or> i = 2 \<or> i = 3" by linarith
    then show ?thesis by (auto simp: store32_le_def)
  next
    case False
    then obtain j where "i = j + 4" by (metis add.commute le_Suc_ex not_less)
    moreover have "(j + 4) div 4 = Suc (j div 4)" by simp
    ultimately show ?thesis using Cons by (simp add: nth_append)
  qed
qed simp

lemma concat_store32_length [simp]: "length (concat (map store32_le hs)) = 4 * length hs"
  by (induction hs) simp_all

end
