(* ===== verification/Messages.thy ===== *)
theory Messages
  imports Bytes
begin

text \<open>
  The four message types of \<open>src/wg_internal.h\<close> and their packed layouts. A C struct overlaid on a
  buffer is a record read from the bytes and written back to them; indices and counters are stored
  little-endian, as on the console.
\<close>

section \<open>Model\<close>

definition WG_MSG_HANDSHAKE_INIT :: u8 where [wg_consts]: "WG_MSG_HANDSHAKE_INIT = 1"
definition WG_MSG_HANDSHAKE_RESPONSE :: u8 where [wg_consts]: "WG_MSG_HANDSHAKE_RESPONSE = 2"
definition WG_MSG_COOKIE_REPLY :: u8 where [wg_consts]: "WG_MSG_COOKIE_REPLY = 3"
definition WG_MSG_TRANSPORT :: u8 where [wg_consts]: "WG_MSG_TRANSPORT = 4"

record WgHandshakeInit =
  hi_type :: u8
  hi_reserved :: bytes
  hi_sender_index :: u32
  hi_ephemeral :: bytes
  hi_encrypted_static :: bytes
  hi_encrypted_timestamp :: bytes
  hi_mac1 :: bytes
  hi_mac2 :: bytes

record WgHandshakeResponse =
  hr_type :: u8
  hr_reserved :: bytes
  hr_sender_index :: u32
  hr_receiver_index :: u32
  hr_ephemeral :: bytes
  hr_encrypted_nothing :: bytes
  hr_mac1 :: bytes
  hr_mac2 :: bytes

record WgCookieReply =
  ck_type :: u8
  ck_reserved :: bytes
  ck_receiver_index :: u32
  ck_nonce :: bytes
  ck_encrypted_cookie :: bytes

text \<open>The flexible array at the end of a transport message is the rest of the packet.\<close>

record WgTransport =
  tr_type :: u8
  tr_reserved :: bytes
  tr_receiver_index :: u32
  tr_counter :: u64
  tr_encrypted_data :: bytes

definition sizeof_init :: nat where [wg_consts]: "sizeof_init = 148"
definition sizeof_response :: nat where [wg_consts]: "sizeof_response = 92"
definition sizeof_cookie :: nat where [wg_consts]: "sizeof_cookie = 64"
definition sizeof_transport :: nat where [wg_consts]: "sizeof_transport = 16"

definition init_bytes :: "WgHandshakeInit \<Rightarrow> bytes" where
  "init_bytes m = [hi_type m] @ hi_reserved m @ store32_le (hi_sender_index m) @ hi_ephemeral m @
     hi_encrypted_static m @ hi_encrypted_timestamp m @ hi_mac1 m @ hi_mac2 m"

definition init_of_bytes :: "bytes \<Rightarrow> WgHandshakeInit" where
  "init_of_bytes p =
     \<lparr>hi_type = p ! 0, hi_reserved = take 3 (drop 1 p), hi_sender_index = load32_le (drop 4 p),
      hi_ephemeral = take 32 (drop 8 p), hi_encrypted_static = take 48 (drop 40 p),
      hi_encrypted_timestamp = take 28 (drop 88 p), hi_mac1 = take 16 (drop 116 p),
      hi_mac2 = take 16 (drop 132 p)\<rparr>"

definition response_bytes :: "WgHandshakeResponse \<Rightarrow> bytes" where
  "response_bytes m = [hr_type m] @ hr_reserved m @ store32_le (hr_sender_index m) @
     store32_le (hr_receiver_index m) @ hr_ephemeral m @ hr_encrypted_nothing m @ hr_mac1 m @ hr_mac2 m"

definition response_of_bytes :: "bytes \<Rightarrow> WgHandshakeResponse" where
  "response_of_bytes p =
     \<lparr>hr_type = p ! 0, hr_reserved = take 3 (drop 1 p), hr_sender_index = load32_le (drop 4 p),
      hr_receiver_index = load32_le (drop 8 p), hr_ephemeral = take 32 (drop 12 p),
      hr_encrypted_nothing = take 16 (drop 44 p), hr_mac1 = take 16 (drop 60 p),
      hr_mac2 = take 16 (drop 76 p)\<rparr>"

definition cookie_bytes :: "WgCookieReply \<Rightarrow> bytes" where
  "cookie_bytes m = [ck_type m] @ ck_reserved m @ store32_le (ck_receiver_index m) @ ck_nonce m @
     ck_encrypted_cookie m"

definition cookie_of_bytes :: "bytes \<Rightarrow> WgCookieReply" where
  "cookie_of_bytes p =
     \<lparr>ck_type = p ! 0, ck_reserved = take 3 (drop 1 p), ck_receiver_index = load32_le (drop 4 p),
      ck_nonce = take 24 (drop 8 p), ck_encrypted_cookie = take 32 (drop 32 p)\<rparr>"

definition transport_bytes :: "WgTransport \<Rightarrow> bytes" where
  "transport_bytes m = [tr_type m] @ tr_reserved m @ store32_le (tr_receiver_index m) @
     store64_le (tr_counter m) @ tr_encrypted_data m"

definition transport_of_bytes :: "bytes \<Rightarrow> WgTransport" where
  "transport_of_bytes p =
     \<lparr>tr_type = p ! 0, tr_reserved = take 3 (drop 1 p), tr_receiver_index = load32_le (drop 4 p),
      tr_counter = load64_le (drop 8 p), tr_encrypted_data = drop 16 p\<rparr>"

section \<open>Well-formed messages\<close>

definition init_ok :: "WgHandshakeInit \<Rightarrow> bool" where
  "init_ok m \<longleftrightarrow> length (hi_reserved m) = 3 \<and> length (hi_ephemeral m) = 32 \<and>
     length (hi_encrypted_static m) = 48 \<and> length (hi_encrypted_timestamp m) = 28 \<and>
     length (hi_mac1 m) = 16 \<and> length (hi_mac2 m) = 16"

definition response_ok :: "WgHandshakeResponse \<Rightarrow> bool" where
  "response_ok m \<longleftrightarrow> length (hr_reserved m) = 3 \<and> length (hr_ephemeral m) = 32 \<and>
     length (hr_encrypted_nothing m) = 16 \<and> length (hr_mac1 m) = 16 \<and> length (hr_mac2 m) = 16"

definition cookie_ok :: "WgCookieReply \<Rightarrow> bool" where
  "cookie_ok m \<longleftrightarrow> length (ck_reserved m) = 3 \<and> length (ck_nonce m) = 24 \<and> length (ck_encrypted_cookie m) = 32"

definition transport_ok :: "WgTransport \<Rightarrow> bool" where
  "transport_ok m \<longleftrightarrow> length (tr_reserved m) = 3"

section \<open>Layouts\<close>

lemma init_bytes_length [simp, bytes_len]: "init_ok m \<Longrightarrow> length (init_bytes m) = 148"
  by (simp add: init_ok_def init_bytes_def)

lemma response_bytes_length [simp, bytes_len]: "response_ok m \<Longrightarrow> length (response_bytes m) = 92"
  by (simp add: response_ok_def response_bytes_def)

lemma init_read_back: "init_ok m \<Longrightarrow> init_of_bytes (init_bytes m @ r) = m"
  by (cases m) (simp add: init_ok_def init_bytes_def init_of_bytes_def load32_le_store)

lemma response_read_back: "response_ok m \<Longrightarrow> response_of_bytes (response_bytes m @ r) = m"
  by (cases m) (simp add: response_ok_def response_bytes_def response_of_bytes_def load32_le_store)

lemma cookie_read_back: "cookie_ok m \<Longrightarrow> cookie_of_bytes (cookie_bytes m @ r) = m"
  by (cases m) (simp add: cookie_ok_def cookie_bytes_def cookie_of_bytes_def load32_le_store)

lemma transport_read_back: "transport_ok m \<Longrightarrow> transport_of_bytes (transport_bytes m) = m"
  by (cases m) (simp add: transport_ok_def transport_bytes_def transport_of_bytes_def load32_le_store load64_le_store)

end
