(* ===== verification/Blake2s.thy ===== *)
theory Blake2s
  imports Bytes
begin

text \<open>
  BLAKE2s: \<open>library/crypto/blake2s.c\<close> (streaming interface and scalar compression) and
  \<open>src/blake2s_neon.c\<close> (compression on NEON registers). The array \<open>v\<close> and the message words
  are lists updated by index as in the code. The target is aarch64, so
  \<open>blake2s_neon_available\<close> is the branch of \<open>HAS_NEON\<close>; the two compressions are shown equal.
\<close>

unbundle bit_operations_syntax

section \<open>Model\<close>

definition BLAKE2S_BLOCK_SIZE :: nat where
  [wg_consts]: "BLAKE2S_BLOCK_SIZE = 64"

record blake2s_state =
  bs_h :: "u32 list"
  bs_t0 :: u32
  bs_t1 :: u32
  bs_f0 :: u32
  bs_f1 :: u32
  bs_buf :: bytes
  bs_buflen :: nat
  bs_outlen :: nat

definition blake2s_iv :: "u32 list" where
  "blake2s_iv =
    [0x6A09E667, 0xBB67AE85, 0x3C6EF372, 0xA54FF53A,
     0x510E527F, 0x9B05688C, 0x1F83D9AB, 0x5BE0CD19]"

definition blake2s_sigma :: "nat list list" where
  "blake2s_sigma =
    [[0, 1, 2, 3, 4, 5, 6, 7, 8, 9, 10, 11, 12, 13, 14, 15],
     [14, 10, 4, 8, 9, 15, 13, 6, 1, 12, 0, 2, 11, 7, 5, 3],
     [11, 8, 12, 0, 5, 2, 15, 13, 10, 14, 3, 6, 7, 1, 9, 4],
     [7, 9, 3, 1, 13, 12, 11, 14, 2, 6, 5, 10, 4, 0, 15, 8],
     [9, 0, 5, 7, 2, 4, 10, 15, 14, 1, 11, 12, 6, 8, 3, 13],
     [2, 12, 6, 10, 0, 11, 8, 3, 4, 13, 7, 5, 15, 14, 1, 9],
     [12, 5, 1, 15, 14, 13, 4, 10, 0, 7, 6, 3, 9, 2, 8, 11],
     [13, 11, 7, 14, 12, 1, 3, 9, 5, 0, 15, 4, 8, 6, 2, 10],
     [6, 15, 14, 9, 11, 3, 0, 8, 12, 2, 13, 7, 1, 4, 10, 5],
     [10, 2, 8, 4, 7, 6, 1, 5, 15, 11, 9, 14, 3, 12, 13, 0]]"

definition load32 :: "bytes \<Rightarrow> u32" where
  "load32 p = ucast (p ! 0) OR push_bit 8 (ucast (p ! 1)) OR
     push_bit 16 (ucast (p ! 2)) OR push_bit 24 (ucast (p ! 3))"

definition rotr32 :: "u32 \<Rightarrow> nat \<Rightarrow> u32" where
  "rotr32 x n = drop_bit n x OR push_bit (32 - n) x"

subsection \<open>Scalar compression\<close>

definition G :: "u32 list \<Rightarrow> nat \<Rightarrow> nat \<Rightarrow> nat \<Rightarrow> nat \<Rightarrow> nat \<Rightarrow> nat \<Rightarrow> u32 list \<Rightarrow> u32 list" where
  "G m r i a b c d v =
     (let v = v[a := v ! a + v ! b + m ! (blake2s_sigma ! r ! (2 * i + 0))];
          v = v[d := rotr32 (v ! d XOR v ! a) 16];
          v = v[c := v ! c + v ! d];
          v = v[b := rotr32 (v ! b XOR v ! c) 12];
          v = v[a := v ! a + v ! b + m ! (blake2s_sigma ! r ! (2 * i + 1))];
          v = v[d := rotr32 (v ! d XOR v ! a) 8];
          v = v[c := v ! c + v ! d];
          v = v[b := rotr32 (v ! b XOR v ! c) 7]
      in v)"

definition ROUND :: "u32 list \<Rightarrow> nat \<Rightarrow> u32 list \<Rightarrow> u32 list" where
  "ROUND m r v =
     (let v = G m r 0 0 4 8 12 v;
          v = G m r 1 1 5 9 13 v;
          v = G m r 2 2 6 10 14 v;
          v = G m r 3 3 7 11 15 v;
          v = G m r 4 0 5 10 15 v;
          v = G m r 5 1 6 11 12 v;
          v = G m r 6 2 7 8 13 v;
          v = G m r 7 3 4 9 14 v
      in v)"

definition blake2s_compress_scalar :: "blake2s_state \<Rightarrow> bytes \<Rightarrow> blake2s_state" where
  "blake2s_compress_scalar S block =
     (let m = map (\<lambda>i. load32 (drop (i * 4) block)) [0..<16];
          v = map (\<lambda>i. bs_h S ! i) [0..<8] @
              [blake2s_iv ! 0, blake2s_iv ! 1, blake2s_iv ! 2, blake2s_iv ! 3,
               bs_t0 S XOR blake2s_iv ! 4, bs_t1 S XOR blake2s_iv ! 5,
               bs_f0 S XOR blake2s_iv ! 6, bs_f1 S XOR blake2s_iv ! 7];
          v = fold (ROUND m) [0, 1, 2, 3, 4, 5, 6, 7, 8, 9] v
      in S\<lparr>bs_h := map (\<lambda>i. bs_h S ! i XOR v ! i XOR v ! (i + 8)) [0..<8]\<rparr>)"

subsection \<open>Compression on NEON registers\<close>

definition neon_iv :: "u32 list" where
  "neon_iv =
    [0x6A09E667, 0xBB67AE85, 0x3C6EF372, 0xA54FF53A,
     0x510E527F, 0x9B05688C, 0x1F83D9AB, 0x5BE0CD19]"

definition neon_sigma :: "nat list list" where
  "neon_sigma =
    [[0, 1, 2, 3, 4, 5, 6, 7, 8, 9, 10, 11, 12, 13, 14, 15],
     [14, 10, 4, 8, 9, 15, 13, 6, 1, 12, 0, 2, 11, 7, 5, 3],
     [11, 8, 12, 0, 5, 2, 15, 13, 10, 14, 3, 6, 7, 1, 9, 4],
     [7, 9, 3, 1, 13, 12, 11, 14, 2, 6, 5, 10, 4, 0, 15, 8],
     [9, 0, 5, 7, 2, 4, 10, 15, 14, 1, 11, 12, 6, 8, 3, 13],
     [2, 12, 6, 10, 0, 11, 8, 3, 4, 13, 7, 5, 15, 14, 1, 9],
     [12, 5, 1, 15, 14, 13, 4, 10, 0, 7, 6, 3, 9, 2, 8, 11],
     [13, 11, 7, 14, 12, 1, 3, 9, 5, 0, 15, 4, 8, 6, 2, 10],
     [6, 15, 14, 9, 11, 3, 0, 8, 12, 2, 13, 7, 1, 4, 10, 5],
     [10, 2, 8, 4, 7, 6, 1, 5, 15, 11, 9, 14, 3, 12, 13, 0]]"

definition rotr32_7 :: "uint32x4 \<Rightarrow> uint32x4" where
  "rotr32_7 x = vorrq_u32 (vshrq_n_u32 x 7) (vshlq_n_u32 x 25)"

definition rotr32_8 :: "uint32x4 \<Rightarrow> uint32x4" where
  "rotr32_8 x = vorrq_u32 (vshrq_n_u32 x 8) (vshlq_n_u32 x 24)"

definition rotr32_12 :: "uint32x4 \<Rightarrow> uint32x4" where
  "rotr32_12 x = vorrq_u32 (vshrq_n_u32 x 12) (vshlq_n_u32 x 20)"

definition ROTR16 :: "uint32x4 \<Rightarrow> uint32x4" where
  "ROTR16 x = vreinterpretq_u32_u16 (vrev32q_u16 (vreinterpretq_u16_u32 x))"

definition g_neon :: "uint32x4 \<Rightarrow> uint32x4 \<Rightarrow> rows \<Rightarrow> rows" where
  "g_neon mx my = (\<lambda>(a, b, c, d).
     let a = vaddq_u32 (vaddq_u32 a b) mx;
         d = ROTR16 (veorq_u32 d a);
         c = vaddq_u32 c d;
         b = rotr32_12 (veorq_u32 b c);
         a = vaddq_u32 (vaddq_u32 a b) my;
         d = rotr32_8 (veorq_u32 d a);
         c = vaddq_u32 c d;
         b = rotr32_7 (veorq_u32 b c)
     in (a, b, c, d))"

definition gather4 :: "u32 list \<Rightarrow> nat \<Rightarrow> nat \<Rightarrow> nat \<Rightarrow> nat \<Rightarrow> uint32x4" where
  "gather4 m i0 i1 i2 i3 = vld1q_u32 [m ! i0, m ! i1, m ! i2, m ! i3]"

definition neon_round :: "u32 list \<Rightarrow> nat \<Rightarrow> rows \<Rightarrow> rows" where
  "neon_round m r rows =
     (let s = neon_sigma ! r;
          mx = gather4 m (s ! 0) (s ! 2) (s ! 4) (s ! 6);
          my = gather4 m (s ! 1) (s ! 3) (s ! 5) (s ! 7);
          (row0, row1, row2, row3) = g_neon mx my rows;
          row1 = vextq_u32 row1 row1 1;
          row2 = vextq_u32 row2 row2 2;
          row3 = vextq_u32 row3 row3 3;
          mx = gather4 m (s ! 8) (s ! 10) (s ! 12) (s ! 14);
          my = gather4 m (s ! 9) (s ! 11) (s ! 13) (s ! 15);
          (row0, row1, row2, row3) = g_neon mx my (row0, row1, row2, row3);
          row1 = vextq_u32 row1 row1 3;
          row2 = vextq_u32 row2 row2 2;
          row3 = vextq_u32 row3 row3 1
      in (row0, row1, row2, row3))"

definition blake2s_compress_neon ::
  "u32 list \<Rightarrow> bytes \<Rightarrow> u32 \<Rightarrow> u32 \<Rightarrow> u32 \<Rightarrow> u32 \<Rightarrow> u32 list" where
  "blake2s_compress_neon h block t0 t1 f0 f1 =
     (let m = map (\<lambda>i. load32_le (drop (i * 4) block)) [0..<16];
          row0 = vld1q_u32 h;
          row1 = vld1q_u32 (drop 4 h);
          row2 = vld1q_u32 neon_iv;
          row3 = vsetq_lane_u32 (t0 XOR neon_iv ! 4) (vld1q_u32 (drop 4 neon_iv)) 0;
          row3 = vsetq_lane_u32 (t1 XOR neon_iv ! 5) row3 1;
          row3 = vsetq_lane_u32 (f0 XOR neon_iv ! 6) row3 2;
          row3 = vsetq_lane_u32 (f1 XOR neon_iv ! 7) row3 3;
          orig0 = row0;
          orig1 = row1;
          (row0, row1, row2, row3) = fold (neon_round m) [0..<10] (row0, row1, row2, row3);
          row0 = veorq_u32 row0 row2;
          row1 = veorq_u32 row1 row3;
          row0 = veorq_u32 row0 orig0;
          row1 = veorq_u32 row1 orig1
      in v4_list row0 @ v4_list row1)"

definition blake2s_neon_available :: bool where
  "blake2s_neon_available = True"

subsection \<open>Streaming interface\<close>

definition blake2s_compress :: "blake2s_state \<Rightarrow> bytes \<Rightarrow> blake2s_state" where
  "blake2s_compress S block =
     (if blake2s_neon_available
      then S\<lparr>bs_h := blake2s_compress_neon (bs_h S) block (bs_t0 S) (bs_t1 S) (bs_f0 S) (bs_f1 S)\<rparr>
      else blake2s_compress_scalar S block)"

definition blake2s_init :: "nat \<Rightarrow> blake2s_state" where
  "blake2s_init outlen =
     \<lparr>bs_h = blake2s_iv[0 := blake2s_iv ! 0 XOR (0x01010000 XOR of_nat outlen)],
      bs_t0 = 0, bs_t1 = 0, bs_f0 = 0, bs_f1 = 0,
      bs_buf = replicate BLAKE2S_BLOCK_SIZE 0, bs_buflen = 0, bs_outlen = outlen\<rparr>"

text \<open>The 64-bit byte counter, kept in two words.\<close>

definition count_block :: "blake2s_state \<Rightarrow> blake2s_state" where
  "count_block S =
     (let S = S\<lparr>bs_t0 := bs_t0 S + of_nat BLAKE2S_BLOCK_SIZE\<rparr>
      in if unat (bs_t0 S) < BLAKE2S_BLOCK_SIZE then S\<lparr>bs_t1 := bs_t1 S + 1\<rparr> else S)"

function update_blocks :: "blake2s_state \<Rightarrow> bytes \<Rightarrow> blake2s_state \<times> bytes" where
  "update_blocks S pin =
     (if BLAKE2S_BLOCK_SIZE < length pin
      then update_blocks (blake2s_compress (count_block S) (take BLAKE2S_BLOCK_SIZE pin))
             (drop BLAKE2S_BLOCK_SIZE pin)
      else (S, pin))"
  by pat_completeness auto
termination
  by (relation "measure (\<lambda>(S, pin). length pin)") (auto simp: BLAKE2S_BLOCK_SIZE_def)

declare update_blocks.simps [simp del]

definition blake2s_update :: "blake2s_state \<Rightarrow> bytes \<Rightarrow> blake2s_state" where
  "blake2s_update S pin =
     (if length pin = 0 then S
      else
        (let left = bs_buflen S;
             fill = BLAKE2S_BLOCK_SIZE - left;
             (S, pin, left) =
               (if fill < length pin
                then
                  (let (S, pin, left) =
                     (if 0 < left
                      then
                        (let S = S\<lparr>bs_buf := memcpy_at (bs_buf S) left (take fill pin)\<rparr>;
                             S = count_block S
                         in (blake2s_compress S (bs_buf S), drop fill pin, 0))
                      else (S, pin, left));
                     (S, pin) = update_blocks S pin
                   in (S, pin, left))
                else (S, pin, left))
         in S\<lparr>bs_buf := memcpy_at (bs_buf S) left pin, bs_buflen := left + length pin\<rparr>))"

definition blake2s_init_key :: "nat \<Rightarrow> bytes \<Rightarrow> blake2s_state" where
  "blake2s_init_key outlen key =
     (let S = blake2s_init outlen;
          S = S\<lparr>bs_h := (bs_h S)[0 := bs_h S ! 0 XOR push_bit 8 (of_nat (length key))]\<rparr>
      in if 0 < length key
         then blake2s_update S (memcpy_at (replicate BLAKE2S_BLOCK_SIZE 0) 0 key)
         else S)"

definition blake2s_final :: "blake2s_state \<Rightarrow> bytes" where
  "blake2s_final S =
     (let S = S\<lparr>bs_t0 := bs_t0 S + of_nat (bs_buflen S)\<rparr>;
          S = (if unat (bs_t0 S) < bs_buflen S then S\<lparr>bs_t1 := bs_t1 S + 1\<rparr> else S);
          S = S\<lparr>bs_f0 := -1\<rparr>;
          S = S\<lparr>bs_buf := memcpy_at (bs_buf S) (bs_buflen S)
                             (replicate (BLAKE2S_BLOCK_SIZE - bs_buflen S) 0)\<rparr>;
          S = blake2s_compress S (bs_buf S)
      in map (\<lambda>i. ucast (drop_bit (8 * (i mod 4)) (bs_h S ! (i div 4)) AND 0xFF)) [0..<bs_outlen S])"

definition blake2s :: "nat \<Rightarrow> bytes \<Rightarrow> bytes \<Rightarrow> bytes" where
  "blake2s outlen input key =
     (let S = (if 0 < length key then blake2s_init_key outlen key else blake2s_init outlen);
          S = blake2s_update S input
      in blake2s_final S)"

section \<open>The two compressions agree\<close>

text \<open>One mixing of a column, as four functions of its words.\<close>

definition mix1 :: "u32 \<Rightarrow> u32 \<Rightarrow> u32 \<Rightarrow> u32 \<Rightarrow> u32 \<Rightarrow> u32 \<times> u32 \<times> u32 \<times> u32" where
  "mix1 a b c d x =
     (let a = a + b + x; d = rotr32 (d XOR a) 16; c = c + d; b = rotr32 (b XOR c) 12 in (a, b, c, d))"

definition mix2 :: "u32 \<Rightarrow> u32 \<Rightarrow> u32 \<Rightarrow> u32 \<Rightarrow> u32 \<Rightarrow> u32 \<times> u32 \<times> u32 \<times> u32" where
  "mix2 a b c d y =
     (let a = a + b + y; d = rotr32 (d XOR a) 8; c = c + d; b = rotr32 (b XOR c) 7 in (a, b, c, d))"

definition mix :: "u32 \<Rightarrow> u32 \<Rightarrow> u32 \<Rightarrow> u32 \<Rightarrow> u32 \<Rightarrow> u32 \<Rightarrow> u32 \<times> u32 \<times> u32 \<times> u32" where
  "mix a b c d x y = (let (a, b, c, d) = mix1 a b c d x in mix2 a b c d y)"

definition mixa where "mixa a b c d x y = fst (mix a b c d x y)"
definition mixb where "mixb a b c d x y = fst (snd (mix a b c d x y))"
definition mixc where "mixc a b c d x y = fst (snd (snd (mix a b c d x y)))"
definition mixd where "mixd a b c d x y = snd (snd (snd (mix a b c d x y)))"

lemmas mix_defs = mixa_def mixb_def mixc_def mixd_def mix_def mix1_def mix2_def Let_def

lemma G_mix:
  assumes "a < length v" "b < length v" "c < length v" "d < length v" "distinct [a, b, c, d]"
  shows "G m r i a b c d v =
    (let x = m ! (blake2s_sigma ! r ! (2 * i)); y = m ! (blake2s_sigma ! r ! (2 * i + 1))
     in v[a := mixa (v ! a) (v ! b) (v ! c) (v ! d) x y, b := mixb (v ! a) (v ! b) (v ! c) (v ! d) x y,
          c := mixc (v ! a) (v ! b) (v ! c) (v ! d) x y, d := mixd (v ! a) (v ! b) (v ! c) (v ! d) x y])"
  by (rule nth_equalityI) (use assms in \<open>auto simp: G_def mix_defs nth_list_update\<close>)

lemma g_neon_mix:
  "g_neon (V4 x0 x1 x2 x3) (V4 y0 y1 y2 y3)
     (V4 a0 a1 a2 a3, V4 b0 b1 b2 b3, V4 c0 c1 c2 c3, V4 d0 d1 d2 d3) =
   (V4 (mixa a0 b0 c0 d0 x0 y0) (mixa a1 b1 c1 d1 x1 y1) (mixa a2 b2 c2 d2 x2 y2) (mixa a3 b3 c3 d3 x3 y3),
    V4 (mixb a0 b0 c0 d0 x0 y0) (mixb a1 b1 c1 d1 x1 y1) (mixb a2 b2 c2 d2 x2 y2) (mixb a3 b3 c3 d3 x3 y3),
    V4 (mixc a0 b0 c0 d0 x0 y0) (mixc a1 b1 c1 d1 x1 y1) (mixc a2 b2 c2 d2 x2 y2) (mixc a3 b3 c3 d3 x3 y3),
    V4 (mixd a0 b0 c0 d0 x0 y0) (mixd a1 b1 c1 d1 x1 y1) (mixd a2 b2 c2 d2 x2 y2) (mixd a3 b3 c3 d3 x3 y3))"
  by (simp add: g_neon_def mix_defs ROTR16_def vrev32_rot16 rotr32_7_def rotr32_8_def rotr32_12_def
      rotr32_def)

lemma neon_tables: "neon_iv = blake2s_iv" "neon_sigma = blake2s_sigma"
  by (simp_all only: neon_iv_def blake2s_iv_def neon_sigma_def blake2s_sigma_def)

lemma neon_round_scalar: "ROUND m r (rows_list rows) = rows_list (neon_round m r rows)"
proof -
  obtain a0 a1 a2 a3 b0 b1 b2 b3 c0 c1 c2 c3 d0 d1 d2 d3
    where rows: "rows = (V4 a0 a1 a2 a3, V4 b0 b1 b2 b3, V4 c0 c1 c2 c3, V4 d0 d1 d2 d3)"
    by (metis prod_cases4 uint32x4.exhaust)
  show ?thesis
    by (simp add: rows ROUND_def G_mix neon_round_def neon_tables g_neon_mix gather4_def
        vld1q_u32_def rows_list_def v4_list_def Let_def)
qed

lemma neon_rounds_scalar:
  "fold (ROUND m) rs (rows_list rows) = rows_list (fold (neon_round m) rs rows)"
  by (induction rs arbitrary: rows) (simp_all add: neon_round_scalar)

lemma load32_eq: "load32 = load32_le"
  by (simp add: fun_eq_iff load32_def load32_le_def)

lemma feed_forward:
  "v4_list (veorq_u32 (veorq_u32 r0 r2) h0) @ v4_list (veorq_u32 (veorq_u32 r1 r3) h1) =
   map (\<lambda>i. (v4_list h0 @ v4_list h1) ! i XOR rows_list (r0, r1, r2, r3) ! i XOR
            rows_list (r0, r1, r2, r3) ! (i + 8)) [0..<8]"
  by (cases r0; cases r1; cases r2; cases r3; cases h0; cases h1)
    (simp add: upt_8 v4_list_def rows_list_def xor.assoc xor.commute xor.left_commute)

lemma compress_neon_scalar:
  assumes "length (bs_h S) = 8"
  shows "blake2s_compress_scalar S block =
    S\<lparr>bs_h := blake2s_compress_neon (bs_h S) block (bs_t0 S) (bs_t1 S) (bs_f0 S) (bs_f1 S)\<rparr>"
proof -
  let ?m = "map (\<lambda>i. load32_le (drop (i * 4) block)) [0..<16]"
  let ?r0 = "vld1q_u32 (bs_h S)" and ?r1 = "vld1q_u32 (drop 4 (bs_h S))"
    and ?r2 = "vld1q_u32 blake2s_iv"
    and ?r3 = "V4 (bs_t0 S XOR blake2s_iv ! 4) (bs_t1 S XOR blake2s_iv ! 5)
      (bs_f0 S XOR blake2s_iv ! 6) (bs_f1 S XOR blake2s_iv ! 7)"
  let ?v = "map ((!) (bs_h S)) [0..<8] @
      [blake2s_iv ! 0, blake2s_iv ! 1, blake2s_iv ! 2, blake2s_iv ! 3,
       bs_t0 S XOR blake2s_iv ! 4, bs_t1 S XOR blake2s_iv ! 5,
       bs_f0 S XOR blake2s_iv ! 6, bs_f1 S XOR blake2s_iv ! 7]"
  have h: "v4_list ?r0 @ v4_list ?r1 = bs_h S" using assms by (rule vld1q_split)
  have "map ((!) (bs_h S)) [0..<8] = bs_h S" using assms map_nth [of "bs_h S"] by simp
  with h have v: "?v = rows_list (?r0, ?r1, ?r2, ?r3)"
    by (simp add: rows_list_def v4_list_def [of ?r2] v4_list_def [of ?r3]) (simp add: vld1q_u32_def)
  obtain q0 q1 q2 q3 where q: "fold (neon_round ?m) [0..<10] (?r0, ?r1, ?r2, ?r3) = (q0, q1, q2, q3)"
    by (metis prod_cases4)
  have "fold (ROUND ?m) [0..<10] ?v = rows_list (q0, q1, q2, q3)"
    by (simp only: v neon_rounds_scalar q)
  then have "blake2s_compress_scalar S block =
      S\<lparr>bs_h := map (\<lambda>i. bs_h S ! i XOR rows_list (q0, q1, q2, q3) ! i XOR
        rows_list (q0, q1, q2, q3) ! (i + 8)) [0..<8]\<rparr>"
    by (simp only: blake2s_compress_scalar_def load32_eq upt_10 Let_def)
  moreover have "blake2s_compress_neon (bs_h S) block (bs_t0 S) (bs_t1 S) (bs_f0 S) (bs_f1 S) =
      v4_list (veorq_u32 (veorq_u32 q0 q2) ?r0) @ v4_list (veorq_u32 (veorq_u32 q1 q3) ?r1)"
  proof -
    have "vsetq_lane_u32 (bs_f1 S XOR blake2s_iv ! 7) (vsetq_lane_u32 (bs_f0 S XOR blake2s_iv ! 6)
        (vsetq_lane_u32 (bs_t1 S XOR blake2s_iv ! 5) (vsetq_lane_u32 (bs_t0 S XOR blake2s_iv ! 4)
        (vld1q_u32 (drop 4 blake2s_iv)) 0) 1) 2) 3 = ?r3"
      by (simp add: vld1q_u32_def)
    then show ?thesis
      by (simp only: blake2s_compress_neon_def neon_tables Let_def q split)
  qed
  ultimately show ?thesis by (simp only: feed_forward h)
qed

section \<open>Streaming and the one-shot specification\<close>

subsection \<open>RFC 7693\<close>

text \<open>
  BLAKE2s as RFC 7693 defines it, without the definitions above. The initialization vector is the first 32
  bits of the fractional parts of the square roots of the first eight primes, so \<open>root_bits\<close> computes
  integer square roots bit by bit. The message schedule is the table of section 2.7.
\<close>

primrec root_bits :: "nat \<Rightarrow> nat \<Rightarrow> nat \<Rightarrow> nat" where
  "root_bits 0 n r = r"
| "root_bits (Suc k) n r = root_bits k n (if (r + 2 ^ k) * (r + 2 ^ k) \<le> n then r + 2 ^ k else r)"

definition b2_iv :: "u32 list" where
  "b2_iv = map (\<lambda>p. of_nat (root_bits 35 (p * 2 ^ 64) 0)) [2, 3, 5, 7, 11, 13, 17, 19]"

definition b2_sigma :: "nat list list" where
  "b2_sigma =
    [[ 0,  1,  2,  3,  4,  5,  6,  7,  8,  9, 10, 11, 12, 13, 14, 15],
     [14, 10,  4,  8,  9, 15, 13,  6,  1, 12,  0,  2, 11,  7,  5,  3],
     [11,  8, 12,  0,  5,  2, 15, 13, 10, 14,  3,  6,  7,  1,  9,  4],
     [ 7,  9,  3,  1, 13, 12, 11, 14,  2,  6,  5, 10,  4,  0, 15,  8],
     [ 9,  0,  5,  7,  2,  4, 10, 15, 14,  1, 11, 12,  6,  8,  3, 13],
     [ 2, 12,  6, 10,  0, 11,  8,  3,  4, 13,  7,  5, 15, 14,  1,  9],
     [12,  5,  1, 15, 14, 13,  4, 10,  0,  7,  6,  3,  9,  2,  8, 11],
     [13, 11,  7, 14, 12,  1,  3,  9,  5,  0, 15,  4,  8,  6,  2, 10],
     [ 6, 15, 14,  9, 11,  3,  0,  8, 12,  2, 13,  7,  1,  4, 10,  5],
     [10,  2,  8,  4,  7,  6,  1,  5, 15, 11,  9, 14,  3, 12, 13,  0]]"

text \<open>The mixing function \<open>G\<close> on the lanes \<open>(a, b, c, d)\<close> of the working vector, a function of the index.\<close>

definition b2_G :: "u32 \<Rightarrow> u32 \<Rightarrow> nat \<times> nat \<times> nat \<times> nat \<Rightarrow> (nat \<Rightarrow> u32) \<Rightarrow> nat \<Rightarrow> u32" where
  "b2_G x y = (\<lambda>(a, b, c, d) v.
     let v = v(a := v a + v b + x);
         v = v(d := word_rotr 16 (v d XOR v a));
         v = v(c := v c + v d);
         v = v(b := word_rotr 12 (v b XOR v c));
         v = v(a := v a + v b + y);
         v = v(d := word_rotr 8 (v d XOR v a));
         v = v(c := v c + v d)
     in v(b := word_rotr 7 (v b XOR v c)))"

text \<open>The columns and then the diagonals of the four by four matrix.\<close>

definition b2_lanes :: "nat \<Rightarrow> nat \<times> nat \<times> nat \<times> nat" where
  "b2_lanes i =
     (if i < 4 then (i, 4 + i, 8 + i, 12 + i)
      else (i - 4, 4 + (i + 1) mod 4, 8 + (i + 2) mod 4, 12 + (i + 3) mod 4))"

definition b2_round :: "(nat \<Rightarrow> u32) \<Rightarrow> nat list \<Rightarrow> (nat \<Rightarrow> u32) \<Rightarrow> nat \<Rightarrow> u32" where
  "b2_round m s = fold (\<lambda>i. b2_G (m (s ! (2 * i))) (m (s ! (2 * i + 1))) (b2_lanes i)) [0..<8]"

definition b2_F :: "u32 list \<Rightarrow> bytes \<Rightarrow> nat \<Rightarrow> bool \<Rightarrow> u32 list" where
  "b2_F h block n final =
     (let m = (\<lambda>i. load32_le (drop (4 * i) block));
          v = (\<lambda>i. if i < 8 then h ! i else b2_iv ! (i - 8));
          v = v(12 := v 12 XOR of_nat n, 13 := v 13 XOR of_nat (n div 2 ^ 32));
          v = (if final then v(14 := v 14 XOR 0xFFFFFFFF) else v);
          v = fold (b2_round m) b2_sigma v
      in map (\<lambda>i. h ! i XOR v i XOR v (i + 8)) [0..<8])"

text \<open>
  The key, padded to a block, and the message are cut into blocks of 64 bytes, the last
  one padded with zeros; each block is compressed with the number of bytes up to its end, the
  last one with the finalization flag.
\<close>

function absorb :: "nat \<Rightarrow> u32 list \<Rightarrow> bytes \<Rightarrow> nat \<times> u32 list \<times> bytes" where
  "absorb n h m =
     (if 64 < length m then absorb (n + 64) (b2_F h (take 64 m) (n + 64) False) (drop 64 m)
      else (n, h, m))"
  by pat_completeness auto
termination
  by (relation "measure (\<lambda>(n, h, m). length m)") auto

declare absorb.simps [simp del]

definition b2_h0 :: "nat \<Rightarrow> nat \<Rightarrow> u32 list" where
  "b2_h0 outlen keylen =
     b2_iv[0 := b2_iv ! 0 XOR 0x01010000 XOR push_bit 8 (of_nat keylen) XOR of_nat outlen]"

definition b2_digest :: "nat \<Rightarrow> u32 list \<Rightarrow> bytes \<Rightarrow> bytes" where
  "b2_digest outlen h m =
     (let (n, h, r) = absorb 0 h m
      in take outlen (concat (map store32_le
           (b2_F h (r @ replicate (64 - length r) 0) (n + length r) True))))"

definition blake2s_spec :: "nat \<Rightarrow> bytes \<Rightarrow> bytes \<Rightarrow> bytes" where
  "blake2s_spec outlen msg key =
     b2_digest outlen (b2_h0 outlen (length key))
       ((if key = [] then [] else key @ replicate (64 - length key) 0) @ msg)"

subsection \<open>The scalar compression is the one of the RFC\<close>

lemma root_bits_bounds:
  "r * r \<le> n \<Longrightarrow> n < (r + 2 ^ k) * (r + 2 ^ k) \<Longrightarrow>
   root_bits k n r * root_bits k n r \<le> n \<and> n < (root_bits k n r + 1) * (root_bits k n r + 1)"
proof (induction k arbitrary: r)
  case (Suc k)
  show ?case
  proof (cases "(r + 2 ^ k) * (r + 2 ^ k) \<le> n")
    case True
    have "r + 2 ^ Suc k = r + 2 ^ k + 2 ^ k" by simp
    note Suc.prems(2) [unfolded this]
    from Suc.IH [OF True this] True show ?thesis by simp
  next
    case False
    then show ?thesis using Suc.IH [OF Suc.prems(1)] by simp
  qed
qed simp

lemma square_root_unique:
  fixes q r :: nat
  assumes "q * q \<le> n" "n < (q + 1) * (q + 1)" "r * r \<le> n" "n < (r + 1) * (r + 1)"
  shows "q = r"
proof (rule ccontr)
  assume "q \<noteq> r"
  then consider "q + 1 \<le> r" | "r + 1 \<le> q" by linarith
  then show False using assms by cases (meson mult_le_mono not_le order_trans)+
qed

lemma root_bits_eq:
  assumes "r * r \<le> n" "n < (r + 1) * (r + 1)" "n < 2 ^ k * 2 ^ k"
  shows "root_bits k n 0 = r"
  using root_bits_bounds [of 0 n k] assms by (intro square_root_unique [of _ n]) auto

lemma b2_iv_code: "b2_iv = blake2s_iv"
proof -
  have "root_bits 35 (2 * 2 ^ 64) 0 = 0x16A09E667" "root_bits 35 (3 * 2 ^ 64) 0 = 0x1BB67AE85"
    "root_bits 35 (5 * 2 ^ 64) 0 = 0x23C6EF372" "root_bits 35 (7 * 2 ^ 64) 0 = 0x2A54FF53A"
    "root_bits 35 (11 * 2 ^ 64) 0 = 0x3510E527F" "root_bits 35 (13 * 2 ^ 64) 0 = 0x39B05688C"
    "root_bits 35 (17 * 2 ^ 64) 0 = 0x41F83D9AB" "root_bits 35 (19 * 2 ^ 64) 0 = 0x45BE0CD19"
    by (rule root_bits_eq; simp)+
  then show ?thesis unfolding b2_iv_def blake2s_iv_def list.map by simp
qed

lemma rotr32_word_rotr: "0 < n \<Longrightarrow> n < 32 \<Longrightarrow> word_rotr n x = rotr32 x n"
proof (rule bit_word_eqI)
  fix i
  assume n: "0 < n" "n < 32" and "i < LENGTH(32)"
  then have i: "i < 32" by simp
  have "(i + n) mod 32 = (if i + n < 32 then i + n else i + n - 32)" using i n by (simp add: mod_if)
  then show "bit (word_rotr n x) i = bit (rotr32 x n) i"
    using i n by (auto simp: rotr32_def bit_simps bit_word_rotr_iff add.commute dest: bit_imp_le_length)
qed

lemma b2_G_mix:
  assumes "distinct [a, b, c, d]"
  shows "b2_G x y (a, b, c, d) v =
    v(a := mixa (v a) (v b) (v c) (v d) x y, b := mixb (v a) (v b) (v c) (v d) x y,
      c := mixc (v a) (v b) (v c) (v d) x y, d := mixd (v a) (v b) (v c) (v d) x y)"
  using assms by (auto simp: fun_eq_iff b2_G_def mix_defs rotr32_word_rotr)

text \<open>A round on the function agrees with a round on the list of its values.\<close>

lemma b2_round_ROUND: "map (b2_round ((!) m) (blake2s_sigma ! r) v) [0..<16] = ROUND m r (map v [0..<16])"
  unfolding b2_round_def ROUND_def
  by (simp add: upt_8 upt_16 b2_lanes_def b2_G_mix G_mix Let_def)

lemma b2_rounds_ROUND:
  "map (fold (b2_round ((!) m)) (map ((!) blake2s_sigma) rs) v) [0..<16] = fold (ROUND m) rs (map v [0..<16])"
  by (induction rs arbitrary: v) (simp_all add: b2_round_ROUND)

lemma b2_sigma_code: "b2_sigma = map ((!) blake2s_sigma) [0..<10]"
  by (simp add: b2_sigma_def blake2s_sigma_def upt_10)

lemma b2_sigma_range: "s \<in> set b2_sigma \<Longrightarrow> j < 16 \<Longrightarrow> s ! j < 16"
proof -
  assume "s \<in> set b2_sigma" "j < 16"
  moreover have "\<forall>s \<in> set b2_sigma. length s = 16 \<and> (\<forall>x \<in> set s. x < 16)" by (simp add: b2_sigma_def)
  ultimately show ?thesis by simp
qed

lemma b2_round_words:
  assumes "s \<in> set b2_sigma" and "\<And>j. j < 16 \<Longrightarrow> m j = m' j"
  shows "b2_round m s = b2_round m' s"
  unfolding b2_round_def by (rule ext, rule fold_cong) (simp_all add: assms(2) b2_sigma_range [OF assms(1)])

lemma b2_F_scalar:
  "b2_F h block n final =
     bs_h (blake2s_compress_scalar
       \<lparr>bs_h = h, bs_t0 = of_nat n, bs_t1 = of_nat (n div 2 ^ 32),
        bs_f0 = (if final then -1 else 0), bs_f1 = 0, bs_buf = [], bs_buflen = 0, bs_outlen = 0\<rparr> block)"
proof -
  let ?m = "\<lambda>i. load32_le (drop (4 * i) block)" and ?v = "\<lambda>i. if i < 8 then h ! i else b2_iv ! (i - 8)"
  let ?ms = "map (\<lambda>i. load32 (drop (i * 4) block)) [0..<16]"
  let ?w = "?v(12 := ?v 12 XOR of_nat n, 13 := ?v 13 XOR of_nat (n div 2 ^ 32))"
  let ?u = "if final then ?w(14 := ?w 14 XOR 0xFFFFFFFF) else ?w"
  let ?l = "map ((!) h) [0..<8] @ [blake2s_iv ! 0, blake2s_iv ! 1, blake2s_iv ! 2, blake2s_iv ! 3,
    of_nat n XOR blake2s_iv ! 4, of_nat (n div 2 ^ 32) XOR blake2s_iv ! 5,
    (if final then -1 else 0) XOR blake2s_iv ! 6, 0 XOR blake2s_iv ! 7]"
  have f: "(0xFFFFFFFF :: u32) = - 1" by simp
  have "fold (b2_round ?m) b2_sigma ?u = fold (b2_round ((!) ?ms)) (map ((!) blake2s_sigma) [0..<10]) ?u"
    unfolding b2_sigma_code [symmetric] by (intro fold_cong b2_round_words) (simp_all add: load32_eq mult.commute)
  moreover have "map ?u [0..<16] = ?l"
    by (simp add: upt_8 upt_16 b2_iv_code xor.commute f)
  ultimately have v: "map (fold (b2_round ?m) b2_sigma ?u) [0..<16] = fold (ROUND ?ms) [0..<10] ?l"
    by (simp only: b2_rounds_ROUND)
  have "fold (b2_round ?m) b2_sigma ?u i = fold (ROUND ?ms) [0..<10] ?l ! i" if "i < 16" for i
    unfolding v [symmetric] using that by simp
  then show ?thesis
    unfolding b2_F_def blake2s_compress_scalar_def Let_def upt_10 [symmetric] by simp
qed

subsection \<open>Blocks absorbed\<close>

lemma absorb_append: "absorb n h m = (n', h', r) \<Longrightarrow> absorb n h (m @ x) = absorb n' h' (r @ x)"
proof (induction n h m rule: absorb.induct)
  case (1 n h m)
  show ?case
  proof (cases "64 < length m")
    case True
    then show ?thesis
      using 1 by (subst absorb.simps) (simp add: absorb.simps [of n h m])
  next
    case False
    then show ?thesis using 1 by (simp add: absorb.simps [of n h m])
  qed
qed

lemma b2_F_length [simp]: "length (b2_F h block n l) = 8"
  by (simp add: b2_F_def Let_def)

lemma absorb_props: "absorb n h m = (n', h', r) \<Longrightarrow> length h = 8 \<Longrightarrow> length r \<le> 64 \<and> length h' = 8"
proof (induction n h m rule: absorb.induct)
  case (1 n h m)
  then show ?case by (cases "64 < length m") (auto simp: absorb.simps [of n h m])
qed

text \<open>
  \<open>hashing h0 m S\<close>: the state \<open>S\<close>, started from the chaining value \<open>h0\<close>, has absorbed \<open>m\<close>.
\<close>

definition counts :: "nat \<Rightarrow> blake2s_state \<Rightarrow> bool" where
  "counts n S \<longleftrightarrow> bs_t0 S = of_nat n \<and> bs_t1 S = of_nat (n div 2 ^ 32) \<and> bs_f0 S = 0 \<and> bs_f1 S = 0"

definition hashing :: "u32 list \<Rightarrow> bytes \<Rightarrow> blake2s_state \<Rightarrow> bool" where
  "hashing h0 m S \<longleftrightarrow> (\<exists>n. absorb 0 h0 m = (n, bs_h S, take (bs_buflen S) (bs_buf S)) \<and> counts n S) \<and>
     bs_buflen S \<le> 64 \<and> length (bs_buf S) = 64 \<and> length h0 = 8"

lemma carry:
  assumes "k \<le> 64"
  shows "unat (of_nat n + of_nat k :: u32) < k \<and> (n + k) div 2 ^ 32 = n div 2 ^ 32 + 1 \<or>
    \<not> unat (of_nat n + of_nat k :: u32) < k \<and> (n + k) div 2 ^ 32 = n div 2 ^ 32"
proof -
  have "unat (of_nat n + of_nat k :: u32) = (n + k) mod 2 ^ 32"
    by (simp flip: of_nat_add add: unat_of_nat)
  moreover have "k \<le> 2 ^ 32" using assms by simp
  ultimately show ?thesis using div_carry [of k "2 ^ 32" n] by simp
qed

lemma count_block_counts: "counts n S \<Longrightarrow> counts (n + 64) (count_block S)"
  using carry [of 64 n]
  by (auto simp: counts_def count_block_def Let_def BLAKE2S_BLOCK_SIZE_def)

lemma count_block_frame [simp]:
  "bs_h (count_block S) = bs_h S" "bs_buf (count_block S) = bs_buf S"
  "bs_buflen (count_block S) = bs_buflen S" "bs_outlen (count_block S) = bs_outlen S"
  by (simp_all add: count_block_def Let_def)

lemma compress_reads:
  "bs_h (blake2s_compress_scalar S block) =
   bs_h (blake2s_compress_scalar \<lparr>bs_h = bs_h S, bs_t0 = bs_t0 S, bs_t1 = bs_t1 S, bs_f0 = bs_f0 S,
     bs_f1 = bs_f1 S, bs_buf = [], bs_buflen = 0, bs_outlen = 0\<rparr> block)"
  by (simp add: blake2s_compress_scalar_def Let_def)

lemma compress_h:
  assumes "length (bs_h S) = 8"
  shows "blake2s_compress S block = S\<lparr>bs_h := bs_h (blake2s_compress_scalar S block)\<rparr>"
  by (simp add: blake2s_compress_def blake2s_neon_available_def compress_neon_scalar [OF assms])

lemma compress_F:
  assumes "counts n S" and "length (bs_h S) = 8"
  shows "blake2s_compress S block = S\<lparr>bs_h := b2_F (bs_h S) block n False\<rparr>"
  using assms by (simp add: compress_h compress_reads [of S] b2_F_scalar counts_def)

lemma counts_upd [simp]:
  "counts n (S\<lparr>bs_h := x\<rparr>) = counts n S" "counts n (S\<lparr>bs_buf := y\<rparr>) = counts n S"
  "counts n (S\<lparr>bs_buflen := z\<rparr>) = counts n S"
  by (simp_all add: counts_def)

lemma update_blocks_absorb:
  assumes "counts n S" and "length (bs_h S) = 8" and "update_blocks S pin = (S', r)"
  shows "\<exists>n'. absorb n (bs_h S) pin = (n', bs_h S', r) \<and> counts n' S' \<and> bs_buf S' = bs_buf S \<and>
    bs_outlen S' = bs_outlen S"
  using assms
proof (induction S pin arbitrary: n rule: update_blocks.induct)
  case (1 S pin)
  show ?case
  proof (cases "64 < length pin")
    case True
    let ?S = "blake2s_compress (count_block S) (take 64 pin)"
    have c: "counts (n + 64) (count_block S)" using 1(2) by (rule count_block_counts)
    have S: "?S = (count_block S)\<lparr>bs_h := b2_F (bs_h S) (take 64 pin) (n + 64) False\<rparr>"
      using compress_F [OF c] 1(3) by simp
    have "update_blocks ?S (drop 64 pin) = (S', r)"
      using 1(4) True by (simp add: update_blocks.simps [of S] BLAKE2S_BLOCK_SIZE_def)
    from 1(1) [unfolded BLAKE2S_BLOCK_SIZE_def, OF True _ _ this] c
    show ?thesis using True by (simp add: S absorb.simps [of n])
  next
    case False
    then show ?thesis
      using 1(2,4) by (simp add: update_blocks.simps [of S] absorb.simps [of n] BLAKE2S_BLOCK_SIZE_def)
  qed
qed

lemma hashing_store:
  assumes "absorb 0 h0 m = (n, bs_h S, r)" and "counts n S" and "length (bs_buf S) = 64"
    and "length h0 = 8" and "take off (bs_buf S) @ x = r" and "off \<le> 64"
  shows "hashing h0 m (S\<lparr>bs_buf := memcpy_at (bs_buf S) off x, bs_buflen := off + length x\<rparr>)"
proof -
  have "length r \<le> 64" using absorb_props assms(1,4) by blast
  with assms(3,5,6) have l: "off + length x \<le> 64" by auto
  then show ?thesis using assms by (auto simp: hashing_def)
qed

lemma hashing_blocks:
  assumes "absorb 0 h0 m = absorb n (bs_h T) p" and "counts n T" and "length (bs_h T) = 8"
    and "length (bs_buf T) = 64" and "length h0 = 8" and u: "update_blocks T p = (U, r)"
  shows "hashing h0 m (U\<lparr>bs_buf := memcpy_at (bs_buf U) 0 r, bs_buflen := length r\<rparr>) \<and>
    bs_outlen U = bs_outlen T"
proof -
  from update_blocks_absorb [OF assms(2,3) u] obtain n'
    where "absorb n (bs_h T) p = (n', bs_h U, r)" "counts n' U" "bs_buf U = bs_buf T"
      and o: "bs_outlen U = bs_outlen T"
    by blast
  then have "hashing h0 m (U\<lparr>bs_buf := memcpy_at (bs_buf U) 0 r, bs_buflen := 0 + length r\<rparr>)"
    using assms by (intro hashing_store) auto
  with o show ?thesis by simp
qed

text \<open>An update appends its input, wherever the block boundaries fall.\<close>

lemma hashing_update:
  assumes h: "hashing h0 m S"
  shows "hashing h0 (m @ x) (blake2s_update S x) \<and> bs_outlen (blake2s_update S x) = bs_outlen S"
proof -
  let ?l = "bs_buflen S" and ?buf = "bs_buf S"
  let ?f = "64 - ?l"
  from h obtain n where a: "absorb 0 h0 m = (n, bs_h S, take ?l ?buf)" and c: "counts n S"
    and l: "?l \<le> 64" "length ?buf = 64" "length h0 = 8"
    by (auto simp: hashing_def)
  have h8: "length (bs_h S) = 8" using absorb_props [OF a] l by simp
  have ax: "absorb 0 h0 (m @ x) = absorb n (bs_h S) (take ?l ?buf @ x)"
    by (rule absorb_append [OF a])
  consider "x = []" | "x \<noteq> []" "\<not> ?f < length x" | "?f < length x" "?l = 0" | "?f < length x" "0 < ?l"
    using neq0_conv by blast
  then show ?thesis
  proof cases
    case 1
    then show ?thesis using h by (simp add: blake2s_update_def)
  next
    case 2
    then have "absorb 0 h0 (m @ x) = (n, bs_h S, take ?l ?buf @ x)"
      using l by (auto simp: ax absorb.simps [of n])
    from hashing_store [OF this c l(2,3) refl l(1)] 2 show ?thesis
      by (auto simp: blake2s_update_def BLAKE2S_BLOCK_SIZE_def Let_def)
  next
    case 3
    obtain U r where u: "update_blocks S x = (U, r)" by fastforce
    have "absorb 0 h0 (m @ x) = absorb n (bs_h S) x" using ax 3 by simp
    from hashing_blocks [OF this c h8 l(2,3) u] 3 u show ?thesis
      by (auto simp: blake2s_update_def BLAKE2S_BLOCK_SIZE_def Let_def)
  next
    case 4
    let ?S = "count_block (S\<lparr>bs_buf := memcpy_at ?buf ?l (take ?f x)\<rparr>)"
    let ?T = "blake2s_compress ?S (memcpy_at ?buf ?l (take ?f x))"
    obtain U r where u: "update_blocks ?T (drop ?f x) = (U, r)" by fastforce
    have cS: "counts (n + 64) ?S" using c by (intro count_block_counts) simp
    have blk: "memcpy_at ?buf ?l (take ?f x) = take 64 (take ?l ?buf @ x)"
      using 4 l by (simp add: memcpy_at_def)
    have T: "?T = ?S\<lparr>bs_h := b2_F (bs_h S) (take 64 (take ?l ?buf @ x)) (n + 64) False\<rparr>"
      using compress_F [OF cS] h8 by (simp add: blk)
    have "absorb 0 h0 (m @ x) = absorb (n + 64) (bs_h ?T) (drop ?f x)"
      unfolding ax using 4 l by (subst absorb.simps) (auto simp: T)
    from hashing_blocks [OF this _ _ _ l(3) u] cS l 4 u show ?thesis
      by (auto simp: T blake2s_update_def BLAKE2S_BLOCK_SIZE_def Let_def)
  qed
qed

lemma final_bytes:
  assumes "length hs = 8" and "k \<le> 32"
  shows "map (\<lambda>i. ucast (drop_bit (8 * (i mod 4)) (hs ! (i div 4)) AND 0xFF)) [0..<k] =
    take k (concat (map store32_le hs))"
proof -
  have "ucast (w AND 0xFF) = (ucast w :: u8)" for w :: u32
  proof -
    have "w AND 0xFF = take_bit 8 w" by (simp add: take_bit_eq_mask mask_eq_exp_minus_1)
    then show ?thesis by (simp add: bit_eq_iff bit_simps)
  qed
  then show ?thesis
    using assms by (intro nth_equalityI) (simp_all add: concat_store32_nth)
qed

lemma final_digest:
  assumes "hashing h0 m S" and "bs_outlen S \<le> 32"
  shows "blake2s_final S = b2_digest (bs_outlen S) h0 m"
proof -
  let ?l = "bs_buflen S"
  from assms obtain n where a: "absorb 0 h0 m = (n, bs_h S, take ?l (bs_buf S))" and c: "counts n S"
    and l: "?l \<le> 64" "length (bs_buf S) = 64" "length h0 = 8"
    by (auto simp: hashing_def)
  have h8: "length (bs_h S) = 8" using absorb_props [OF a] l by simp
  have buf: "memcpy_at (bs_buf S) ?l (replicate (64 - ?l) 0) =
      take ?l (bs_buf S) @ replicate (64 - ?l) 0"
    using l by (simp add: memcpy_at_def)
  have F8: "length (bs_h (blake2s_compress_scalar T b)) = 8" for T b
    by (simp add: blake2s_compress_scalar_def Let_def)
  show ?thesis
    using carry [OF l(1), of n] c h8 assms(2)
    by (auto simp: blake2s_final_def Let_def BLAKE2S_BLOCK_SIZE_def buf compress_h counts_def
        compress_reads [of "bs_buf_update _ _"] b2_digest_def a l b2_F_scalar final_bytes F8 add.commute)
qed

lemma hashing_init:
  "length h0 = 8 \<Longrightarrow> hashing h0 [] ((blake2s_init outlen)\<lparr>bs_h := h0\<rparr>)"
  by (simp add: hashing_def blake2s_init_def counts_def absorb.simps BLAKE2S_BLOCK_SIZE_def)

lemma b2_start_hashing:
  fixes outlen :: nat
  assumes "length key \<le> 64"
  defines "S \<equiv> if 0 < length key then blake2s_init_key outlen key else blake2s_init outlen"
  shows "hashing (b2_h0 outlen (length key))
      (if key = [] then [] else key @ replicate (64 - length key) 0) S \<and> bs_outlen S = outlen"
proof -
  let ?h = "b2_h0 outlen (length key)" and ?i = "blake2s_init outlen"
  have h8: "length ?h = 8" by (simp add: b2_h0_def b2_iv_code blake2s_iv_def)
  have i: "hashing ?h [] (?i\<lparr>bs_h := ?h\<rparr>)" using h8 by (rule hashing_init)
  have k: "?i\<lparr>bs_h := (bs_h ?i)[0 := bs_h ?i ! 0 XOR push_bit 8 (of_nat (length key))]\<rparr> = ?i\<lparr>bs_h := ?h\<rparr>"
    by (simp add: b2_h0_def b2_iv_code blake2s_init_def blake2s_iv_def xor.assoc xor.left_commute xor.commute)
  have "memcpy_at (replicate 64 0) 0 key = key @ replicate (64 - length key) 0"
    using assms by (simp add: memcpy_at_def)
  then show ?thesis
    using hashing_update [OF i, of "memcpy_at (replicate 64 0) 0 key"] i k
    by (auto simp: S_def blake2s_init_key_def Let_def BLAKE2S_BLOCK_SIZE_def)
      (simp_all add: b2_h0_def b2_iv_code blake2s_init_def)
qed

lemma hashing_updates:
  "hashing h0 m S \<Longrightarrow> hashing h0 (m @ concat xs) (fold (\<lambda>x S. blake2s_update S x) xs S) \<and>
     bs_outlen (fold (\<lambda>x S. blake2s_update S x) xs S) = bs_outlen S"
proof (induction xs arbitrary: m S)
  case (Cons x xs)
  from hashing_update [OF Cons.prems, of x] Cons.IH [of "m @ x" "blake2s_update S x"]
  show ?case by simp
qed simp

lemma updates_spec:
  assumes "length key \<le> 64" and "outlen \<le> 32"
  shows "blake2s_final (fold (\<lambda>x S. blake2s_update S x) xs
      (if 0 < length key then blake2s_init_key outlen key else blake2s_init outlen)) =
    blake2s_spec outlen (concat xs) key"
  using b2_start_hashing [OF assms(1), of outlen] hashing_updates assms(2)
  by (metis blake2s_spec_def final_digest)

lemma blake2s_eq_spec:
  "length key \<le> 64 \<Longrightarrow> outlen \<le> 32 \<Longrightarrow> blake2s outlen x key = blake2s_spec outlen x key"
  using updates_spec [of key outlen "[x]"] by (simp add: blake2s_def Let_def)

lemma compress_outlen [simp]: "bs_outlen (blake2s_compress S b) = bs_outlen S"
  by (simp add: blake2s_compress_def blake2s_compress_scalar_def Let_def)

lemma final_length [simp, bytes_len]: "length (blake2s_final S) = bs_outlen S"
  by (simp add: blake2s_final_def Let_def)

lemma update_blocks_outlen: "bs_outlen (fst (update_blocks S p)) = bs_outlen S"
  by (induction S p rule: update_blocks.induct) (subst update_blocks.simps, simp)

lemma update_outlen [simp]: "bs_outlen (blake2s_update S x) = bs_outlen S"
  by (simp add: blake2s_update_def Let_def split_def update_blocks_outlen)

lemma init_outlen [simp]: "bs_outlen (blake2s_init n) = n" "bs_outlen (blake2s_init_key n key) = n"
  by (simp_all add: blake2s_init_def blake2s_init_key_def Let_def)

lemma blake2s_length [simp, bytes_len]: "length (blake2s n x key) = n"
  by (simp add: blake2s_def Let_def)

section \<open>The example of RFC 7693\<close>

text \<open>The digest of the string \<open>abc\<close> of appendix B, evaluated through the rounds on lists of words.\<close>

lemma G_list:
  "G m r 0 0 4 8 12 [v0, v1, v2, v3, v4, v5, v6, v7, v8, v9, v10, v11, v12, v13, v14, v15] =
    (case mix v0 v4 v8 v12 (m ! (blake2s_sigma ! r ! 0)) (m ! (blake2s_sigma ! r ! 1)) of
       (a, b, c, d) \<Rightarrow> [a, v1, v2, v3, b, v5, v6, v7, c, v9, v10, v11, d, v13, v14, v15])"
  "G m r (Suc 0) (Suc 0) 5 9 13 [v0, v1, v2, v3, v4, v5, v6, v7, v8, v9, v10, v11, v12, v13, v14, v15] =
    (case mix v1 v5 v9 v13 (m ! (blake2s_sigma ! r ! 2)) (m ! (blake2s_sigma ! r ! 3)) of
       (a, b, c, d) \<Rightarrow> [v0, a, v2, v3, v4, b, v6, v7, v8, c, v10, v11, v12, d, v14, v15])"
  "G m r 2 2 6 10 14 [v0, v1, v2, v3, v4, v5, v6, v7, v8, v9, v10, v11, v12, v13, v14, v15] =
    (case mix v2 v6 v10 v14 (m ! (blake2s_sigma ! r ! 4)) (m ! (blake2s_sigma ! r ! 5)) of
       (a, b, c, d) \<Rightarrow> [v0, v1, a, v3, v4, v5, b, v7, v8, v9, c, v11, v12, v13, d, v15])"
  "G m r 3 3 7 11 15 [v0, v1, v2, v3, v4, v5, v6, v7, v8, v9, v10, v11, v12, v13, v14, v15] =
    (case mix v3 v7 v11 v15 (m ! (blake2s_sigma ! r ! 6)) (m ! (blake2s_sigma ! r ! 7)) of
       (a, b, c, d) \<Rightarrow> [v0, v1, v2, a, v4, v5, v6, b, v8, v9, v10, c, v12, v13, v14, d])"
  "G m r 4 0 5 10 15 [v0, v1, v2, v3, v4, v5, v6, v7, v8, v9, v10, v11, v12, v13, v14, v15] =
    (case mix v0 v5 v10 v15 (m ! (blake2s_sigma ! r ! 8)) (m ! (blake2s_sigma ! r ! 9)) of
       (a, b, c, d) \<Rightarrow> [a, v1, v2, v3, v4, b, v6, v7, v8, v9, c, v11, v12, v13, v14, d])"
  "G m r 5 (Suc 0) 6 11 12 [v0, v1, v2, v3, v4, v5, v6, v7, v8, v9, v10, v11, v12, v13, v14, v15] =
    (case mix v1 v6 v11 v12 (m ! (blake2s_sigma ! r ! 10)) (m ! (blake2s_sigma ! r ! 11)) of
       (a, b, c, d) \<Rightarrow> [v0, a, v2, v3, v4, v5, b, v7, v8, v9, v10, c, d, v13, v14, v15])"
  "G m r 6 2 7 8 13 [v0, v1, v2, v3, v4, v5, v6, v7, v8, v9, v10, v11, v12, v13, v14, v15] =
    (case mix v2 v7 v8 v13 (m ! (blake2s_sigma ! r ! 12)) (m ! (blake2s_sigma ! r ! 13)) of
       (a, b, c, d) \<Rightarrow> [v0, v1, a, v3, v4, v5, v6, b, c, v9, v10, v11, v12, d, v14, v15])"
  "G m r 7 3 4 9 14 [v0, v1, v2, v3, v4, v5, v6, v7, v8, v9, v10, v11, v12, v13, v14, v15] =
    (case mix v3 v4 v9 v14 (m ! (blake2s_sigma ! r ! 14)) (m ! (blake2s_sigma ! r ! 15)) of
       (a, b, c, d) \<Rightarrow> [v0, v1, v2, a, b, v5, v6, v7, v8, c, v10, v11, v12, v13, d, v15])"
  by (simp_all add: G_mix mix_defs)

text \<open>Words are kept below \<open>2 ^ 32\<close> while they are evaluated.\<close>

definition reduced :: "u32 \<Rightarrow> u32" where
  "reduced x = x"

lemma reduced_eval: "reduced 0 = 0" "reduced 1 = 1" "reduced (numeral k) = word_of_int (numeral k mod 4294967296)"
proof -
  have "word_of_int (numeral k mod 2 ^ LENGTH(32)) = (word_of_int (numeral k) :: u32)"
    by (simp only: word_of_int_eq_iff take_bit_eq_mod mod_mod_trivial)
  then show "reduced (numeral k) = word_of_int (numeral k mod 4294967296)"
    by (simp add: reduced_def)
qed (simp_all add: reduced_def)

lemma mix_eval:
  "mix1 a b c d x = (let a = reduced (a + b + x); d = reduced (rotr32 (d XOR a) 16); c = reduced (c + d);
     b = reduced (rotr32 (b XOR c) 12) in (a, b, c, d))"
  "mix2 a b c d x = (let a = reduced (a + b + x); d = reduced (rotr32 (d XOR a) 8); c = reduced (c + d);
     b = reduced (rotr32 (b XOR c) 7) in (a, b, c, d))"
  by (simp_all add: mix1_def mix2_def reduced_def)

lemma ROUND_nest:
  "ROUND m r v =
    G m r 7 3 4 9 14 (G m r 6 2 7 8 13 (G m r 5 1 6 11 12 (G m r 4 0 5 10 15
      (G m r 3 3 7 11 15 (G m r 2 2 6 10 14 (G m r 1 1 5 9 13 (G m r 0 0 4 8 12 v)))))))"
  by (simp add: ROUND_def)

lemma abc_rounds:
  "fold (ROUND [0x636261, 0, 0, 0, 0, 0, 0, 0, 0, 0, 0, 0, 0, 0, 0, 0]) [0, 1, 2, 3, 4, 5, 6, 7, 8, 9]
     [0x6B08E647, 0xBB67AE85, 0x3C6EF372, 0xA54FF53A, 0x510E527F, 0x9B05688C, 0x1F83D9AB, 0x5BE0CD19,
      0x6A09E667, 0xBB67AE85, 0x3C6EF372, 0xA54FF53A, 0x510E527C, 0x9B05688C, 0xE07C2654, 0x5BE0CD19] =
     [0xD9C994AA, 0xCFEC3AA6, 0x700D0AB2, 0x2C38670E, 0xAF6A1F66, 0x1D023EF3, 0x1D9EC27D, 0x945357A5,
      0x3E9FFEBD, 0x969FE811, 0xEF485E21, 0xA632797A, 0xDEEF082E, 0xAF3D80E1, 0x4E86829B, 0x4DEAFD3A]"
  by (simp add: ROUND_nest G_list mix_def mix_eval reduced_eval rotr32_def blake2s_sigma_def)

lemma abc_digest:
  "blake2s_spec 32 [0x61, 0x62, 0x63] [] =
     [0x50, 0x8C, 0x5E, 0x8C, 0x32, 0x7C, 0x14, 0xE2, 0xE1, 0xA7, 0x2B, 0xA3, 0x4E, 0xEB, 0x45, 0x2F,
      0x37, 0x45, 0x8B, 0x20, 0x9E, 0xD6, 0x3A, 0x29, 0x4D, 0x99, 0x9B, 0x4C, 0x86, 0x67, 0x59, 0x82]"
proof -
  let ?b = "[0x61, 0x62, 0x63] @ replicate 61 (0 :: u8)"
  have m: "map (\<lambda>i. load32 (drop (i * 4) ?b)) [0..<16] = [0x636261, 0, 0, 0, 0, 0, 0, 0, 0, 0, 0, 0, 0, 0, 0, 0]"
    by (simp add: upt_16 load32_def)
  let ?h = "[0x6B08E647, 0xBB67AE85, 0x3C6EF372, 0xA54FF53A, 0x510E527F, 0x9B05688C, 0x1F83D9AB, 0x5BE0CD19] :: u32 list"
  let ?t = "[blake2s_iv ! 0, blake2s_iv ! 1, blake2s_iv ! 2, blake2s_iv ! 3, of_nat 3 XOR blake2s_iv ! 4,
    of_nat (3 div 2 ^ 32) XOR blake2s_iv ! 5, (if True then - 1 else 0) XOR blake2s_iv ! 6, 0 XOR blake2s_iv ! 7]"
  have h: "b2_h0 32 0 = ?h" by (simp add: b2_h0_def b2_iv_code blake2s_iv_def)
  have t: "?t = [0x6A09E667, 0xBB67AE85, 0x3C6EF372, 0xA54FF53A, 0x510E527C, 0x9B05688C, 0xE07C2654, 0x5BE0CD19]"
    by (simp add: blake2s_iv_def)
  have v: "map ((!) ?h) [0..<8] @ ?t =
      [0x6B08E647, 0xBB67AE85, 0x3C6EF372, 0xA54FF53A, 0x510E527F, 0x9B05688C, 0x1F83D9AB, 0x5BE0CD19,
      0x6A09E667, 0xBB67AE85, 0x3C6EF372, 0xA54FF53A, 0x510E527C, 0x9B05688C, 0xE07C2654, 0x5BE0CD19]"
    unfolding t by (simp add: upt_8)
  have "b2_F (b2_h0 32 0) ?b 3 True =
      [0x8C5E8C50, 0xE2147C32, 0xA32BA7E1, 0x2F45EB4E, 0x208B4537, 0x293AD69E, 0x4C9B994D, 0x82596786]"
    unfolding b2_F_scalar blake2s_compress_scalar_def blake2s_state.simps m Let_def h v abc_rounds
    by (simp add: upt_8)
  then show ?thesis
    by (simp add: blake2s_spec_def b2_digest_def absorb.simps store32_le_def numeral_3_eq_3)
qed

section \<open>Properties\<close>

text \<open>
  C17: the NEON compression computes what the scalar one computes, on every chaining value,
  block, counter and flags, so the hash does not depend on the build.
\<close>

theorem blake2s_neon_equiv:
  assumes "length (bs_h S) = 8"
  shows "blake2s_compress_scalar S block =
    S\<lparr>bs_h := blake2s_compress_neon (bs_h S) block (bs_t0 S) (bs_t1 S) (bs_f0 S) (bs_f1 S)\<rparr>"
  using assms by (rule compress_neon_scalar)

theorem blake2s_neon_equiv_witness:
  "length (bs_h (blake2s_init 32)) = 8 \<and>
   blake2s_compress_scalar (blake2s_init 32) (replicate 64 1) =
     (blake2s_init 32)\<lparr>bs_h := blake2s_compress_neon (bs_h (blake2s_init 32)) (replicate 64 1) 0 0 0 0\<rparr>"
  using blake2s_neon_equiv [of "blake2s_init 32" "replicate 64 1"]
  by (simp add: blake2s_init_def blake2s_iv_def)

text \<open>
  C18: streaming. However a message is cut into updates, empty ones and ones across block
  boundaries included, the digest is the one RFC 7693 gives for the whole message, keyed or not. The
  specification has its own initialization vector, from the square roots of the first eight primes, its own message
  schedule and its own compression on the columns and diagonals of the working vector.
\<close>

theorem blake2s_streaming:
  assumes "length key \<le> 64" and "outlen \<le> 32"
  shows "blake2s_final (fold (\<lambda>x S. blake2s_update S x) xs
      (if 0 < length key then blake2s_init_key outlen key else blake2s_init outlen)) =
    blake2s_spec outlen (concat xs) key"
  using assms by (rule updates_spec)

theorem blake2s_streaming_witness:
  "length (replicate 32 7 :: bytes) \<le> 64 \<and>
   blake2s_final (blake2s_update (blake2s_update (blake2s_init_key 16 (replicate 32 7)) [0x61])
     (replicate 130 0x62)) =
   blake2s_spec 16 (0x61 # replicate 130 0x62) (replicate 32 7) \<and>
   blake2s_final (blake2s_update (blake2s_update (blake2s_init 32) [0x61]) [0x62, 0x63]) =
     [0x50, 0x8C, 0x5E, 0x8C, 0x32, 0x7C, 0x14, 0xE2, 0xE1, 0xA7, 0x2B, 0xA3, 0x4E, 0xEB, 0x45, 0x2F,
      0x37, 0x45, 0x8B, 0x20, 0x9E, 0xD6, 0x3A, 0x29, 0x4D, 0x99, 0x9B, 0x4C, 0x86, 0x67, 0x59, 0x82]"
  using blake2s_streaming [of "replicate 32 7" 16 "[[0x61], replicate 130 0x62]"]
    blake2s_streaming [of "[]" 32 "[[0x61], [0x62, 0x63]]"]
  by (simp add: abc_digest)

end
