(* ===== verification/Kdf.thy ===== *)
theory Kdf
  imports Blake2s
begin

text \<open>
  Hashing and key derivation of \<open>src/wg_crypto.c\<close>: keyed and plain BLAKE2s, HMAC over it, the
  derivation of one, two and three keys, the mixing into the handshake state, and the TAI64N
  timestamp. They are compared with RFC 2104 (HMAC) and RFC 5869 (HKDF).
\<close>

unbundle bit_operations_syntax

section \<open>Model\<close>

definition WG_HASH_LEN :: nat where [wg_consts]: "WG_HASH_LEN = 32"
definition WG_MAC_LEN :: nat where [wg_consts]: "WG_MAC_LEN = 16"

record WgHandshakeState =
  hs_hash :: bytes
  chaining_key :: bytes
  ephemeral_private :: bytes

definition wg_hash :: "bytes \<Rightarrow> bytes" where
  "wg_hash data = blake2s WG_HASH_LEN data []"

definition wg_hash2 :: "bytes \<Rightarrow> bytes \<Rightarrow> bytes" where
  "wg_hash2 a b =
     (let state = blake2s_init WG_HASH_LEN;
          state = blake2s_update state a;
          state = blake2s_update state b
      in blake2s_final state)"

definition wg_mac :: "bytes \<Rightarrow> bytes \<Rightarrow> bytes" where
  "wg_mac key data = blake2s WG_MAC_LEN data key"

text \<open>The key is xored into the pads, and cut off after a block.\<close>

definition xor_pad :: "bytes \<Rightarrow> bytes \<Rightarrow> bytes" where
  "xor_pad pad key = map (\<lambda>i. if i < length key then pad ! i XOR key ! i else pad ! i) [0..<length pad]"

definition wg_hmac :: "nat \<Rightarrow> bytes \<Rightarrow> bytes \<Rightarrow> bytes" where
  "wg_hmac out_len key data =
     (let ipad = xor_pad (replicate BLAKE2S_BLOCK_SIZE 0x36) key;
          opad = xor_pad (replicate BLAKE2S_BLOCK_SIZE 0x5c) key;
          state = blake2s_init WG_HASH_LEN;
          state = blake2s_update state ipad;
          state = blake2s_update state data;
          inner = blake2s_final state;
          state = blake2s_init out_len;
          state = blake2s_update state opad;
          state = blake2s_update state inner
      in blake2s_final state)"

definition wg_kdf1 :: "bytes \<Rightarrow> bytes \<Rightarrow> bytes" where
  "wg_kdf1 key input =
     (let temp = wg_hmac WG_HASH_LEN key input
      in wg_hmac WG_HASH_LEN temp [0x01])"

definition wg_kdf2 :: "bytes \<Rightarrow> bytes \<Rightarrow> bytes \<times> bytes" where
  "wg_kdf2 key input =
     (let temp = wg_hmac WG_HASH_LEN key input;
          out1 = wg_hmac WG_HASH_LEN temp [0x01];
          t1 = out1 @ [0x02];
          out2 = wg_hmac WG_HASH_LEN temp t1
      in (out1, out2))"

definition wg_kdf3 :: "bytes \<Rightarrow> bytes \<Rightarrow> bytes \<times> bytes \<times> bytes" where
  "wg_kdf3 key input =
     (let temp = wg_hmac WG_HASH_LEN key input;
          out1 = wg_hmac WG_HASH_LEN temp [0x01];
          t1 = out1 @ [0x02];
          out2 = wg_hmac WG_HASH_LEN temp t1;
          t2 = out2 @ [0x03];
          out3 = wg_hmac WG_HASH_LEN temp t2
      in (out1, out2, out3))"

definition wg_mix_hash :: "WgHandshakeState \<Rightarrow> bytes \<Rightarrow> WgHandshakeState" where
  "wg_mix_hash state data = state\<lparr>hs_hash := wg_hash2 (hs_hash state) data\<rparr>"

text \<open>Both outputs go to \<open>chaining_key\<close>: the second one overwrites the first.\<close>

definition wg_mix_key :: "WgHandshakeState \<Rightarrow> bytes \<Rightarrow> WgHandshakeState" where
  "wg_mix_key state input =
     (let (out1, out2) = wg_kdf2 (chaining_key state) input
      in state\<lparr>chaining_key := out1, chaining_key := out2\<rparr>)"

text \<open>The clock reading of \<open>clock_gettime\<close> is an argument.\<close>

definition wg_timestamp :: "u64 \<Rightarrow> u32 \<Rightarrow> bytes" where
  "wg_timestamp tv_sec tv_nsec =
     (let secs = tv_sec + 0x400000000000000a;
          nsecs = tv_nsec
      in [ucast (drop_bit 56 secs), ucast (drop_bit 48 secs), ucast (drop_bit 40 secs), ucast (drop_bit 32 secs),
          ucast (drop_bit 24 secs), ucast (drop_bit 16 secs), ucast (drop_bit 8 secs), ucast secs,
          ucast (drop_bit 24 nsecs), ucast (drop_bit 16 nsecs), ucast (drop_bit 8 nsecs), ucast nsecs])"

section \<open>Lengths\<close>

lemma wg_hash_length [simp, bytes_len]: "length (wg_hash x) = 32"
  by (simp add: wg_hash_def wg_consts)

lemma wg_hash2_spec: "wg_hash2 a b = blake2s_spec 32 (a @ b) []"
  using updates_spec [of "[]" 32 "[a, b]"] by (simp add: wg_hash2_def wg_consts)

lemma wg_hash_spec: "wg_hash x = blake2s_spec 32 x []"
  by (simp add: wg_hash_def wg_consts blake2s_eq_spec)

lemma wg_mac_spec: "length key \<le> 64 \<Longrightarrow> wg_mac key x = blake2s_spec 16 x key"
  by (simp add: wg_mac_def wg_consts blake2s_eq_spec)

lemma wg_hash2_length [simp, bytes_len]: "length (wg_hash2 a b) = 32"
  by (simp add: wg_hash2_def wg_consts Let_def)

lemma wg_mac_length [simp, bytes_len]: "length (wg_mac k x) = 16"
  by (simp add: wg_mac_def wg_consts)

lemma wg_hmac_length [simp, bytes_len]: "length (wg_hmac n k x) = n"
  by (simp add: wg_hmac_def Let_def)

lemma wg_kdf1_length [simp, bytes_len]: "length (wg_kdf1 k x) = 32"
  by (simp add: wg_kdf1_def wg_consts)

lemma wg_kdf2_length [simp, bytes_len]:
  "length (fst (wg_kdf2 k x)) = 32" "length (snd (wg_kdf2 k x)) = 32"
  by (simp_all add: wg_kdf2_def wg_consts Let_def)

lemma wg_kdf3_length [simp, bytes_len]:
  "length (fst (wg_kdf3 k x)) = 32" "length (fst (snd (wg_kdf3 k x))) = 32" "length (snd (snd (wg_kdf3 k x))) = 32"
  by (simp_all add: wg_kdf3_def wg_consts Let_def)

lemma wg_timestamp_length [simp, bytes_len]: "length (wg_timestamp s n) = 12"
  by (simp add: wg_timestamp_def Let_def)

section \<open>HMAC and HKDF\<close>

text \<open>RFC 2104, for a key of at most one block.\<close>

definition hmac_spec :: "nat \<Rightarrow> bytes \<Rightarrow> bytes \<Rightarrow> bytes" where
  "hmac_spec n key msg =
     (let k = key @ replicate (64 - length key) 0
      in blake2s_spec n (map (\<lambda>x. x XOR 0x5c) k @ blake2s_spec 32 (map (\<lambda>x. x XOR 0x36) k @ msg) []) [])"

text \<open>RFC 5869: extract with the salt, then the blocks \<open>T(1), T(2), ...\<close>.\<close>

definition hkdf_extract :: "bytes \<Rightarrow> bytes \<Rightarrow> bytes" where
  "hkdf_extract salt ikm = hmac_spec 32 salt ikm"

primrec hkdf_t :: "bytes \<Rightarrow> nat \<Rightarrow> bytes" where
  "hkdf_t prk 0 = []"
| "hkdf_t prk (Suc i) = hmac_spec 32 prk (hkdf_t prk i @ [of_nat (Suc i)])"

lemma xor_pad_spec:
  assumes "length key \<le> 64"
  shows "xor_pad (replicate 64 c) key = map (\<lambda>x. x XOR c) (key @ replicate (64 - length key) 0)"
  using assms by (intro nth_equalityI) (auto simp: xor_pad_def nth_append ac_simps)

lemma hmac_eq_spec:
  assumes "length key \<le> 64" and "n \<le> 32"
  shows "wg_hmac n key msg = hmac_spec n key msg"
proof -
  have u: "blake2s_final (blake2s_update (blake2s_update (blake2s_init m) a) b) = blake2s_spec m (a @ b) []"
    if "m \<le> 32" for m a b
    using updates_spec [of "[]" m "[a, b]"] that by simp
  show ?thesis
    using assms(2) unfolding wg_hmac_def hmac_spec_def Let_def BLAKE2S_BLOCK_SIZE_def xor_pad_spec [OF assms(1)]
    by (simp add: u wg_consts)
qed

lemma kdf_hkdf:
  assumes "length key \<le> 64"
  shows "let prk = hkdf_extract key input
    in wg_kdf1 key input = hkdf_t prk 1 \<and>
       wg_kdf2 key input = (hkdf_t prk 1, hkdf_t prk 2) \<and>
       wg_kdf3 key input = (hkdf_t prk 1, hkdf_t prk 2, hkdf_t prk 3)"
proof -
  have e: "wg_hmac 32 key input = hkdf_extract key input"
    using assms by (simp add: hkdf_extract_def hmac_eq_spec)
  moreover have "length (hkdf_extract key input) \<le> 64" using wg_hmac_length [of 32 key input] e by simp
  ultimately show ?thesis
    by (simp add: wg_kdf1_def wg_kdf2_def wg_kdf3_def wg_consts Let_def hmac_eq_spec eval_nat_numeral)
qed

section \<open>Timestamps\<close>

text \<open>The number a byte string denotes, most significant byte first.\<close>

definition be_num :: "bytes \<Rightarrow> nat" where
  "be_num bs = foldl (\<lambda>n b. 256 * n + unat b) 0 bs"

lemma be_num_append: "be_num (a @ b) = be_num a * 256 ^ length b + be_num b"
proof (induction b rule: rev_induct)
  case (snoc x b)
  have "be_num (c @ [x]) = 256 * be_num c + unat x" for c by (simp add: be_num_def)
  from this [of "a @ b"] this [of b] snoc show ?case by (simp add: algebra_simps)
qed (simp add: be_num_def)

lemma be_top:
  "be_num (ucast (drop_bit k (w :: 'a::len word)) # bs) = (unat w div 2 ^ k mod 256) * 256 ^ length bs + be_num bs"
proof -
  have "unat (ucast (drop_bit k w) :: u8) = unat w div 2 ^ k mod 256"
    unfolding unsigned_ucast_eq unsigned_drop_bit_eq
    using take_bit_nat_eq_self_iff [of "LENGTH('a)" "unat w"] unsigned_less [of w]
    by (simp add: take_bit_eq_mod drop_bit_eq_div)
  then show "be_num (ucast (drop_bit k w) # bs) = (unat w div 2 ^ k mod 256) * 256 ^ length bs + be_num bs"
    using be_num_append [of "[ucast (drop_bit k w)]" bs] by (simp add: be_num_def)
qed

lemma be_num_word:
  "be_num (map (\<lambda>i. ucast (drop_bit (8 * i) (w :: 'a::len word))) (rev [0..<k])) = unat w mod 256 ^ k"
proof (induction k)
  case (Suc k)
  have "(2 :: nat) ^ (8 * k) = 256 ^ k" by (simp add: power_mult)
  with Suc show ?case using mod_mult2_eq [of "unat w" "256 ^ k" 256] by (simp add: be_top mult.commute)
qed (simp add: be_num_def)

lemma timestamp_num: "be_num (wg_timestamp s n) = unat (s + 0x400000000000000a) * 2 ^ 32 + unat n"
proof -
  let ?s = "s + 0x400000000000000a"
  have "wg_timestamp s n =
      map (\<lambda>i. ucast (drop_bit (8 * i) ?s)) (rev [0..<8]) @ map (\<lambda>i. ucast (drop_bit (8 * i) n)) (rev [0..<4])"
    by (simp add: wg_timestamp_def Let_def upt_rec)
  moreover have "unat ?s < 2 ^ 64" "unat n < 2 ^ 32"
    using unsigned_less [of ?s] unsigned_less [of n] by simp_all
  then have "unat ?s mod 256 ^ 8 = unat ?s" "unat n mod 256 ^ 4 = unat n"
    by (intro mod_less; simp)+
  ultimately show ?thesis by (simp only: be_num_append be_num_word length_map length_rev length_upt) simp
qed

section \<open>Properties\<close>

text \<open>
  C23: Key derivation. For every chaining key of at most one block, and every input, the
  derivations of one, two and three keys return the first blocks of HKDF (RFC 5869) over
  HMAC-BLAKE2s (RFC 2104).
\<close>

theorem kdf_is_hkdf:
  assumes "length key \<le> 64"
  shows "let prk = hkdf_extract key input
    in wg_kdf1 key input = hkdf_t prk 1 \<and>
       wg_kdf2 key input = (hkdf_t prk 1, hkdf_t prk 2) \<and>
       wg_kdf3 key input = (hkdf_t prk 1, hkdf_t prk 2, hkdf_t prk 3)"
  using assms by (rule kdf_hkdf)

theorem kdf_is_hkdf_witness:
  "length (replicate 32 (1 :: u8)) \<le> 64 \<and>
   (let prk = hkdf_extract (replicate 32 1) [2]
    in wg_kdf1 (replicate 32 1) [2] = hkdf_t prk 1 \<and>
       wg_kdf2 (replicate 32 1) [2] = (hkdf_t prk 1, hkdf_t prk 2) \<and>
       wg_kdf3 (replicate 32 1) [2] = (hkdf_t prk 1, hkdf_t prk 2, hkdf_t prk 3))"
  using kdf_is_hkdf [of "replicate 32 1" "[2]"] by simp

text \<open>
  Timestamps grow. Read as big-endian numbers, the labels of two clock readings are ordered
  as the readings are, until the seconds since 1970 exceed what TAI64 can hold; a responder that
  compares the bytes therefore sees later initiations as later.
\<close>

theorem timestamp_order:
  assumes "unat s' + 0x400000000000000a < 2 ^ 64" and "s < s' \<or> s = s' \<and> n < n'"
  shows "be_num (wg_timestamp s n) < be_num (wg_timestamp s' n')"
proof -
  have "unat s \<le> unat s'" using assms(2) by (auto simp: word_less_nat_alt)
  then have u: "unat (s + 0x400000000000000a) = unat s + 0x400000000000000a"
    "unat (s' + 0x400000000000000a) = unat s' + 0x400000000000000a"
    using assms(1) by (simp_all add: unat_word_ariths)
  have "unat n < 2 ^ 32" using unsigned_less [of n] by simp
  then show ?thesis using assms(2) unfolding timestamp_num u by (auto simp: word_less_nat_alt)
qed

theorem timestamp_order_witness:
  "unat (1700000000 :: u64) + 0x400000000000000a < 2 ^ 64 \<and>
   be_num (wg_timestamp 1700000000 5) < be_num (wg_timestamp 1700000000 6)"
  using timestamp_order [of 1700000000 1700000000 5 6] by simp

end
