(* ===== verification/State.thy ===== *)
theory State
  imports Messages Kdf Counter RecvPool Ring
begin

text \<open>
  The state of a tunnel, \<open>WgSession\<close>, \<open>WgPeer\<close> and \<open>WgTunnel\<close> of \<open>src/wg_internal.h\<close>, and the world
  around the program: the clocks, the random numbers, the sockets and the relay. The world is a
  record of what the system calls return, in the order they are made, and of what was sent. A
  pointer to a peer is its index in the table; a pointer that may be null is an option.
\<close>

section \<open>Constants\<close>

definition WG_REKEY_AFTER_MESSAGES :: u64 where [wg_consts]: "WG_REKEY_AFTER_MESSAGES = push_bit 60 1"
definition WG_REKEY_AFTER_TIME :: u64 where [wg_consts]: "WG_REKEY_AFTER_TIME = 120"
definition WG_REJECT_AFTER_TIME :: u64 where [wg_consts]: "WG_REJECT_AFTER_TIME = 180"
definition WG_REKEY_TIMEOUT :: int where [wg_consts]: "WG_REKEY_TIMEOUT = 5"
definition WG_MAX_TIMER_HANDSHAKES :: nat where [wg_consts]: "WG_MAX_TIMER_HANDSHAKES = 18"
definition WG_KEEPALIVE_TIMEOUT :: u64 where [wg_consts]: "WG_KEEPALIVE_TIMEOUT = 10"
definition WG_COOKIE_SECRET_MAX_AGE :: u64 where [wg_consts]: "WG_COOKIE_SECRET_MAX_AGE = 120"
definition WG_COOKIE_LEN :: nat where [wg_consts]: "WG_COOKIE_LEN = 16"
definition WG_RELAY_HASH_LEN :: nat where [wg_consts]: "WG_RELAY_HASH_LEN = 36"
definition WG_MAX_PEERS :: nat where [wg_consts]: "WG_MAX_PEERS = 64"
definition WG_CANARY_MAGIC :: u32 where [wg_consts]: "WG_CANARY_MAGIC = 0xDEADC0DE"
definition WG_MAX_PACKET_SIZE :: nat where [wg_consts]: "WG_MAX_PACKET_SIZE = 2048"

text \<open>A second, in nanoseconds.\<close>

definition NS :: u64 where [wg_consts]: "NS = 1000000000"

section \<open>Sessions, peers, tunnels\<close>

record WgSession =
  sending_key :: bytes
  receiving_key :: bytes
  sending_counter :: u64
  receiving_counter :: u64
  local_index :: u32
  old_local_index :: u32
  remote_index :: u32
  last_handshake :: u64
  last_received :: u64
  valid :: bool
  rekey_in_progress :: bool
  replay :: WgReplayCounter

text \<open>A wiped session: all bytes zero.\<close>

definition zero_session :: WgSession where
  "zero_session =
     \<lparr>sending_key = replicate 32 0, receiving_key = replicate 32 0, sending_counter = 0,
      receiving_counter = 0, local_index = 0, old_local_index = 0, remote_index = 0,
      last_handshake = 0, last_received = 0, valid = False, rekey_in_progress = False,
      replay = replay_init\<rparr>"

definition zero_hs :: WgHandshakeState where
  "zero_hs = \<lparr>hs_hash = replicate 32 0, chaining_key = replicate 32 0, ephemeral_private = replicate 32 0\<rparr>"

record WgPeer =
  public_key :: bytes
  relay_hash :: bytes
  p_tunnel_ip :: u32
  ip_raw :: u32
  p_session :: WgSession
  p_prev_session :: WgSession
  pending_hs :: WgHandshakeState
  hs_pending :: bool
  configured :: bool
  connected :: bool
  p_last_sent :: u64
  p_last_mac1 :: bytes

definition zero_peer :: WgPeer where
  "zero_peer =
     \<lparr>public_key = replicate 32 0, relay_hash = replicate WG_RELAY_HASH_LEN 0, p_tunnel_ip = 0, ip_raw = 0,
      p_session = zero_session, p_prev_session = zero_session, pending_hs = zero_hs, hs_pending = False,
      configured = False, connected = False, p_last_sent = 0, p_last_mac1 = replicate 16 0\<rparr>"

record sockaddr_in =
  sin_family :: u16
  sin_port :: u16
  s_addr :: u32

definition zero_addr :: sockaddr_in where
  "zero_addr = \<lparr>sin_family = 0, sin_port = 0, s_addr = 0\<rparr>"

record WgTunnel =
  static_private :: bytes
  static_public :: bytes
  peer_public :: bytes
  preshared_key :: bytes
  has_psk :: bool
  tunnel_ip :: u32
  endpoint :: sockaddr_in
  keepalive_interval :: u16
  socket_fd :: int
  session :: WgSession
  prev_session :: WgSession
  peers :: "WgPeer list"
  peer_count :: nat
  canary_begin :: u32
  cookie :: bytes
  has_cookie :: bool
  cookie_timestamp :: u64
  last_mac1 :: bytes
  stop_pred :: bool
  send_buffer :: bytes
  has_recv_cb :: bool
  running :: bool
  last_sent :: u64
  pending_response :: bytes
  pending_response_len :: nat
  pending_cookie :: bool
  recv_src :: sockaddr_in
  recv_src_valid :: bool
  recv_pool :: WgRecvPool
  canary_end :: u32

text \<open>A tunnel as \<open>calloc\<close> returns it.\<close>

definition zero_tunnel :: WgTunnel where
  "zero_tunnel =
     \<lparr>static_private = replicate 32 0, static_public = replicate 32 0, peer_public = replicate 32 0,
      preshared_key = replicate 32 0, has_psk = False, tunnel_ip = 0, endpoint = zero_addr,
      keepalive_interval = 0, socket_fd = 0, session = zero_session, prev_session = zero_session,
      peers = replicate WG_MAX_PEERS zero_peer, peer_count = 0, canary_begin = 0,
      cookie = replicate WG_COOKIE_LEN 0, has_cookie = False, cookie_timestamp = 0,
      last_mac1 = replicate 16 0, stop_pred = False, send_buffer = replicate 2048 0, has_recv_cb = False,
      running = False, last_sent = 0, pending_response = replicate 256 0, pending_response_len = 0,
      pending_cookie = False, recv_src = zero_addr, recv_src_valid = False,
      recv_pool = \<lparr>slots = None, free_head = None, initialized = False\<rparr>, canary_end = 0\<rparr>"

definition set_peer :: "WgTunnel \<Rightarrow> nat \<Rightarrow> WgPeer \<Rightarrow> WgTunnel" where
  "set_peer tun i p = tun\<lparr>peers := (peers tun)[i := p]\<rparr>"

section \<open>The world\<close>

text \<open>
  One outcome of \<open>sendto\<close>: bytes sent, or an error that is \<open>EAGAIN\<close> or not. One outcome of \<open>poll\<close>
  followed by \<open>recvfrom\<close>: the result of \<open>poll\<close>, whether \<open>POLLIN\<close> is set, and the datagram with its
  source, if \<open>recvfrom\<close> succeeds.
\<close>

datatype sendto_outcome = Sent nat | SendAgain | SendError

record udp_outcome =
  poll_ret :: int
  pollin :: bool
  datagram :: "(bytes \<times> sockaddr_in) option"

datatype sent_packet = ToRelay "bytes option" bytes | ToEndpoint sockaddr_in bytes

record world =
  ticks :: "nat \<Rightarrow> u64"
  tick_pos :: nat
  realtime :: "nat \<Rightarrow> u64 \<times> u32"
  real_pos :: nat
  entropy :: "nat \<Rightarrow> u8"
  entropy_pos :: nat
  relay_send :: bool
  ring_views :: "nat \<Rightarrow> (u64 \<times> ring) list"
  view_pos :: nat
  rseq :: u32
  sendto_outcomes :: "nat \<Rightarrow> sendto_outcome"
  sendto_pos :: nat
  udp_outcomes :: "nat \<Rightarrow> udp_outcome"
  udp_pos :: nat
  sent_log :: "sent_packet list"

text \<open>A world with a relay in which nothing arrives and all readings are zero.\<close>

definition quiet_world :: world where
  "quiet_world =
     \<lparr>ticks = (\<lambda>_. 0), tick_pos = 0, realtime = (\<lambda>_. (0, 0)), real_pos = 0, entropy = (\<lambda>_. 0), entropy_pos = 0,
      relay_send = True, ring_views = (\<lambda>_. []), view_pos = 0, rseq = 0, sendto_outcomes = (\<lambda>_. SendError),
      sendto_pos = 0, udp_outcomes = (\<lambda>_. \<lparr>poll_ret = 0, pollin = False, datagram = None\<rparr>), udp_pos = 0,
      sent_log = []\<rparr>"

text \<open>\<open>clock_gettime (CLOCK_REALTIME)\<close> and \<open>randomGet\<close>.\<close>

definition clock_realtime :: "world \<Rightarrow> (u64 \<times> u32) \<times> world" where
  "clock_realtime w = (realtime w (real_pos w), w\<lparr>real_pos := Suc (real_pos w)\<rparr>)"

definition randomGet :: "nat \<Rightarrow> world \<Rightarrow> bytes \<times> world" where
  "randomGet n w = (map (\<lambda>i. entropy w (entropy_pos w + i)) [0..<n], w\<lparr>entropy_pos := entropy_pos w + n\<rparr>)"

lemma randomGet_length [simp, bytes_len]: "length (fst (randomGet n w)) = n"
  by (simp add: randomGet_def)

end
