(* ===== verification/Limbs.thy ===== *)
theory Limbs
  imports Bytes
begin

text \<open>
  Numbers in words: byte strings as little-endian numbers, and the machine operations on words
  that are images of natural numbers. The multi-precision code is verified by pushing these
  images through it, with the bounds that exclude overflow.
\<close>

unbundle bit_operations_syntax

section \<open>Little-endian numbers\<close>

primrec le_num :: "bytes \<Rightarrow> nat" where
  "le_num [] = 0"
| "le_num (b # bs) = unat b + 256 * le_num bs"

primrec nat_to_le :: "nat \<Rightarrow> nat \<Rightarrow> bytes" where
  "nat_to_le 0 n = []"
| "nat_to_le (Suc k) n = of_nat n # nat_to_le k (n div 256)"

lemma nat_to_le_length [simp, bytes_len]: "length (nat_to_le k n) = k"
  by (induction k arbitrary: n) simp_all

lemma unat_u8_less [simp]: "unat (b :: u8) < 256"
  using unsigned_less [of b, where ?'a = nat] by simp

lemma nat_to_le_num: "nat_to_le (length bs) (le_num bs) = bs"
proof -
  have "of_nat (unat b + 256 * n) = b" for b :: u8 and n :: nat
    by (rule unsigned_word_eqI [where ?'a = nat]) (simp add: unat_of_nat del: of_nat_add of_nat_mult)
  then show ?thesis by (induction bs) (simp_all add: div_add1_eq del: of_nat_add of_nat_mult)
qed

lemma le_num_bound: "le_num bs < 256 ^ length bs"
proof (induction bs)
  case (Cons b bs)
  then have "256 * Suc (le_num bs) \<le> 256 * 256 ^ length bs" by (intro mult_left_mono) simp_all
  moreover have "unat b < 256" by (rule unat_u8_less)
  ultimately show ?case by (simp del: unat_u8_less)
qed simp

lemma le_num_append: "le_num (a @ b) = le_num a + 256 ^ length a * le_num b"
  by (induction a) (simp_all add: algebra_simps)

lemma nat_to_le_append: "nat_to_le (j + k) n = nat_to_le j n @ nat_to_le k (n div 256 ^ j)"
  by (induction j arbitrary: n) (simp_all add: div_mult2_eq)

lemma le_num_zeros [simp]: "le_num (replicate n 0) = 0"
  by (induction n) simp_all

section \<open>Images of numbers\<close>

lemma unat_u32_less [simp]: "unat (w :: u32) < 4294967296"
  using unsigned_less [of w, where ?'a = nat] by simp

lemma drop_of_nat:
  assumes "n < 2 ^ LENGTH('a)"
  shows "drop_bit k (of_nat n :: 'a::len word) = of_nat (n div 2 ^ k)"
proof (rule unsigned_word_eqI [where ?'a = nat])
  have "n div 2 ^ k < 2 ^ LENGTH('a)" using assms by (rule le_less_trans [OF div_le_dividend])
  then show "unat (drop_bit k (of_nat n :: 'a word)) = unat (of_nat (n div 2 ^ k) :: 'a word)"
    using assms unfolding unsigned_drop_bit_eq unat_of_nat
    unfolding take_bit_eq_mod drop_bit_eq_div by simp
qed

lemmas drop_of_nat32 = drop_of_nat [where ?'a = 32, simplified]

lemmas drop_of_nat64 = drop_of_nat [where ?'a = 64, simplified]

lemma mask_of_nat:
  "k \<le> LENGTH('a) \<Longrightarrow> (of_nat n :: 'a::len word) AND mask k = of_nat (n mod 2 ^ k)"
  by (simp flip: take_bit_eq_mask take_bit_eq_mod) (simp add: bit_eq_iff bit_simps)

lemma push_of_nat: "push_bit k (of_nat n :: 'a::len word) = of_nat (2 ^ k * n)"
  by (simp add: push_bit_eq_mult mult.commute)

lemma ucast_up_of_nat: "n < 2 ^ 32 \<Longrightarrow> (ucast (of_nat n :: u32) :: u64) = of_nat n"
  by (rule unsigned_word_eqI [where ?'a = nat]) (simp add: unsigned_ucast_eq unat_of_nat take_bit_eq_mod)

lemma ucast_down_of_nat: "(ucast (of_nat n :: u64) :: u32) = of_nat n"
  by (rule unsigned_word_eqI [where ?'a = nat])
    (simp add: unsigned_ucast_eq unat_of_nat take_bit_eq_mod mod_mod_cancel)

lemma ucast_u32_u64: "(ucast (w :: u32) :: u64) = of_nat (unat w)"
  using ucast_up_of_nat [of "unat w"] by simp

lemma mask26: "(0x3ffffff :: 'a::len word) = mask 26" and mask32: "(0xffffffff :: 'a::len word) = mask 32"
  by (simp_all add: mask_eq_exp_minus_1)

text \<open>Joining disjoint bit ranges is adding.\<close>

lemma or_range:
  fixes x y :: nat
  assumes "x < 2 ^ k"
  shows "x OR 2 ^ k * y = x + 2 ^ k * y"
proof -
  have "\<not> bit x i" if "k \<le> i" for i
    using that assms by (metis bit_take_bit_iff take_bit_nat_eq_self leD)
  then have "x AND push_bit k y = 0" by (auto simp: bit_eq_iff bit_simps)
  then show ?thesis
    by (simp add: disjunctive_add_eq_or push_bit_eq_mult mult.commute)
qed

lemma store32_num: "store32_le w = nat_to_le 4 (unat w)"
proof -
  have e: "ucast (drop_bit k w) = (of_nat (unat w div 2 ^ k) :: u8)" for k
    by (rule unsigned_word_eqI [where ?'a = nat])
      (simp add: unsigned_ucast_eq unsigned_drop_bit_eq unat_of_nat, simp add: take_bit_eq_mod drop_bit_eq_div)
  have "ucast w = (of_nat (unat w) :: u8)" using e [of 0] by simp
  moreover have four: "(4 :: nat) = Suc (Suc (Suc (Suc 0)))" by simp
  have "nat_to_le 4 n = [of_nat n, of_nat (n div 256), of_nat (n div 65536), of_nat (n div 16777216)]" for n
    unfolding four by (simp add: div_mult2_eq [symmetric])
  ultimately show ?thesis
    using e [of 8] e [of 16] e [of 24] by (simp add: store32_le_def)
qed

lemma load32_num: "4 \<le> length p \<Longrightarrow> unat (load32_le p) = le_num (take 4 p)"
proof -
  assume l: "4 \<le> length p"
  let ?n = "le_num (take 4 p)"
  have "?n < 2 ^ 32" using le_num_bound [of "take 4 p"] l by simp
  then have u: "unat (of_nat ?n :: u32) = ?n" by (simp add: unat_of_nat)
  have "store32_le (of_nat ?n) = take 4 p"
    unfolding store32_num u using nat_to_le_num [of "take 4 p"] l by simp
  then have "load32_le p = of_nat ?n"
    using load32_le_store [of "of_nat ?n" "drop 4 p"] by simp
  then show ?thesis using u by simp
qed

lemma num_words:
  assumes "length d = 16"
  shows "le_num d = unat (load32_le d) + 2 ^ 32 * unat (load32_le (drop 4 d)) +
    2 ^ 64 * unat (load32_le (drop 8 d)) + 2 ^ 96 * unat (load32_le (drop 12 d))"
proof -
  have split: "le_num x = unat (load32_le x) + 2 ^ 32 * le_num (drop 4 x)" if "4 \<le> length x" for x
    using le_num_append [of "take 4 x" "drop 4 x"] that by (simp add: load32_num)
  from assms show ?thesis
    using split [of d] split [of "drop 4 d"] split [of "drop 8 d"] split [of "drop 12 d"] by simp
qed

end
