(* ===== verification/Fe25519.thy ===== *)
theory Fe25519
  imports Limbs
begin

text \<open>
  Arithmetic modulo \<open>2^255 - 19\<close> of \<open>library/crypto/monocypher.c\<close>: a field element is ten signed
  limbs of 26 and 25 bits in turn. Signed machine integers are mathematical integers here; since an
  overflow of a signed integer has no meaning in C, \<open>FieldValue\<close> shows the bounds that exclude it, with the
  values of the operations. A right shift of a negative number rounds down, as the code documents.
\<close>

unbundle bit_operations_syntax

section \<open>Model\<close>

type_synonym fe = "int list"

definition sqrtm1 :: fe where
  "sqrtm1 = [-32595792, -7943725, 9377950, 3500415, 12389472, -272473, -25146209, -2005654, 326686, 11406482]"

definition fe_0 :: fe where
  "fe_0 = replicate 10 0"

definition fe_1 :: fe where
  "fe_1 = 1 # replicate 9 0"

definition fe_neg :: "fe \<Rightarrow> fe" where
  "fe_neg f = map uminus f"

definition fe_add :: "fe \<Rightarrow> fe \<Rightarrow> fe" where
  "fe_add f g = map2 (+) f g"

definition fe_sub :: "fe \<Rightarrow> fe \<Rightarrow> fe" where
  "fe_sub f g = map2 (-) f g"

definition fe_cswap :: "fe \<Rightarrow> fe \<Rightarrow> int \<Rightarrow> fe \<times> fe" where
  "fe_cswap f g b =
     (let mask = - b;
          x = map2 (\<lambda>a c. (a XOR c) AND mask) f g
      in (map2 (XOR) f x, map2 (XOR) g x))"

definition fe_ccopy :: "fe \<Rightarrow> fe \<Rightarrow> int \<Rightarrow> fe" where
  "fe_ccopy f g b =
     (let mask = - b;
          x = map2 (\<lambda>a c. (a XOR c) AND mask) f g
      in map2 (XOR) f x)"

text \<open>The carries of the macro \<open>FE_CARRY\<close>, with a limb of 26 or 25 bits.\<close>

definition carry26 :: "int \<Rightarrow> int" where
  "carry26 t = drop_bit 26 (t + 2 ^ 25)"

definition carry25 :: "int \<Rightarrow> int" where
  "carry25 t = drop_bit 25 (t + 2 ^ 24)"

definition FE_CARRY :: "int \<Rightarrow> int \<Rightarrow> int \<Rightarrow> int \<Rightarrow> int \<Rightarrow> int \<Rightarrow> int \<Rightarrow> int \<Rightarrow> int \<Rightarrow> int \<Rightarrow> fe" where
  "FE_CARRY t0 t1 t2 t3 t4 t5 t6 t7 t8 t9 =
     (let c = carry26 t0; t0 = t0 - c * 2 ^ 26; t1 = t1 + c;
          c = carry26 t4; t4 = t4 - c * 2 ^ 26; t5 = t5 + c;
          c = carry25 t1; t1 = t1 - c * 2 ^ 25; t2 = t2 + c;
          c = carry25 t5; t5 = t5 - c * 2 ^ 25; t6 = t6 + c;
          c = carry26 t2; t2 = t2 - c * 2 ^ 26; t3 = t3 + c;
          c = carry26 t6; t6 = t6 - c * 2 ^ 26; t7 = t7 + c;
          c = carry25 t3; t3 = t3 - c * 2 ^ 25; t4 = t4 + c;
          c = carry25 t7; t7 = t7 - c * 2 ^ 25; t8 = t8 + c;
          c = carry26 t4; t4 = t4 - c * 2 ^ 26; t5 = t5 + c;
          c = carry26 t8; t8 = t8 - c * 2 ^ 26; t9 = t9 + c;
          c = carry25 t9; t9 = t9 - c * 2 ^ 25; t0 = t0 + c * 19;
          c = carry26 t0; t0 = t0 - c * 2 ^ 26; t1 = t1 + c
      in [t0, t1, t2, t3, t4, t5, t6, t7, t8, t9])"

definition load24_le :: "bytes \<Rightarrow> u32" where
  "load24_le s = ucast (s ! 0) OR push_bit 8 (ucast (s ! 1)) OR push_bit 16 (ucast (s ! 2))"

definition fe_frombytes_mask :: "bytes \<Rightarrow> nat \<Rightarrow> fe" where
  "fe_frombytes_mask s nb_mask =
     (let mask = drop_bit nb_mask 0xffffff :: u32;
          t0 = uint (load32_le s);
          t1 = uint (push_bit 6 (load24_le (drop 4 s)));
          t2 = uint (push_bit 5 (load24_le (drop 7 s)));
          t3 = uint (push_bit 3 (load24_le (drop 10 s)));
          t4 = uint (push_bit 2 (load24_le (drop 13 s)));
          t5 = uint (load32_le (drop 16 s));
          t6 = uint (push_bit 7 (load24_le (drop 20 s)));
          t7 = uint (push_bit 5 (load24_le (drop 23 s)));
          t8 = uint (push_bit 4 (load24_le (drop 26 s)));
          t9 = uint (push_bit 2 (load24_le (drop 29 s) AND mask))
      in FE_CARRY t0 t1 t2 t3 t4 t5 t6 t7 t8 t9)"

definition fe_frombytes :: "bytes \<Rightarrow> fe" where
  "fe_frombytes s = fe_frombytes_mask s 1"

text \<open>The quotient of \<open>fe_tobytes\<close>, the reduction with it, and the packing of the limbs.\<close>

definition tobytes_q :: "fe \<Rightarrow> int" where
  "tobytes_q t =
     fold (\<lambda>i q. drop_bit 25 (drop_bit 26 (q + t ! (2 * i)) + t ! (2 * i + 1))) [0..<5]
       (drop_bit 25 (19 * t ! 9 + 2 ^ 24))"

definition tobytes_reduce :: "fe \<Rightarrow> int \<Rightarrow> fe \<times> int" where
  "tobytes_reduce t q =
     fold (\<lambda>i (t, q).
         let t = t[i * 2 := t ! (i * 2) + q]; q = drop_bit 26 (t ! (i * 2)); t = t[i * 2 := t ! (i * 2) - q * 2 ^ 26];
             t = t[i * 2 + 1 := t ! (i * 2 + 1) + q]; q = drop_bit 25 (t ! (i * 2 + 1));
             t = t[i * 2 + 1 := t ! (i * 2 + 1) - q * 2 ^ 25]
         in (t, q)) [0..<5] (t, q)"

definition tobytes_pack :: "fe \<Rightarrow> bytes" where
  "tobytes_pack t =
     (let u = (\<lambda>i. word_of_int (t ! i) :: u32)
      in store32_le (u 0 OR push_bit 26 (u 1)) @
         store32_le (drop_bit 6 (u 1) OR push_bit 19 (u 2)) @
         store32_le (drop_bit 13 (u 2) OR push_bit 13 (u 3)) @
         store32_le (drop_bit 19 (u 3) OR push_bit 6 (u 4)) @
         store32_le (u 5 OR push_bit 25 (u 6)) @
         store32_le (drop_bit 7 (u 6) OR push_bit 19 (u 7)) @
         store32_le (drop_bit 13 (u 7) OR push_bit 12 (u 8)) @
         store32_le (drop_bit 20 (u 8) OR push_bit 6 (u 9)))"

definition fe_tobytes :: "fe \<Rightarrow> bytes" where
  "fe_tobytes h = tobytes_pack (fst (tobytes_reduce h (tobytes_q h * 19)))"

definition fe_mul_small :: "fe \<Rightarrow> int \<Rightarrow> fe" where
  "fe_mul_small f g =
     FE_CARRY (f ! 0 * g) (f ! 1 * g) (f ! 2 * g) (f ! 3 * g) (f ! 4 * g)
              (f ! 5 * g) (f ! 6 * g) (f ! 7 * g) (f ! 8 * g) (f ! 9 * g)"

definition fe_mul :: "fe \<Rightarrow> fe \<Rightarrow> fe" where
  "fe_mul f g =
     (let f0 = f ! 0; f1 = f ! 1; f2 = f ! 2; f3 = f ! 3; f4 = f ! 4;
          f5 = f ! 5; f6 = f ! 6; f7 = f ! 7; f8 = f ! 8; f9 = f ! 9;
          g0 = g ! 0; g1 = g ! 1; g2 = g ! 2; g3 = g ! 3; g4 = g ! 4;
          g5 = g ! 5; g6 = g ! 6; g7 = g ! 7; g8 = g ! 8; g9 = g ! 9;
          F1 = f1 * 2; F3 = f3 * 2; F5 = f5 * 2; F7 = f7 * 2; F9 = f9 * 2;
          G1 = g1 * 19; G2 = g2 * 19; G3 = g3 * 19;
          G4 = g4 * 19; G5 = g5 * 19; G6 = g6 * 19;
          G7 = g7 * 19; G8 = g8 * 19; G9 = g9 * 19;
          t0 = f0 * g0 + F1 * G9 + f2 * G8 + F3 * G7 + f4 * G6 + F5 * G5 + f6 * G4 + F7 * G3 +
               f8 * G2 + F9 * G1;
          t1 = f0 * g1 + f1 * g0 + f2 * G9 + f3 * G8 + f4 * G7 + f5 * G6 + f6 * G5 + f7 * G4 +
               f8 * G3 + f9 * G2;
          t2 = f0 * g2 + F1 * g1 + f2 * g0 + F3 * G9 + f4 * G8 + F5 * G7 + f6 * G6 + F7 * G5 +
               f8 * G4 + F9 * G3;
          t3 = f0 * g3 + f1 * g2 + f2 * g1 + f3 * g0 + f4 * G9 + f5 * G8 + f6 * G7 + f7 * G6 +
               f8 * G5 + f9 * G4;
          t4 = f0 * g4 + F1 * g3 + f2 * g2 + F3 * g1 + f4 * g0 + F5 * G9 + f6 * G8 + F7 * G7 +
               f8 * G6 + F9 * G5;
          t5 = f0 * g5 + f1 * g4 + f2 * g3 + f3 * g2 + f4 * g1 + f5 * g0 + f6 * G9 + f7 * G8 +
               f8 * G7 + f9 * G6;
          t6 = f0 * g6 + F1 * g5 + f2 * g4 + F3 * g3 + f4 * g2 + F5 * g1 + f6 * g0 + F7 * G9 +
               f8 * G8 + F9 * G7;
          t7 = f0 * g7 + f1 * g6 + f2 * g5 + f3 * g4 + f4 * g3 + f5 * g2 + f6 * g1 + f7 * g0 +
               f8 * G9 + f9 * G8;
          t8 = f0 * g8 + F1 * g7 + f2 * g6 + F3 * g5 + f4 * g4 + F5 * g3 + f6 * g2 + F7 * g1 +
               f8 * g0 + F9 * G9;
          t9 = f0 * g9 + f1 * g8 + f2 * g7 + f3 * g6 + f4 * g5 + f5 * g4 + f6 * g3 + f7 * g2 +
               f8 * g1 + f9 * g0
      in FE_CARRY t0 t1 t2 t3 t4 t5 t6 t7 t8 t9)"

definition fe_sq :: "fe \<Rightarrow> fe" where
  "fe_sq f =
     (let f0 = f ! 0; f1 = f ! 1; f2 = f ! 2; f3 = f ! 3; f4 = f ! 4;
          f5 = f ! 5; f6 = f ! 6; f7 = f ! 7; f8 = f ! 8; f9 = f ! 9;
          f0_2 = f0 * 2; f1_2 = f1 * 2; f2_2 = f2 * 2; f3_2 = f3 * 2;
          f4_2 = f4 * 2; f5_2 = f5 * 2; f6_2 = f6 * 2; f7_2 = f7 * 2;
          f5_38 = f5 * 38; f6_19 = f6 * 19; f7_38 = f7 * 38;
          f8_19 = f8 * 19; f9_38 = f9 * 38;
          t0 = f0 * f0 + f1_2 * f9_38 + f2_2 * f8_19 + f3_2 * f7_38 + f4_2 * f6_19 + f5 * f5_38;
          t1 = f0_2 * f1 + f2 * f9_38 + f3_2 * f8_19 + f4 * f7_38 + f5_2 * f6_19;
          t2 = f0_2 * f2 + f1_2 * f1 + f3_2 * f9_38 + f4_2 * f8_19 + f5_2 * f7_38 + f6 * f6_19;
          t3 = f0_2 * f3 + f1_2 * f2 + f4 * f9_38 + f5_2 * f8_19 + f6 * f7_38;
          t4 = f0_2 * f4 + f1_2 * f3_2 + f2 * f2 + f5_2 * f9_38 + f6_2 * f8_19 + f7 * f7_38;
          t5 = f0_2 * f5 + f1_2 * f4 + f2_2 * f3 + f6 * f9_38 + f7_2 * f8_19;
          t6 = f0_2 * f6 + f1_2 * f5_2 + f2_2 * f4 + f3_2 * f3 + f7_2 * f9_38 + f8 * f8_19;
          t7 = f0_2 * f7 + f1_2 * f6 + f2_2 * f5 + f3_2 * f4 + f8 * f9_38;
          t8 = f0_2 * f8 + f1_2 * f7_2 + f2_2 * f6 + f3_2 * f5_2 + f4 * f4 + f9 * f9_38;
          t9 = f0_2 * f9 + f1_2 * f8 + f2_2 * f7 + f3_2 * f6 + f4 * f5_2
      in FE_CARRY t0 t1 t2 t3 t4 t5 t6 t7 t8 t9)"

end
