(* ===== verification/Verify.thy ===== *)
theory Verify
  imports Limbs
begin

text \<open>
  Comparison in constant time, \<open>crypto_verify16\<close> and \<open>crypto_verify32\<close> of
  \<open>library/crypto/monocypher.c\<close>: the differences of 64-bit words are collected and turned into 0
  or -1 without a branch.
\<close>

unbundle bit_operations_syntax

section \<open>Model\<close>

text \<open>Constant-time comparison: the result is 0 or -1.\<close>

definition neq0 :: "u64 \<Rightarrow> int" where
  "neq0 diff =
     (let half = drop_bit 32 diff OR ucast (ucast diff :: u32) :: u64
      in sint (ucast ((1 AND drop_bit 32 (half - 1)) - 1) :: 32 word))"

definition x16 :: "bytes \<Rightarrow> bytes \<Rightarrow> u64" where
  "x16 a b = (load64_le a XOR load64_le b) OR (load64_le (drop 8 a) XOR load64_le (drop 8 b))"

definition x32 :: "bytes \<Rightarrow> bytes \<Rightarrow> u64" where
  "x32 a b = x16 a b OR x16 (drop 16 a) (drop 16 b)"

definition crypto_verify16 :: "bytes \<Rightarrow> bytes \<Rightarrow> int" where
  "crypto_verify16 a b = neq0 (x16 a b)"

definition crypto_verify32 :: "bytes \<Rightarrow> bytes \<Rightarrow> int" where
  "crypto_verify32 a b = neq0 (x32 a b)"

section \<open>Comparison\<close>

lemma neq0_zero: "neq0 diff = (if diff = 0 then 0 else -1)"
proof -
  define half where "half = drop_bit 32 diff OR (ucast (ucast diff :: u32) :: u64)"
  have bits: "bit half n \<longleftrightarrow> n < 32 \<and> (bit diff n \<or> bit diff (n + 32))" for n
    unfolding half_def by (auto simp: bit_simps add.commute dest: bit_imp_le_length)
  have z: "half = 0 \<longleftrightarrow> diff = 0"
  proof
    assume "half = 0"
    then have no: "\<not> (n < 32 \<and> (bit diff n \<or> bit diff (n + 32)))" for n using bits [of n] by simp
    show "diff = 0"
    proof (rule bit_word_eqI)
      fix n assume "n < LENGTH(64)"
      then show "bit diff n = bit 0 n" using no [of n] no [of "n - 32"] by (cases "n < 32") auto
    qed
  qed (simp add: half_def)
  have "take_bit 32 half = half" by (rule bit_word_eqI) (auto simp: bit_simps bits)
  then have "unat half < 2 ^ 32" by (metis take_bit_nat_less_exp unsigned_take_bit_eq)
  moreover define h where "h = unat half"
  ultimately have h: "h < 2 ^ 32" "half = of_nat h" by simp_all
  have nz: "drop_bit 32 (half - 1) = 0" if "h \<noteq> 0"
  proof -
    have "half - 1 = of_nat (h - 1)" using that h(2) by (simp add: of_nat_diff)
    then show ?thesis using drop_of_nat [of "h - 1" 32, where ?'a = 64] h(1) by simp
  qed
  show ?thesis
  proof (cases "diff = 0")
    case True
    with z show ?thesis unfolding neq0_def half_def [symmetric] Let_def by (simp add: mask_eq_exp_minus_1)
  next
    case False
    with z have "half \<noteq> 0" by simp
    then have "h \<noteq> 0" by (simp add: h_def unsigned_eq_0_iff)
    then have "drop_bit 32 (half - 1) = 0" by (rule nz)
    moreover have "(ucast (- 1 :: u64) :: u32) = - 1" by (simp add: bit_eq_iff bit_simps)
    ultimately show ?thesis using False unfolding neq0_def half_def [symmetric] Let_def by simp
  qed
qed

lemma load64_num: "8 \<le> length p \<Longrightarrow> unat (load64_le p) = le_num (take 8 p)"
proof -
  assume l: "8 \<le> length p"
  have "unat (load64_le p) = unat (load32_le p) + 2 ^ 32 * unat (load32_le (drop 4 p))"
  proof -
    have "load64_le p = of_nat (unat (load32_le p)) OR push_bit 32 (of_nat (unat (load32_le (drop 4 p))))"
      unfolding load64_le_def ucast_u32_u64 ..
    also have "\<dots> = of_nat (unat (load32_le p) OR push_bit 32 (unat (load32_le (drop 4 p))))"
      by (rule bit_word_eqI) (auto simp: bit_simps)
    also have "unat (load32_le p) OR push_bit 32 (unat (load32_le (drop 4 p))) =
        unat (load32_le p) + 2 ^ 32 * unat (load32_le (drop 4 p))"
      using or_range [of "unat (load32_le p)" 32 "unat (load32_le (drop 4 p))"]
      by (simp add: push_bit_eq_mult mult.commute)
    finally have e: "load64_le p = of_nat (unat (load32_le p) + 2 ^ 32 * unat (load32_le (drop 4 p)))" .
    have "unat (load32_le p) < 2 ^ 32" "unat (load32_le (drop 4 p)) < 2 ^ 32" by simp_all
    then have "unat (load32_le p) + 2 ^ 32 * unat (load32_le (drop 4 p)) < 2 ^ 64" by (simp del: unat_u32_less)
    then show ?thesis unfolding e unat_of_nat by simp
  qed
  also have "\<dots> = le_num (take 4 p @ take 4 (drop 4 p))"
    using l by (simp add: le_num_append load32_num)
  also have "take 4 p @ take 4 (drop 4 p) = take 8 p" by (simp flip: take_add)
  finally show ?thesis .
qed

lemma load64_inj:
  assumes "8 \<le> length p" and "8 \<le> length q"
  shows "load64_le p = load64_le q \<longleftrightarrow> take 8 p = take 8 q"
proof
  assume "load64_le p = load64_le q"
  then have "le_num (take 8 p) = le_num (take 8 q)" using load64_num assms by metis
  then show "take 8 p = take 8 q" using nat_to_le_num [of "take 8 p"] nat_to_le_num [of "take 8 q"] assms by simp
next
  assume "take 8 p = take 8 q"
  then show "load64_le p = load64_le q" using load64_num assms by (metis unsigned_word_eqI)
qed

lemma or_xor_zero: "((a :: u64) XOR b) OR (c XOR d) = 0 \<longleftrightarrow> a = b \<and> c = d"
  by (auto simp: bit_eq_iff bit_simps)

lemma eq_take_drop: "xs = ys \<longleftrightarrow> take n xs = take n ys \<and> drop n xs = drop n ys"
  by (metis append_take_drop_id)

lemma x16_zero:
  assumes "16 \<le> length a" and "16 \<le> length b"
  shows "x16 a b = 0 \<longleftrightarrow> take 16 a = take 16 b"
proof -
  have "x16 a b = 0 \<longleftrightarrow> take 8 a = take 8 b \<and> take 8 (drop 8 a) = take 8 (drop 8 b)"
    using assms load64_inj [of a b] load64_inj [of "drop 8 a" "drop 8 b"] by (simp add: x16_def or_xor_zero)
  also have "\<dots> \<longleftrightarrow> take 16 a = take 16 b"
    using eq_take_drop [of "take 16 a" "take 16 b" 8] by (simp add: drop_take)
  finally show ?thesis .
qed

lemma verify16: "length a = 16 \<Longrightarrow> length b = 16 \<Longrightarrow> crypto_verify16 a b = 0 \<longleftrightarrow> a = b"
  by (simp add: crypto_verify16_def neq0_zero x16_zero)

lemma or_zero: "(a :: u64) OR b = 0 \<longleftrightarrow> a = 0 \<and> b = 0"
  by (auto simp: bit_eq_iff bit_simps)

lemma verify32:
  assumes "length a = 32" and "length b = 32"
  shows "crypto_verify32 a b = (if a = b then 0 else -1)"
proof -
  have "x32 a b = 0 \<longleftrightarrow> take 16 a = take 16 b \<and> drop 16 a = drop 16 b"
    using assms by (simp add: x32_def or_zero x16_zero)
  then show ?thesis unfolding crypto_verify32_def neq0_zero eq_take_drop [of a b 16] by simp
qed

end
