(* ===== verification/X25519.thy ===== *)
theory X25519
  imports Fe25519 Verify
begin

text \<open>
  The X25519 key exchange of \<open>library/crypto/monocypher.c\<close>: inversion in the field by an inverse
  square root, the Montgomery ladder over the 255 bits of the scalar, and the two functions the
  handshake calls.
\<close>

unbundle bit_operations_syntax

section \<open>Model\<close>

definition fe_isequal :: "fe \<Rightarrow> fe \<Rightarrow> int" where
  "fe_isequal f g = 1 + crypto_verify32 (fe_tobytes f) (fe_tobytes g)"

text \<open>Squaring \<open>n\<close> times, the loops \<open>FOR (i, 1, n)\<close> after a first squaring.\<close>

definition fe_sqn :: "nat \<Rightarrow> fe \<Rightarrow> fe" where
  "fe_sqn n f = (fe_sq ^^ n) f"

text \<open>The power \<open>(p - 5) / 8\<close>.\<close>

definition pow_p58 :: "fe \<Rightarrow> fe" where
  "pow_p58 x =
     (let t0 = fe_sq x;
          t1 = fe_sq t0; t1 = fe_sq t1; t1 = fe_mul x t1;
          t0 = fe_mul t0 t1;
          t0 = fe_sq t0; t0 = fe_mul t1 t0;
          t1 = fe_sqn 5 t0; t0 = fe_mul t1 t0;
          t1 = fe_sqn 10 t0; t1 = fe_mul t1 t0;
          t2 = fe_sqn 20 t1; t1 = fe_mul t2 t1;
          t1 = fe_sqn 10 t1; t0 = fe_mul t1 t0;
          t1 = fe_sqn 50 t0; t1 = fe_mul t1 t0;
          t2 = fe_sqn 100 t1; t1 = fe_mul t2 t1;
          t1 = fe_sqn 50 t1; t0 = fe_mul t1 t0;
          t0 = fe_sqn 2 t0; t0 = fe_mul t0 x
      in t0)"

definition invsqrt :: "fe \<Rightarrow> fe \<times> int" where
  "invsqrt x =
     (let t0 = pow_p58 x;
          quartic = fe_sq t0;
          quartic = fe_mul quartic x;
          check = fe_0; z0 = fe_isequal x check;
          check = fe_1; p1 = fe_isequal quartic check;
          check = fe_neg check; m1 = fe_isequal quartic check;
          check = fe_neg sqrtm1; ms = fe_isequal quartic check;
          isr = fe_mul t0 sqrtm1;
          isr = fe_ccopy isr t0 (1 - (m1 OR ms))
      in (isr, p1 OR m1 OR z0))"

definition fe_invert :: "fe \<Rightarrow> fe" where
  "fe_invert x =
     (let tmp = fe_sq x;
          tmp = fst (invsqrt tmp);
          tmp = fe_sq tmp
      in fe_mul tmp x)"

definition crypto_eddsa_trim_scalar :: "bytes \<Rightarrow> bytes" where
  "crypto_eddsa_trim_scalar inp =
     (let out = take 32 inp;
          out = out[0 := out ! 0 AND 248];
          out = out[31 := out ! 31 AND 127];
          out = out[31 := out ! 31 OR 64]
      in out)"

definition scalar_bit :: "bytes \<Rightarrow> int \<Rightarrow> int" where
  "scalar_bit s i =
     (if i < 0 then 0
      else uint (drop_bit (nat (i AND 7)) (s ! nat (drop_bit 3 i)) AND 1))"

text \<open>One step of the ladder, after the conditional swap.\<close>

definition ladder_step :: "fe \<Rightarrow> fe \<times> fe \<times> fe \<times> fe \<Rightarrow> fe \<times> fe \<times> fe \<times> fe" where
  "ladder_step x1 = (\<lambda>(x2, z2, x3, z3).
     let t0 = fe_sub x3 z3;
         t1 = fe_sub x2 z2;
         x2 = fe_add x2 z2;
         z2 = fe_add x3 z3;
         z3 = fe_mul t0 x2;
         z2 = fe_mul z2 t1;
         t0 = fe_sq t1;
         t1 = fe_sq x2;
         x3 = fe_add z3 z2;
         z2 = fe_sub z3 z2;
         x2 = fe_mul t1 t0;
         t1 = fe_sub t1 t0;
         z2 = fe_sq z2;
         z3 = fe_mul_small t1 121666;
         x3 = fe_sq x3;
         t0 = fe_add t0 z3;
         z3 = fe_mul x1 z2;
         z2 = fe_mul t1 t0
     in (x2, z2, x3, z3))"

definition ladder_swap :: "fe \<times> fe \<times> fe \<times> fe \<Rightarrow> int \<Rightarrow> fe \<times> fe \<times> fe \<times> fe" where
  "ladder_swap = (\<lambda>(x2, z2, x3, z3) swap.
     let (x2, x3) = fe_cswap x2 x3 swap;
         (z2, z3) = fe_cswap z2 z3 swap
     in (x2, z2, x3, z3))"

text \<open>The loop from bit \<open>n - 1\<close> down to bit 0.\<close>

primrec ladder :: "nat \<Rightarrow> bytes \<Rightarrow> fe \<Rightarrow> (fe \<times> fe \<times> fe \<times> fe) \<times> int \<Rightarrow> (fe \<times> fe \<times> fe \<times> fe) \<times> int" where
  "ladder 0 scalar x1 st = st"
| "ladder (Suc n) scalar x1 st =
     (let (pts, swap) = st;
          b = scalar_bit scalar (int n);
          swap = swap XOR b;
          pts = ladder_swap pts swap;
          swap = b
      in ladder n scalar x1 (ladder_step x1 pts, swap))"

definition scalarmult :: "bytes \<Rightarrow> bytes \<Rightarrow> nat \<Rightarrow> bytes" where
  "scalarmult scalar p nb_bits =
     (let x1 = fe_frombytes p;
          (pts, swap) = ladder nb_bits scalar x1 ((fe_1, fe_0, x1, fe_1), 0);
          (x2, z2, x3, z3) = ladder_swap pts swap;
          z2 = fe_invert z2;
          x2 = fe_mul x2 z2
      in fe_tobytes x2)"

definition crypto_x25519 :: "bytes \<Rightarrow> bytes \<Rightarrow> bytes" where
  "crypto_x25519 your_secret_key their_public_key =
     scalarmult (crypto_eddsa_trim_scalar your_secret_key) their_public_key 255"

definition crypto_x25519_public_key :: "bytes \<Rightarrow> bytes" where
  "crypto_x25519_public_key secret_key = crypto_x25519 secret_key (9 # replicate 31 0)"

end
