(* ===== verification/Platform.thy ===== *)
theory Platform
  imports State X25519
begin

text \<open>
  The socket layer, clock and random numbers of \<open>src/platform_switch.c\<close>. Without a relay the code
  uses a UDP socket; with one, packets leave through the relay function and arrive in the ring of
  \<open>Ring\<close>. What the operating system returns comes from the world.
\<close>

unbundle bit_operations_syntax

section \<open>Model\<close>

definition wg_time_now :: "world \<Rightarrow> u64 \<times> world" where
  "wg_time_now w = (ticks w (tick_pos w), w\<lparr>tick_pos := Suc (tick_pos w)\<rparr>)"

definition wg_set_relay_send :: "bool \<Rightarrow> world \<Rightarrow> world" where
  "wg_set_relay_send send_fn w = w\<lparr>relay_send := send_fn\<rparr>"

text \<open>\<open>fd\<close> is what \<open>socket\<close> returns; the options set on the socket are not observable here.\<close>

definition wg_socket_open :: "int \<Rightarrow> WgTunnel \<Rightarrow> world \<Rightarrow> WgError \<times> WgTunnel" where
  "wg_socket_open fd tun w =
     (if relay_send w then (WG_OK, tun\<lparr>socket_fd := 0\<rparr>)
      else
        (let tun = tun\<lparr>socket_fd := fd\<rparr>
         in if socket_fd tun < 0 then (WG_ERR_SOCKET, tun) else (WG_OK, tun)))"

text \<open>At most \<open>n\<close> attempts; \<open>EAGAIN\<close> is tried again.\<close>

primrec send_retry :: "nat \<Rightarrow> sockaddr_in \<Rightarrow> bytes \<Rightarrow> world \<Rightarrow> int \<times> world" where
  "send_retry 0 addr data w = (err_code WG_ERR_SOCKET, w)"
| "send_retry (Suc n) addr data w =
     (let out = sendto_outcomes w (sendto_pos w);
          w = w\<lparr>sendto_pos := Suc (sendto_pos w)\<rparr>
      in case out of
           Sent k \<Rightarrow> (int k, w\<lparr>sent_log := sent_log w @ [ToEndpoint addr data]\<rparr>)
         | SendError \<Rightarrow> (err_code WG_ERR_SOCKET, w)
         | SendAgain \<Rightarrow> send_retry n addr data w)"

definition wg_socket_send :: "WgTunnel \<Rightarrow> bytes \<Rightarrow> world \<Rightarrow> int \<times> world" where
  "wg_socket_send tun data w =
     (if relay_send w then (int (length data), w\<lparr>sent_log := sent_log w @ [ToRelay None data]\<rparr>)
      else send_retry 10 (endpoint tun) data w)"

definition wg_socket_send_to :: "WgTunnel \<Rightarrow> bytes option \<Rightarrow> bytes \<Rightarrow> world \<Rightarrow> int \<times> world" where
  "wg_socket_send_to tun hash data w =
     (if relay_send w then (int (length data), w\<lparr>sent_log := sent_log w @ [ToRelay hash data]\<rparr>)
      else (err_code WG_ERR_SOCKET, w))"

text \<open>
  Receiving into \<open>buf\<close>: the number of bytes or an error, and the new buffer. \<open>None\<close>: the ring was
  watched to the end of its views and the deadline never passed.
\<close>

definition wg_socket_recv ::
  "WgTunnel \<Rightarrow> bytes \<Rightarrow> nat \<Rightarrow> int \<Rightarrow> world \<Rightarrow> ((WgError + nat) \<times> bytes \<times> WgTunnel \<times> world) option" where
  "wg_socket_recv tun buf len timeout_ms w =
     (if relay_send w
      then
        (let (now, w) = wg_time_now w;
             deadline = now + of_int timeout_ms * 1000000;
             views = ring_views w (view_pos w);
             w = w\<lparr>view_pos := Suc (view_pos w)\<rparr>
         in case relay_recv deadline len (rseq w) views of
              None \<Rightarrow> None
            | Some (Inl e, r) \<Rightarrow> Some (Inl e, buf, tun, w\<lparr>rseq := r\<rparr>)
            | Some (Inr data, r) \<Rightarrow> Some (Inr (length data), memcpy_at buf 0 data, tun, w\<lparr>rseq := r\<rparr>))
      else
        (let out = udp_outcomes w (udp_pos w);
             w = w\<lparr>udp_pos := Suc (udp_pos w)\<rparr>
         in if poll_ret out < 0 then Some (Inl WG_ERR_SOCKET, buf, tun, w)
            else if poll_ret out = 0 then Some (Inl WG_ERR_TIMEOUT, buf, tun, w)
            else if \<not> pollin out then Some (Inl WG_ERR_SOCKET, buf, tun, w)
            else
              (case datagram out of
                 None \<Rightarrow> Some (Inl WG_ERR_SOCKET, buf, tun, w)
               | Some (data, src) \<Rightarrow>
                   Some (Inr (length (take len data)), memcpy_at buf 0 (take len data),
                         tun\<lparr>recv_src := src, recv_src_valid := True\<rparr>, w))))"

definition wg_update_endpoint_from_recv :: "WgTunnel \<Rightarrow> WgTunnel" where
  "wg_update_endpoint_from_recv tun =
     (if recv_src_valid tun then tun\<lparr>endpoint := recv_src tun, recv_src_valid := False\<rparr> else tun)"

definition wg_socket_close :: "WgTunnel \<Rightarrow> WgTunnel" where
  "wg_socket_close tun = (if 0 \<le> socket_fd tun then tun\<lparr>socket_fd := -1\<rparr> else tun)"

definition wg_random_u32 :: "world \<Rightarrow> u32 \<times> world" where
  "wg_random_u32 w = (let (b, w) = randomGet 4 w in (load32_le b, w))"

definition wg_random_index :: "world \<Rightarrow> u32 \<times> world" where
  "wg_random_index w = wg_random_u32 w"

text \<open>The clamping of a fresh private key.\<close>

definition clamp_key :: "bytes \<Rightarrow> bytes" where
  "clamp_key k =
     (let k = k[0 := k ! 0 AND 248];
          k = k[31 := k ! 31 AND 127];
          k = k[31 := k ! 31 OR 64]
      in k)"

definition wg_generate_keypair :: "world \<Rightarrow> (bytes \<times> bytes) \<times> world" where
  "wg_generate_keypair w =
     (let (private_key, w) = randomGet 32 w;
          private_key = clamp_key private_key
      in ((private_key, crypto_x25519_public_key private_key), w))"

definition AF_INET :: u16 where "AF_INET = 2"

definition htons :: "u16 \<Rightarrow> u16" where
  "htons x = push_bit 8 x OR drop_bit 8 x"

text \<open>
  \<open>getaddrinfo\<close> is a parameter: an error code, and the first result with its address family, if
  any. The loopback address is stored in network byte order.
\<close>

definition wg_resolve_endpoint ::
  "(string option \<Rightarrow> u16 \<Rightarrow> int \<times> sockaddr_in option) \<Rightarrow> WgTunnel \<Rightarrow> string option \<Rightarrow> u16 \<Rightarrow> WgError \<times> WgTunnel" where
  "wg_resolve_endpoint getaddrinfo tun host port =
     (if host = Some ''127.0.0.1''
      then (WG_OK, tun\<lparr>endpoint := \<lparr>sin_family = AF_INET, sin_port = htons port, s_addr = 0x0100007f\<rparr>\<rparr>)
      else
        (let (err, result) = getaddrinfo host port
         in if err \<noteq> 0 then (WG_ERR_SOCKET, tun)
            else
              (case result of
                 Some a \<Rightarrow> if sin_family a = AF_INET then (WG_OK, tun\<lparr>endpoint := a\<rparr>) else (WG_ERR_SOCKET, tun)
               | None \<Rightarrow> (WG_ERR_SOCKET, tun))))"

section \<open>Facts\<close>

lemma clamp_key_length [simp, bytes_len]: "length (clamp_key k) = length k"
  by (simp add: clamp_key_def Let_def)

end
