(* ===== verification/Peers.thy ===== *)
theory Peers
  imports State
begin

text \<open>
  The peer table of a tunnel, \<open>src/wireguard.c\<close>: adding a peer and the three searches, by tunnel
  address, by session index and by public key. The searches share one contract, the first match in
  the table, from which the effect of adding a peer follows for all of them.
\<close>

section \<open>Model\<close>

definition wg_add_peer ::
  "WgTunnel option \<Rightarrow> bytes \<Rightarrow> bytes \<Rightarrow> u32 \<Rightarrow> nat option \<times> WgTunnel option" where
  "wg_add_peer t key hash ip =
     (case t of
        None \<Rightarrow> (None, None)
      | Some tun \<Rightarrow>
          if WG_MAX_PEERS \<le> peer_count tun then (None, Some tun)
          else
            (let i = peer_count tun;
                 peer = zero_peer\<lparr>public_key := take 32 key, relay_hash := take WG_RELAY_HASH_LEN hash,
                          ip_raw := ip, p_tunnel_ip := ip, configured := True, connected := False\<rparr>;
                 tun = set_peer tun i peer;
                 tun = tun\<lparr>peer_count := peer_count tun + 1\<rparr>
             in (Some i, Some tun)))"

definition wg_find_peer_by_ip :: "WgTunnel option \<Rightarrow> u32 \<Rightarrow> nat option" where
  "wg_find_peer_by_ip t ip =
     (case t of
        None \<Rightarrow> None
      | Some tun \<Rightarrow>
          find (\<lambda>i. configured (peers tun ! i) \<and> ip_raw (peers tun ! i) = ip) [0..<peer_count tun])"

definition wg_find_peer_by_local_index :: "WgTunnel option \<Rightarrow> u32 \<Rightarrow> nat option" where
  "wg_find_peer_by_local_index t idx =
     (case t of
        None \<Rightarrow> None
      | Some tun \<Rightarrow>
          find (\<lambda>i. let p = peers tun ! i
                    in configured p \<and> valid (p_session p) \<and> local_index (p_session p) = idx \<or>
                       configured p \<and> valid (p_prev_session p) \<and> local_index (p_prev_session p) = idx)
               [0..<peer_count tun])"

definition wg_find_peer_by_public_key :: "WgTunnel option \<Rightarrow> bytes \<Rightarrow> nat option" where
  "wg_find_peer_by_public_key t key =
     (case t of
        None \<Rightarrow> None
      | Some tun \<Rightarrow>
          find (\<lambda>i. configured (peers tun ! i) \<and> take 32 (public_key (peers tun ! i)) = take 32 key)
               [0..<peer_count tun])"

section \<open>The table\<close>

definition table_ok :: "WgTunnel \<Rightarrow> bool" where
  "table_ok tun \<longleftrightarrow> length (peers tun) = WG_MAX_PEERS \<and> peer_count tun \<le> WG_MAX_PEERS"

text \<open>A search: the index of the first of the peers in use that matches.\<close>

locale peer_search =
  fixes lookup :: "WgTunnel option \<Rightarrow> 'k \<Rightarrow> nat option"
    and matches :: "'k \<Rightarrow> WgPeer \<Rightarrow> bool"
  assumes lookup_null: "lookup None k = None"
    and lookup_first: "lookup (Some tun) k = find (\<lambda>i. matches k (peers tun ! i)) [0..<peer_count tun]"
begin

lemma lookup_Some:
  "lookup (Some tun) k = Some i \<longleftrightarrow>
     i < peer_count tun \<and> matches k (peers tun ! i) \<and> (\<forall>j<i. \<not> matches k (peers tun ! j))"
  unfolding lookup_first by (auto simp: find_Some_iff)

lemma lookup_None: "lookup (Some tun) k = None \<longleftrightarrow> (\<forall>i<peer_count tun. \<not> matches k (peers tun ! i))"
  unfolding lookup_first by (auto simp: find_None_iff)

lemma lookup_bound: "table_ok tun \<Longrightarrow> lookup (Some tun) k = Some i \<Longrightarrow> i < length (peers tun)"
  by (auto simp: lookup_Some table_ok_def)

lemma lookup_add:
  assumes "table_ok tun" and "wg_add_peer (Some tun) key hash ip = (Some n, Some tun')"
  shows "lookup (Some tun') k =
    (case lookup (Some tun) k of
       Some i \<Rightarrow> Some i
     | None \<Rightarrow> if matches k (peers tun' ! n) then Some n else None)"
proof -
  have old: "peers tun' ! i = peers tun ! i" if "i < n" for i
    using assms that by (auto simp: wg_add_peer_def Let_def set_peer_def wg_consts split: if_splits)
  have bnd: "n = peer_count tun" "peer_count tun' = Suc n"
    using assms by (auto simp: wg_add_peer_def Let_def set_peer_def wg_consts split: if_splits)
  show ?thesis
  proof (cases "lookup (Some tun) k")
    case None
    then have "\<forall>i<n. \<not> matches k (peers tun' ! i)" using old bnd by (auto simp: lookup_None)
    then have "lookup (Some tun') k = (if matches k (peers tun' ! n) then Some n else None)"
      using bnd by (auto simp: lookup_None lookup_Some less_Suc_eq)
    then show ?thesis using None by simp
  next
    case (Some i)
    then have "i < n" "matches k (peers tun' ! i)" "\<forall>j<i. \<not> matches k (peers tun' ! j)"
      using old bnd by (auto simp: lookup_Some)
    then have "lookup (Some tun') k = Some i" using bnd by (auto simp: lookup_Some)
    then show ?thesis using Some by simp
  qed
qed

end

definition ip_matches :: "u32 \<Rightarrow> WgPeer \<Rightarrow> bool" where
  "ip_matches ip p \<longleftrightarrow> configured p \<and> ip_raw p = ip"

definition index_matches :: "u32 \<Rightarrow> WgPeer \<Rightarrow> bool" where
  "index_matches idx p \<longleftrightarrow>
     configured p \<and> valid (p_session p) \<and> local_index (p_session p) = idx \<or>
     configured p \<and> valid (p_prev_session p) \<and> local_index (p_prev_session p) = idx"

definition key_matches :: "bytes \<Rightarrow> WgPeer \<Rightarrow> bool" where
  "key_matches key p \<longleftrightarrow> configured p \<and> take 32 (public_key p) = take 32 key"

interpretation by_ip: peer_search wg_find_peer_by_ip ip_matches
  by unfold_locales (simp_all add: wg_find_peer_by_ip_def ip_matches_def)

interpretation by_index: peer_search wg_find_peer_by_local_index index_matches
  by unfold_locales (simp_all add: wg_find_peer_by_local_index_def index_matches_def Let_def)

interpretation by_key: peer_search wg_find_peer_by_public_key key_matches
  by unfold_locales (simp_all add: wg_find_peer_by_public_key_def key_matches_def)

lemma table_ok_add:
  assumes "table_ok tun" and "wg_add_peer (Some tun) key hash ip = (r, Some tun')"
  shows "table_ok tun'"
  using assms by (auto simp: wg_add_peer_def table_ok_def set_peer_def Let_def split: if_splits)

section \<open>Properties\<close>

text \<open>
  C28: Adding a peer. The table never grows past its 64 entries; a full table refuses; otherwise the new
  peer gets the next index, a search by address finds the peer that was found before, or else the
  new one for its own address, and a search by public key likewise; a search by session index is
  not affected, since the new peer has no session.
\<close>

theorem add_peer_lookup:
  assumes "table_ok tun" and "wg_add_peer (Some tun) key hash ip = (r, Some tun')"
  shows "table_ok tun' \<and>
    (r = None \<longleftrightarrow> peer_count tun = 64) \<and> (r = None \<longrightarrow> tun' = tun) \<and>
    (\<forall>n. r = Some n \<longrightarrow>
       wg_find_peer_by_ip (Some tun') ip' =
         (case wg_find_peer_by_ip (Some tun) ip' of Some i \<Rightarrow> Some i
          | None \<Rightarrow> if ip = ip' then Some n else None) \<and>
       wg_find_peer_by_public_key (Some tun') key' =
         (case wg_find_peer_by_public_key (Some tun) key' of Some i \<Rightarrow> Some i
          | None \<Rightarrow> if take 32 key = take 32 key' then Some n else None) \<and>
       wg_find_peer_by_local_index (Some tun') idx = wg_find_peer_by_local_index (Some tun) idx)"
proof -
  have full: "r = None \<longleftrightarrow> peer_count tun = 64" "r = None \<longrightarrow> tun' = tun"
    using assms by (auto simp: wg_add_peer_def table_ok_def Let_def wg_consts split: if_splits)
  have new: "configured (peers tun' ! n) \<and> ip_raw (peers tun' ! n) = ip \<and>
      take 32 (public_key (peers tun' ! n)) = take 32 key \<and>
      \<not> valid (p_session (peers tun' ! n)) \<and> \<not> valid (p_prev_session (peers tun' ! n))" if "r = Some n" for n
    using assms that
    by (auto simp: wg_add_peer_def table_ok_def set_peer_def Let_def zero_peer_def zero_session_def wg_consts split: if_splits)
  show ?thesis
  proof (intro conjI allI impI)
    fix n assume r: "r = Some n"
    note a = assms(2) [unfolded r]
    show "wg_find_peer_by_ip (Some tun') ip' =
        (case wg_find_peer_by_ip (Some tun) ip' of Some i \<Rightarrow> Some i | None \<Rightarrow> if ip = ip' then Some n else None)"
      using by_ip.lookup_add [OF assms(1) a, of ip'] new [OF r] by (simp add: ip_matches_def)
    show "wg_find_peer_by_public_key (Some tun') key' =
        (case wg_find_peer_by_public_key (Some tun) key' of Some i \<Rightarrow> Some i
         | None \<Rightarrow> if take 32 key = take 32 key' then Some n else None)"
      using by_key.lookup_add [OF assms(1) a, of key'] new [OF r] by (simp add: key_matches_def)
    show "wg_find_peer_by_local_index (Some tun') idx = wg_find_peer_by_local_index (Some tun) idx"
      using by_index.lookup_add [OF assms(1) a, of idx] new [OF r]
      by (simp add: index_matches_def split: option.splits)
  qed (use table_ok_add [OF assms] full in auto)
qed

theorem add_peer_lookup_witness:
  "let tun = zero_tunnel; (r, t) = wg_add_peer (Some tun) (replicate 32 1) (replicate 36 2) 5
   in table_ok tun \<and> r = Some 0 \<and> wg_find_peer_by_ip t 5 = Some 0 \<and>
      wg_find_peer_by_public_key t (replicate 32 1) = Some 0 \<and> wg_find_peer_by_ip t 6 = None"
proof -
  obtain r tun' where a: "wg_add_peer (Some zero_tunnel) (replicate 32 1) (replicate 36 2) 5 = (r, Some tun')"
    by (cases "wg_add_peer (Some zero_tunnel) (replicate 32 1) (replicate 36 2) 5")
      (auto simp: wg_add_peer_def Let_def split: if_splits)
  have ok: "table_ok zero_tunnel" by (simp add: table_ok_def zero_tunnel_def)
  have z: "peer_count zero_tunnel = 0" by (simp add: zero_tunnel_def)
  then have "wg_find_peer_by_ip (Some zero_tunnel) ip = None"
    "wg_find_peer_by_public_key (Some zero_tunnel) k = None" for ip k
    by (simp_all add: wg_find_peer_by_ip_def wg_find_peer_by_public_key_def)
  moreover have "r = Some 0" using a by (simp add: wg_add_peer_def Let_def z wg_consts)
  ultimately show ?thesis
    using add_peer_lookup [OF ok a, of 5 "replicate 32 1" 0] add_peer_lookup [OF ok a, of 6 "replicate 32 1" 0] a ok
    by simp
qed

end
