(* ===== verification/ChaCha20.thy ===== *)
theory ChaCha20
  imports Bytes
begin

text \<open>
  ChaCha20, twice: the scalar code of \<open>library/crypto/monocypher.c\<close> (used for the cookie) and
  the NEON code of \<open>src/wg_chacha20_neon.c\<close> (used for every packet). The sixteen words of the
  state are a list. Both are shown to encrypt with the same key stream.
\<close>

unbundle bit_operations_syntax

section \<open>Model: the scalar code\<close>

definition rotl32 :: "u32 \<Rightarrow> nat \<Rightarrow> u32" where
  "rotl32 x n = push_bit n x XOR drop_bit (32 - n) x"

definition load32_le_buf :: "bytes \<Rightarrow> nat \<Rightarrow> u32 list" where
  "load32_le_buf src n = map (\<lambda>i. load32_le (drop (i * 4) src)) [0..<n]"

definition store32_le_buf :: "u32 list \<Rightarrow> bytes" where
  "store32_le_buf src = concat (map store32_le src)"

definition QUARTERROUND :: "nat \<Rightarrow> nat \<Rightarrow> nat \<Rightarrow> nat \<Rightarrow> u32 list \<Rightarrow> u32 list" where
  "QUARTERROUND a b c d t =
     (let t = t[a := t ! a + t ! b]; t = t[d := rotl32 (t ! d XOR t ! a) 16];
          t = t[c := t ! c + t ! d]; t = t[b := rotl32 (t ! b XOR t ! c) 12];
          t = t[a := t ! a + t ! b]; t = t[d := rotl32 (t ! d XOR t ! a) 8];
          t = t[c := t ! c + t ! d]; t = t[b := rotl32 (t ! b XOR t ! c) 7]
      in t)"

definition double_round :: "u32 list \<Rightarrow> u32 list" where
  "double_round t =
     (let t = QUARTERROUND 0 4 8 12 t;
          t = QUARTERROUND 1 5 9 13 t;
          t = QUARTERROUND 2 6 10 14 t;
          t = QUARTERROUND 3 7 11 15 t;
          t = QUARTERROUND 0 5 10 15 t;
          t = QUARTERROUND 1 6 11 12 t;
          t = QUARTERROUND 2 7 8 13 t;
          t = QUARTERROUND 3 4 9 14 t
      in t)"

definition chacha20_rounds :: "u32 list \<Rightarrow> u32 list" where
  "chacha20_rounds inp = (double_round ^^ 10) inp"

text \<open>The text \<open>expand 32-byte k\<close>.\<close>

definition chacha20_constant :: bytes where
  "chacha20_constant = [0x65, 0x78, 0x70, 0x61, 0x6e, 0x64, 0x20, 0x33,
                        0x32, 0x2d, 0x62, 0x79, 0x74, 0x65, 0x20, 0x6b]"

definition crypto_chacha20_h :: "bytes \<Rightarrow> bytes \<Rightarrow> bytes" where
  "crypto_chacha20_h key inp =
     (let block = load32_le_buf chacha20_constant 4 @ load32_le_buf key 8 @ load32_le_buf inp 4;
          block = chacha20_rounds block
      in store32_le_buf (take 4 block) @ store32_le_buf (take 4 (drop 12 block)))"

text \<open>The loop over whole blocks; the text is \<open>None\<close> for a null pointer.\<close>

primrec djb_blocks :: "nat \<Rightarrow> u32 list \<Rightarrow> bytes option \<Rightarrow> bytes \<times> u32 list \<times> bytes option" where
  "djb_blocks 0 input plain_text = ([], input, plain_text)"
| "djb_blocks (Suc n) input plain_text =
     (let pool = chacha20_rounds input;
          cipher = (case plain_text of
              Some t \<Rightarrow> concat (map (\<lambda>j. store32_le ((pool ! j + input ! j) XOR load32_le (drop (4 * j) t))) [0..<16])
            | None \<Rightarrow> concat (map (\<lambda>j. store32_le (pool ! j + input ! j)) [0..<16]));
          input = input[12 := input ! 12 + 1];
          input = (if input ! 12 = 0 then input[13 := input ! 13 + 1] else input);
          (rest, input, plain_text) = djb_blocks n input (map_option (drop 64) plain_text)
      in (cipher @ rest, input, plain_text))"

definition crypto_chacha20_djb :: "bytes option \<Rightarrow> nat \<Rightarrow> bytes \<Rightarrow> bytes \<Rightarrow> u64 \<Rightarrow> bytes \<times> u64" where
  "crypto_chacha20_djb plain_text text_size key nonce ctr =
     (let input = load32_le_buf chacha20_constant 4 @ load32_le_buf key 8 @
                  [ucast ctr, ucast (drop_bit 32 ctr)] @ load32_le_buf nonce 2;
          (cipher, input, plain_text) = djb_blocks (text_size div 64) input plain_text;
          text_size = text_size mod 64;
          tail =
            (if 0 < text_size
             then
               (let t = (case plain_text of None \<Rightarrow> replicate 128 0 | Some t \<Rightarrow> t);
                    pool = chacha20_rounds input;
                    tmp = concat (map (\<lambda>i. store32_le (pool ! i + input ! i)) [0..<16])
                in map (\<lambda>i. tmp ! i XOR t ! i) [0..<text_size])
             else [])
      in (cipher @ tail,
          ucast (input ! 12) + push_bit 32 (ucast (input ! 13)) + (if 0 < text_size then 1 else 0)))"

definition crypto_chacha20_ietf :: "bytes option \<Rightarrow> nat \<Rightarrow> bytes \<Rightarrow> bytes \<Rightarrow> u32 \<Rightarrow> bytes \<times> u32" where
  "crypto_chacha20_ietf plain_text text_size key nonce ctr =
     (let big_ctr = ucast ctr + push_bit 32 (ucast (load32_le nonce));
          (cipher, ctr') = crypto_chacha20_djb plain_text text_size key (drop 4 nonce) big_ctr
      in (cipher, ucast ctr'))"

definition crypto_chacha20_x :: "bytes option \<Rightarrow> nat \<Rightarrow> bytes \<Rightarrow> bytes \<Rightarrow> u64 \<Rightarrow> bytes \<times> u64" where
  "crypto_chacha20_x plain_text text_size key nonce ctr =
     (let sub_key = crypto_chacha20_h key nonce
      in crypto_chacha20_djb plain_text text_size sub_key (drop 16 nonce) ctr)"

section \<open>Model: the NEON code\<close>

definition rotl_neon :: "uint32x4 \<Rightarrow> nat \<Rightarrow> uint32x4" where
  "rotl_neon x n = vorrq_u32 (vshlq_n_u32 x n) (vshrq_n_u32 x (32 - n))"

definition ROTL16 :: "uint32x4 \<Rightarrow> uint32x4" where
  "ROTL16 x = vreinterpretq_u32_u16 (vrev32q_u16 (vreinterpretq_u16_u32 x))"

definition quarterround_neon :: "rows \<Rightarrow> rows" where
  "quarterround_neon = (\<lambda>(a, b, c, d).
     let a = vaddq_u32 a b; d = veorq_u32 d a; d = ROTL16 d;
         c = vaddq_u32 c d; b = veorq_u32 b c; b = rotl_neon b 12;
         a = vaddq_u32 a b; d = veorq_u32 d a; d = rotl_neon d 8;
         c = vaddq_u32 c d; b = veorq_u32 b c; b = rotl_neon b 7
     in (a, b, c, d))"

definition chacha_round_neon :: "rows \<Rightarrow> rows" where
  "chacha_round_neon rows =
     (let (row0, row1, row2, row3) = quarterround_neon rows;
          row1 = vextq_u32 row1 row1 1;
          row2 = vextq_u32 row2 row2 2;
          row3 = vextq_u32 row3 row3 3;
          (row0, row1, row2, row3) = quarterround_neon (row0, row1, row2, row3);
          row1 = vextq_u32 row1 row1 3;
          row2 = vextq_u32 row2 row2 2;
          row3 = vextq_u32 row3 row3 1
      in (row0, row1, row2, row3))"

definition chacha20_block_neon_internal :: "u32 list \<Rightarrow> u32 list" where
  "chacha20_block_neon_internal inp =
     (let row0 = vld1q_u32 inp; row1 = vld1q_u32 (drop 4 inp);
          row2 = vld1q_u32 (drop 8 inp); row3 = vld1q_u32 (drop 12 inp);
          orig0 = row0; orig1 = row1; orig2 = row2; orig3 = row3;
          (row0, row1, row2, row3) = (chacha_round_neon ^^ 10) (row0, row1, row2, row3)
      in v4_list (vaddq_u32 row0 orig0) @ v4_list (vaddq_u32 row1 orig1) @
         v4_list (vaddq_u32 row2 orig2) @ v4_list (vaddq_u32 row3 orig3))"

definition neon_state :: "bytes \<Rightarrow> bytes \<Rightarrow> u32 \<Rightarrow> u32 list" where
  "neon_state key nonce counter =
     [0x61707865, 0x3320646e, 0x79622d32, 0x6b206574,
      load32_le key, load32_le (drop 4 key), load32_le (drop 8 key), load32_le (drop 12 key),
      load32_le (drop 16 key), load32_le (drop 20 key), load32_le (drop 24 key), load32_le (drop 28 key),
      counter, load32_le nonce, load32_le (drop 4 nonce), load32_le (drop 8 nonce)]"

definition wg_chacha20_block_neon :: "bytes \<Rightarrow> bytes \<Rightarrow> u32 \<Rightarrow> bytes" where
  "wg_chacha20_block_neon key nonce counter =
     concat (map store32_le (chacha20_block_neon_internal (neon_state key nonce counter)))"

text \<open>A register in memory: four little-endian words.\<close>

definition vld1q_mem :: "bytes \<Rightarrow> uint32x4" where
  "vld1q_mem p = V4 (load32_le p) (load32_le (drop 4 p)) (load32_le (drop 8 p)) (load32_le (drop 12 p))"

definition vst1q_mem :: "uint32x4 \<Rightarrow> bytes" where
  "vst1q_mem v = concat (map store32_le (v4_list v))"

definition xor_block_neon :: "bytes \<Rightarrow> u32 list \<Rightarrow> bytes" where
  "xor_block_neon inp block =
     vst1q_mem (veorq_u32 (vld1q_mem inp) (vld1q_u32 block)) @
     vst1q_mem (veorq_u32 (vld1q_mem (drop 16 inp)) (vld1q_u32 (drop 4 block))) @
     vst1q_mem (veorq_u32 (vld1q_mem (drop 32 inp)) (vld1q_u32 (drop 8 block))) @
     vst1q_mem (veorq_u32 (vld1q_mem (drop 48 inp)) (vld1q_u32 (drop 12 block)))"

function wg_chacha20_neon :: "bytes \<Rightarrow> bytes \<Rightarrow> bytes \<Rightarrow> u32 \<Rightarrow> bytes" where
  "wg_chacha20_neon inp key nonce counter =
     (if 64 \<le> length inp
      then
        (let block = chacha20_block_neon_internal (neon_state key nonce counter)
         in xor_block_neon inp block @ wg_chacha20_neon (drop 64 inp) key nonce (counter + 1))
      else if 0 < length inp
      then
        (let block = chacha20_block_neon_internal (neon_state key nonce counter);
             keystream = concat (map store32_le block)
         in map (\<lambda>i. inp ! i XOR keystream ! i) [0..<length inp])
      else [])"
  by pat_completeness auto
termination
  by (relation "measure (\<lambda>(inp, key, nonce, counter). length inp)") auto

declare wg_chacha20_neon.simps [simp del]

definition wg_chacha20_neon_available :: bool where
  "wg_chacha20_neon_available = True"

section \<open>The two block functions agree\<close>

definition qr1 :: "u32 \<Rightarrow> u32 \<Rightarrow> u32 \<Rightarrow> u32 \<Rightarrow> nat \<Rightarrow> nat \<Rightarrow> u32 \<times> u32 \<times> u32 \<times> u32" where
  "qr1 a b c d m n =
     (let a = a + b; d = rotl32 (d XOR a) m; c = c + d; b = rotl32 (b XOR c) n in (a, b, c, d))"

definition qr :: "u32 \<Rightarrow> u32 \<Rightarrow> u32 \<Rightarrow> u32 \<Rightarrow> u32 \<times> u32 \<times> u32 \<times> u32" where
  "qr a b c d = (let (a, b, c, d) = qr1 a b c d 16 12 in qr1 a b c d 8 7)"

definition qra where "qra a b c d = fst (qr a b c d)"
definition qrb where "qrb a b c d = fst (snd (qr a b c d))"
definition qrc where "qrc a b c d = fst (snd (snd (qr a b c d)))"
definition qrd where "qrd a b c d = snd (snd (snd (qr a b c d)))"

lemmas qr_defs = qra_def qrb_def qrc_def qrd_def qr_def qr1_def Let_def

lemma QUARTERROUND_qr:
  assumes "a < length v" "b < length v" "c < length v" "d < length v" "distinct [a, b, c, d]"
  shows "QUARTERROUND a b c d v =
    v[a := qra (v ! a) (v ! b) (v ! c) (v ! d), b := qrb (v ! a) (v ! b) (v ! c) (v ! d),
      c := qrc (v ! a) (v ! b) (v ! c) (v ! d), d := qrd (v ! a) (v ! b) (v ! c) (v ! d)]"
  by (rule nth_equalityI) (use assms in \<open>auto simp: QUARTERROUND_def qr_defs nth_list_update\<close>)

text \<open>Shifting in opposite directions leaves disjoint bits, joined alike by \<open>XOR\<close> and \<open>OR\<close>.\<close>

lemma rotl_or:
  assumes "0 < n" and "n < 32"
  shows "push_bit n x XOR drop_bit (32 - n) x = push_bit n x OR drop_bit (32 - n) (x :: u32)"
proof (rule bit_word_eqI)
  fix k assume "k < LENGTH(32)"
  then show "bit (push_bit n x XOR drop_bit (32 - n) x) k = bit (push_bit n x OR drop_bit (32 - n) x) k"
    using assms by (cases "k < n") (auto simp: bit_simps)
qed

lemma rotl_neon_lanes:
  "ROTL16 (V4 a b c d) = V4 (rotl32 a 16) (rotl32 b 16) (rotl32 c 16) (rotl32 d 16)"
  "0 < n \<Longrightarrow> n < 32 \<Longrightarrow>
   rotl_neon (V4 a b c d) n = V4 (rotl32 a n) (rotl32 b n) (rotl32 c n) (rotl32 d n)"
  using rotl_or [of 16]
  by (simp_all only: ROTL16_def vrev32_rot16 rotl_neon_def)
    (simp_all add: rotl32_def rotl_or or.commute)

lemma quarterround_neon_qr:
  "quarterround_neon (V4 a0 a1 a2 a3, V4 b0 b1 b2 b3, V4 c0 c1 c2 c3, V4 d0 d1 d2 d3) =
   (V4 (qra a0 b0 c0 d0) (qra a1 b1 c1 d1) (qra a2 b2 c2 d2) (qra a3 b3 c3 d3),
    V4 (qrb a0 b0 c0 d0) (qrb a1 b1 c1 d1) (qrb a2 b2 c2 d2) (qrb a3 b3 c3 d3),
    V4 (qrc a0 b0 c0 d0) (qrc a1 b1 c1 d1) (qrc a2 b2 c2 d2) (qrc a3 b3 c3 d3),
    V4 (qrd a0 b0 c0 d0) (qrd a1 b1 c1 d1) (qrd a2 b2 c2 d2) (qrd a3 b3 c3 d3))"
  by (simp add: quarterround_neon_def qr_defs rotl_neon_lanes)

lemma round_neon_scalar: "double_round (rows_list rows) = rows_list (chacha_round_neon rows)"
proof -
  obtain a0 a1 a2 a3 b0 b1 b2 b3 c0 c1 c2 c3 d0 d1 d2 d3
    where rows: "rows = (V4 a0 a1 a2 a3, V4 b0 b1 b2 b3, V4 c0 c1 c2 c3, V4 d0 d1 d2 d3)"
    by (metis prod_cases4 uint32x4.exhaust)
  show ?thesis
    by (simp add: rows double_round_def QUARTERROUND_qr chacha_round_neon_def quarterround_neon_qr
        rows_list_def v4_list_def Let_def)
qed

lemma rounds_neon_scalar:
  "(double_round ^^ n) (rows_list rows) = rows_list ((chacha_round_neon ^^ n) rows)"
  by (induction n) (simp_all add: round_neon_scalar)

lemma vld1q_rows:
  "length v = 16 \<Longrightarrow>
   rows_list (vld1q_u32 v, vld1q_u32 (drop 4 v), vld1q_u32 (drop 8 v), vld1q_u32 (drop 12 v)) = v"
  by (rule nth_equalityI)
    (auto simp: rows_list_def v4_list_def vld1q_u32_def nth_append nth_Cons' less_Suc_eq numeral_eq_Suc)

text \<open>The words of a key stream block.\<close>

definition ks_words :: "u32 list \<Rightarrow> u32 list" where
  "ks_words st = map2 (+) (chacha20_rounds st) st"

lemma QUARTERROUND_length [simp]: "length (QUARTERROUND a b c d v) = length v"
  by (simp add: QUARTERROUND_def Let_def)

lemma double_round_length [simp]: "length (double_round v) = length v"
  by (simp add: double_round_def Let_def)

lemma rounds_length [simp]: "length (chacha20_rounds v) = length v"
proof -
  have "length ((double_round ^^ n) v) = length v" for n by (induction n) simp_all
  then show ?thesis by (simp add: chacha20_rounds_def)
qed

lemma ks_words_length [simp]: "length (ks_words st) = length st"
  by (simp add: ks_words_def)

lemma block_neon_scalar:
  assumes "length st = 16"
  shows "chacha20_block_neon_internal st = ks_words st"
proof -
  let ?r = "(vld1q_u32 st, vld1q_u32 (drop 4 st), vld1q_u32 (drop 8 st), vld1q_u32 (drop 12 st))"
  have st: "rows_list ?r = st" using assms by (rule vld1q_rows)
  obtain q0 q1 q2 q3 where q: "(chacha_round_neon ^^ 10) ?r = (q0, q1, q2, q3)" by (metis prod_cases4)
  have "chacha20_rounds st = rows_list (q0, q1, q2, q3)"
    using rounds_neon_scalar [of 10 ?r] unfolding st q chacha20_rounds_def .
  then have "ks_words st = map2 (+) (rows_list (q0, q1, q2, q3)) (rows_list ?r)"
    unfolding st ks_words_def by simp
  also have "\<dots> = chacha20_block_neon_internal st"
    unfolding chacha20_block_neon_internal_def Let_def q split
    by (cases q0; cases q1; cases q2; cases q3) (simp add: rows_list_def v4_list_def vld1q_u32_def)
  finally show ?thesis ..
qed

section \<open>Encryption with a key stream\<close>

text \<open>\<open>chacha_stream blk c m\<close>: \<open>m\<close> combined with the 64-byte blocks \<open>blk c\<close>, \<open>blk (c + 1)\<close>, ...\<close>

function chacha_stream :: "(nat \<Rightarrow> bytes) \<Rightarrow> nat \<Rightarrow> bytes \<Rightarrow> bytes" where
  "chacha_stream blk c m =
     (if m = [] then [] else xor_bytes (take 64 m) (blk c) @ chacha_stream blk (c + 1) (drop 64 m))"
  by pat_completeness auto
termination
  by (relation "measure (\<lambda>(blk, c, m). length m)") auto

declare chacha_stream.simps [simp del]

lemma chacha_stream_Nil [simp]: "chacha_stream blk c [] = []"
  by (simp add: chacha_stream.simps)

lemma chacha_stream_length [simp, bytes_len]:
  "(\<And>i. length (blk i) = 64) \<Longrightarrow> length (chacha_stream blk c m) = length m"
proof (induction blk c m rule: chacha_stream.induct)
  case (1 blk c m)
  then show ?case by (subst chacha_stream.simps) (cases "m = []"; auto)
qed

text \<open>Encrypting twice gives the text back.\<close>

lemma chacha_stream_twice:
  "(\<And>i. length (blk i) = 64) \<Longrightarrow> chacha_stream blk c (chacha_stream blk c m) = m"
proof (induction blk c m rule: chacha_stream.induct)
  case (1 blk c m)
  show ?case
  proof (cases "m = []")
    case False
    let ?x = "xor_bytes (take 64 m) (blk c)" and ?r = "chacha_stream blk (c + 1) (drop 64 m)"
    have m: "chacha_stream blk c m = ?x @ ?r" and ne: "?x @ ?r \<noteq> []"
      using False 1(2) [of c] by (auto simp: chacha_stream.simps [of blk c m] xor_bytes_def)
    have td: "take 64 (?x @ ?r) = ?x" "drop 64 (?x @ ?r) = ?r"
      using 1(2) by (cases "64 \<le> length m"; simp)+
    have "chacha_stream blk c (?x @ ?r) = xor_bytes ?x (blk c) @ chacha_stream blk (c + 1) ?r"
      using chacha_stream.simps [of blk c "?x @ ?r"] ne unfolding td by auto
    also have "xor_bytes ?x (blk c) = take 64 m" using 1(2) [of c] by (simp add: xor_bytes_twice)
    also have "chacha_stream blk (c + 1) ?r = drop 64 m" by (rule 1(1) [OF False 1(2)])
    finally show ?thesis by (simp add: m)
  qed simp
qed

lemma chacha_stream_cong:
  "(\<And>i. c \<le> i \<Longrightarrow> 64 * (i - c) < length m \<Longrightarrow> f i = g i) \<Longrightarrow> chacha_stream f c m = chacha_stream g c m"
proof (induction f c m rule: chacha_stream.induct)
  case (1 f c m)
  show ?case
  proof (cases "m = []")
    case False
    have "chacha_stream f (c + 1) (drop 64 m) = chacha_stream g (c + 1) (drop 64 m)"
      by (rule 1(1) [OF False]) (rule 1(2), auto simp: diff_mult_distrib2)
    moreover have "f c = g c" using False 1(2) by simp
    ultimately show ?thesis by (simp add: chacha_stream.simps [of _ c m])
  qed simp
qed

lemma chacha_stream_shift:
  "chacha_stream (\<lambda>i. blk (i + k)) c m = chacha_stream blk (c + k) m"
proof (induction "\<lambda>i. blk (i + k)" c m rule: chacha_stream.induct)
  case (1 c m)
  then show ?case by (subst (1 2) chacha_stream.simps) simp
qed

text \<open>Combining words in registers is combining their bytes.\<close>

lemma store32_xor: "store32_le (v XOR w) = xor_bytes (store32_le v) (store32_le w)"
  by (simp add: store32_le_def xor_bytes_def bit_eq_iff bit_simps)

lemma store32_load: "4 \<le> length p \<Longrightarrow> store32_le (load32_le p) = take 4 p"
proof -
  assume "4 \<le> length p"
  then obtain a b c d r where p: "p = a # b # c # d # r"
    by (metis Suc_le_length_iff numeral_eq_Suc pred_numeral_simps(2,3) semiring_norm(26,27) numeral_One One_nat_def eval_nat_numeral(3))
  show ?thesis
    unfolding p store32_le_def load32_le_def
    by (simp, intro conjI; rule bit_word_eqI; auto simp: bit_simps)
qed

lemma xor_bytes_append:
  "length a = length c \<Longrightarrow> xor_bytes (a @ b) (c @ d) = xor_bytes a c @ xor_bytes b d"
  by (simp add: xor_bytes_def)

lemma xor_words:
  "4 * length ws \<le> length p \<Longrightarrow>
   concat (map (\<lambda>j. store32_le (ws ! j XOR load32_le (drop (4 * j) p))) [0..<length ws]) =
   xor_bytes (take (4 * length ws) p) (concat (map store32_le ws))"
proof (induction ws arbitrary: p)
  case (Cons w ws)
  have "concat (map (\<lambda>j. store32_le ((w # ws) ! j XOR load32_le (drop (4 * j) p))) [0..<length (w # ws)]) =
      store32_le (w XOR load32_le p) @
      concat (map (\<lambda>j. store32_le (ws ! j XOR load32_le (drop (4 * j) (drop 4 p)))) [0..<length ws])"
    by (simp add: upt_conv_Cons map_Suc_upt [symmetric] del: upt_Suc) (simp add: comp_def add.commute)
  also have "\<dots> = xor_bytes (take 4 p) (store32_le w) @
      xor_bytes (take (4 * length ws) (drop 4 p)) (concat (map store32_le ws))"
    using Cons.IH [of "drop 4 p"] Cons.prems
    by (simp add: xor.commute [of w]) (simp add: store32_xor store32_load)
  also have "\<dots> = xor_bytes (take 4 p @ take (4 * length ws) (drop 4 p)) (store32_le w @ concat (map store32_le ws))"
    using Cons.prems by (simp add: xor_bytes_append)
  also have "take 4 p @ take (4 * length ws) (drop 4 p) = take (4 * length (w # ws)) p"
    by (simp add: take_add)
  finally show ?case by simp
qed (simp add: xor_bytes_def)

text \<open>The bytes of a key stream block.\<close>

definition ks_bytes :: "u32 list \<Rightarrow> bytes" where
  "ks_bytes st = concat (map store32_le (ks_words st))"

lemma ks_bytes_length [simp]: "length (ks_bytes st) = 4 * length st"
  by (simp add: ks_bytes_def)

lemma neon_state_length [simp]: "length (neon_state key nonce ctr) = 16"
  by (simp add: neon_state_def)

lemma xor_block_neon_bytes:
  assumes "length ws = 16" and "64 \<le> length m"
  shows "xor_block_neon m ws = xor_bytes (take 64 m) (concat (map store32_le ws))"
proof -
  have "xor_block_neon m ws =
      concat (map (\<lambda>j. store32_le (ws ! j XOR load32_le (drop (4 * j) m))) [0..<16])"
    using assms(1) unfolding upt_16
    by (simp add: xor_block_neon_def vst1q_mem_def vld1q_mem_def vld1q_u32_def v4_list_def xor.commute)
  then show ?thesis using xor_words [of ws m] assms by simp
qed

lemma xor_tail:
  assumes "length m \<le> length k"
  shows "map (\<lambda>i. m ! i XOR k ! i) [0..<length m] = xor_bytes m k"
  using assms by (intro nth_equalityI) (simp_all add: xor_bytes_def)

definition neon_block :: "bytes \<Rightarrow> bytes \<Rightarrow> u32 \<Rightarrow> nat \<Rightarrow> bytes" where
  "neon_block key nonce ctr i = ks_bytes (neon_state key nonce (ctr + of_nat i))"

lemma neon_stream:
  "wg_chacha20_neon m key nonce ctr = chacha_stream (neon_block key nonce ctr) 0 m"
proof (induction m key nonce ctr rule: wg_chacha20_neon.induct)
  case (1 m key nonce ctr)
  let ?w = "ks_words (neon_state key nonce ctr)"
  have "neon_block key nonce (ctr + 1) = (\<lambda>i. neon_block key nonce ctr (i + 1))"
    by (simp add: neon_block_def fun_eq_iff ac_simps)
  then have "chacha_stream (neon_block key nonce (ctr + 1)) 0 x = chacha_stream (neon_block key nonce ctr) 1 x" for x
    using chacha_stream_shift [of "neon_block key nonce ctr" 1 0 x] by simp
  moreover have "neon_block key nonce ctr 0 = concat (map store32_le ?w)"
    by (simp add: neon_block_def ks_bytes_def)
  ultimately show ?case
    using 1 by (subst wg_chacha20_neon.simps, subst chacha_stream.simps)
      (auto simp: block_neon_scalar xor_block_neon_bytes xor_tail Let_def)
qed

text \<open>The state of the scalar code, with its 64-bit counter in two words.\<close>

definition djb_state :: "bytes \<Rightarrow> bytes \<Rightarrow> nat \<Rightarrow> u32 list" where
  "djb_state key nonce n = load32_le_buf chacha20_constant 4 @ load32_le_buf key 8 @
     [of_nat n, of_nat (n div 2 ^ 32)] @ load32_le_buf nonce 2"

lemma djb_state_length [simp]: "length (djb_state key nonce n) = 16"
  by (simp add: djb_state_def load32_le_buf_def)

lemma ctr_words:
  "(ucast (of_nat n :: u64) :: u32) = of_nat n"
  "(ucast (drop_bit 32 (of_nat n :: u64)) :: u32) = of_nat (n div 2 ^ 32)"
proof -
  show "(ucast (of_nat n :: u64) :: u32) = of_nat n"
    by (rule unsigned_word_eqI [where ?'a = nat]) (simp add: unsigned_ucast_eq unat_of_nat take_bit_eq_mod mod_mod_cancel)
  have "n mod 2 ^ 64 div 2 ^ 32 mod 2 ^ 32 = n div 2 ^ 32 mod (2 ^ 32 :: nat)"
    using drop_bit_take_bit [of 32 64 n] by (simp add: drop_bit_eq_div take_bit_eq_mod)
  then show "(ucast (drop_bit 32 (of_nat n :: u64)) :: u32) = of_nat (n div 2 ^ 32)"
    by (intro unsigned_word_eqI [where ?'a = nat])
      (simp add: unsigned_ucast_eq unsigned_drop_bit_eq unat_of_nat,
        simp add: take_bit_eq_mod drop_bit_eq_div)
qed

lemma djb_state_words:
  "djb_state key nonce n ! 12 = of_nat n" "djb_state key nonce n ! 13 = of_nat (n div 2 ^ 32)"
  by (simp_all add: djb_state_def load32_le_buf_def nth_append)

lemma djb_state_upd:
  "(djb_state key nonce n)[12 := x, 13 := y] =
   load32_le_buf chacha20_constant 4 @ load32_le_buf key 8 @ [x, y] @ load32_le_buf nonce 2"
  by (simp add: djb_state_def load32_le_buf_def list_update_append)

lemma djb_state_step:
  "(let s = (djb_state key nonce n)[12 := djb_state key nonce n ! 12 + 1]
    in if s ! 12 = 0 then s[13 := s ! 13 + 1] else s) = djb_state key nonce (n + 1)"
proof -
  let ?s = "djb_state key nonce n"
  have u: "?s[12 := x] = ?s[12 := x, 13 := of_nat (n div 2 ^ 32)]" for x
    using list_update_id [of ?s 13] list_update_swap [of 12 13 ?s x "?s ! 13"]
    by (simp add: djb_state_words)
  have "(of_nat n + 1 :: u32) = 0 \<longleftrightarrow> (n + 1) mod 2 ^ 32 < 1"
  proof -
    have "(of_nat n + 1 :: u32) = of_nat (n + 1)" by simp
    then show ?thesis by (simp only: word_unat_eq_iff unat_of_nat unat_0) simp
  qed
  with div_carry [of 1 "2 ^ 32" n]
  have "(of_nat n + 1 :: u32) = 0 \<and> (n + 1) div 2 ^ 32 = n div 2 ^ 32 + 1 \<or>
      (of_nat n + 1 :: u32) \<noteq> 0 \<and> (n + 1) div 2 ^ 32 = n div 2 ^ 32" by simp
  then show ?thesis
  proof
    assume c: "(of_nat n + 1 :: u32) = 0 \<and> (n + 1) div 2 ^ 32 = n div 2 ^ 32 + 1"
    then have "djb_state key nonce (n + 1) = ?s[12 := of_nat n + 1, 13 := of_nat (n div 2 ^ 32) + 1]"
      unfolding djb_state_upd by (simp add: djb_state_def add.commute)
    with c show ?thesis by (simp add: Let_def djb_state_words)
  next
    assume c: "(of_nat n + 1 :: u32) \<noteq> 0 \<and> (n + 1) div 2 ^ 32 = n div 2 ^ 32"
    then have "djb_state key nonce (n + 1) = ?s[12 := of_nat n + 1, 13 := of_nat (n div 2 ^ 32)]"
      unfolding djb_state_upd by (simp add: djb_state_def add.commute)
    with c u show ?thesis by (simp add: Let_def djb_state_words)
  qed
qed

lemma djb_blocks_stream:
  "64 * n \<le> length m \<Longrightarrow>
   \<exists>out. djb_blocks n (djb_state key nonce c) (Some m) =
     (out, djb_state key nonce (c + n), Some (drop (64 * n) m)) \<and>
     out @ chacha_stream (\<lambda>i. ks_bytes (djb_state key nonce i)) (c + n) (drop (64 * n) m) =
     chacha_stream (\<lambda>i. ks_bytes (djb_state key nonce i)) c m"
proof (induction n arbitrary: c m)
  case (Suc n)
  let ?s = "djb_state key nonce c"
  let ?w = "ks_words ?s"
  have w: "chacha20_rounds ?s ! j + ?s ! j = ?w ! j" if "j < 16" for j
    using that by (simp add: ks_words_def)
  have cipher: "concat (map (\<lambda>j. store32_le ((chacha20_rounds ?s ! j + ?s ! j) XOR load32_le (drop (4 * j) m))) [0..<16]) =
      xor_bytes (take 64 m) (ks_bytes ?s)"
  proof -
    have "map (\<lambda>j. store32_le ((chacha20_rounds ?s ! j + ?s ! j) XOR load32_le (drop (4 * j) m))) [0..<16] =
        map (\<lambda>j. store32_le (?w ! j XOR load32_le (drop (4 * j) m))) [0..<16]"
      by (rule map_cong) (simp_all add: w)
    from arg_cong [OF this, of concat] show ?thesis
      using xor_words [of ?w m] Suc.prems by (simp only: ks_bytes_def) simp
  qed
  have "64 * n \<le> length (drop 64 m)" using Suc.prems by simp
  from Suc.IH [OF this, of "c + 1"] obtain out where
    o: "djb_blocks n (djb_state key nonce (c + 1)) (Some (drop 64 m)) =
      (out, djb_state key nonce (c + 1 + n), Some (drop (64 * n) (drop 64 m)))"
    "out @ chacha_stream (\<lambda>i. ks_bytes (djb_state key nonce i)) (c + 1 + n) (drop (64 * n) (drop 64 m)) =
      chacha_stream (\<lambda>i. ks_bytes (djb_state key nonce i)) (c + 1) (drop 64 m)"
    by blast
  have "chacha_stream (\<lambda>i. ks_bytes (djb_state key nonce i)) c m = xor_bytes (take 64 m) (ks_bytes ?s) @
      chacha_stream (\<lambda>i. ks_bytes (djb_state key nonce i)) (c + 1) (drop 64 m)"
    using Suc.prems by (subst chacha_stream.simps) auto
  then show ?case
    using o cipher djb_state_step [of key nonce c]
    by (simp add: Let_def split_def ac_simps)
qed simp

lemma djb_input:
  "load32_le_buf chacha20_constant 4 @ load32_le_buf key 8 @
     [ucast (of_nat c :: u64), ucast (drop_bit 32 (of_nat c :: u64))] @ load32_le_buf nonce 2 =
   djb_state key nonce c"
  by (simp only: ctr_words djb_state_def)

lemma ks_bytes_alt:
  "length st = 16 \<Longrightarrow> concat (map (\<lambda>i. store32_le (chacha20_rounds st ! i + st ! i)) [0..<16]) = ks_bytes st"
  by (simp add: ks_bytes_def ks_words_def, rule arg_cong [of _ _ concat], rule nth_equalityI) simp_all

lemma djb_stream:
  "fst (crypto_chacha20_djb (Some m) (length m) key nonce (of_nat c)) =
   chacha_stream (\<lambda>i. ks_bytes (djb_state key nonce i)) c m"
proof -
  let ?n = "length m div 64" and ?k = "length m mod 64"
  let ?r = "drop (64 * ?n) m" and ?ks = "\<lambda>i. ks_bytes (djb_state key nonce i)"
  have r: "length ?r = ?k" by (simp add: minus_mult_div_eq_mod)
  obtain out where o: "djb_blocks ?n (djb_state key nonce c) (Some m) = (out, djb_state key nonce (c + ?n), Some ?r)"
    and s: "out @ chacha_stream ?ks (c + ?n) ?r = chacha_stream ?ks c m"
    using djb_blocks_stream [of ?n m key nonce c] by auto
  have "?k < 64" by simp
  with r have "chacha_stream ?ks (c + ?n) ?r = (if 0 < ?k then xor_bytes ?r (?ks (c + ?n)) else [])"
    by (subst chacha_stream.simps) auto
  also have "\<dots> = (if 0 < ?k then map (\<lambda>i. ?ks (c + ?n) ! i XOR ?r ! i) [0..<?k] else [])"
    using xor_tail [of ?r "?ks (c + ?n)"] r by (simp add: xor.commute)
  finally show ?thesis
    using s
    by (auto simp: crypto_chacha20_djb_def Let_def djb_input [simplified] o ks_bytes_alt split_def
        split: if_splits)
qed

lemma djb_null:
  "fst (crypto_chacha20_djb None 64 key nonce (of_nat c)) = ks_bytes (djb_state key nonce c)"
  by (simp add: crypto_chacha20_djb_def Let_def djb_input [simplified] split_def ks_bytes_alt)

text \<open>With a 96-bit nonce the two states agree as long as the 32-bit counter does not wrap.\<close>

definition ietf_ctr :: "bytes \<Rightarrow> u32 \<Rightarrow> nat" where
  "ietf_ctr nonce ctr = unat ctr + 2 ^ 32 * unat (load32_le nonce)"

lemma ietf_ctr_word: "(ucast ctr + push_bit 32 (ucast (load32_le nonce)) :: u64) = of_nat (ietf_ctr nonce ctr)"
  by (simp add: ietf_ctr_def push_bit_eq_mult unsigned_ucast_eq)

lemma constant_words: "load32_le_buf chacha20_constant 4 = [0x61707865, 0x3320646e, 0x79622d32, 0x6b206574]"
  by (simp add: load32_le_buf_def chacha20_constant_def load32_le_def upt_rec)

lemma ietf_state:
  assumes "unat ctr + i < 2 ^ 32"
  shows "djb_state key (drop 4 nonce) (ietf_ctr nonce ctr + i) = neon_state key nonce (ctr + of_nat i)"
proof -
  have "(ietf_ctr nonce ctr + i) div 2 ^ 32 = unat (load32_le nonce)"
    and "(of_nat (ietf_ctr nonce ctr + i) :: u32) = ctr + of_nat i"
    using assms by (simp_all add: ietf_ctr_def) (simp add: word_unat_eq_iff unat_of_nat unat_word_ariths mod_simps)
  then show ?thesis
    unfolding djb_state_def neon_state_def constant_words
    by (simp add: load32_le_buf_def upt_rec)
qed

lemma neon_stream_ietf:
  assumes "unat ctr + length m div 64 < 2 ^ 32"
  shows "wg_chacha20_neon m key nonce ctr =
    chacha_stream (\<lambda>i. ks_bytes (djb_state key (drop 4 nonce) i)) (ietf_ctr nonce ctr) m"
proof -
  have "wg_chacha20_neon m key nonce ctr =
      chacha_stream (\<lambda>i. ks_bytes (djb_state key (drop 4 nonce) (i + ietf_ctr nonce ctr))) 0 m"
    unfolding neon_stream
  proof (rule chacha_stream_cong)
    fix i assume "64 * (i - 0) < length m"
    then have "i \<le> length m div 64" by linarith
    then show "neon_block key nonce ctr i = ks_bytes (djb_state key (drop 4 nonce) (i + ietf_ctr nonce ctr))"
      using assms ietf_state [of ctr i key nonce] by (simp add: neon_block_def add.commute)
  qed
  then show ?thesis
    using chacha_stream_shift [of "\<lambda>i. ks_bytes (djb_state key (drop 4 nonce) i)" "ietf_ctr nonce ctr" 0 m]
    by simp
qed

lemma neon_twice: "wg_chacha20_neon (wg_chacha20_neon m key nonce ctr) key nonce ctr = m"
  unfolding neon_stream by (rule chacha_stream_twice) (simp add: neon_block_def)

lemma neon_length [simp, bytes_len]: "length (wg_chacha20_neon m key nonce ctr) = length m"
  unfolding neon_stream by (rule chacha_stream_length) (simp add: neon_block_def)

lemma block_neon_ks: "wg_chacha20_block_neon key nonce ctr = ks_bytes (neon_state key nonce ctr)"
  by (simp add: wg_chacha20_block_neon_def block_neon_scalar ks_bytes_def)

section \<open>Properties\<close>

text \<open>
  C19: the NEON cipher and the portable one (the IETF variant of the library) give the same
  cipher text for every text, key, nonce and start counter, up to the block at which the 32-bit
  block counter would wrap.
\<close>

theorem chacha20_neon_equiv:
  assumes "unat ctr + length m div 64 < 2 ^ 32"
  shows "wg_chacha20_neon m key nonce ctr = fst (crypto_chacha20_ietf (Some m) (length m) key nonce ctr)"
  using djb_stream [of m key "drop 4 nonce" "ietf_ctr nonce ctr"] neon_stream_ietf [OF assms, of key nonce]
  by (simp add: crypto_chacha20_ietf_def Let_def split_def ietf_ctr_word)

theorem chacha20_neon_equiv_witness:
  "unat (1 :: u32) + length (replicate 200 7 :: bytes) div 64 < 2 ^ 32 \<and>
   wg_chacha20_neon (replicate 200 7) (replicate 32 1) (replicate 12 2) 1 =
     fst (crypto_chacha20_ietf (Some (replicate 200 7)) 200 (replicate 32 1) (replicate 12 2) 1)"
  using chacha20_neon_equiv [of 1 "replicate 200 7" "replicate 32 1" "replicate 12 2"] by simp

end
