(* ===== verification/Poly1305.thy ===== *)
theory Poly1305
  imports Limbs
begin

text \<open>
  Poly1305 as \<open>src/wg_poly1305_neon.c\<close> computes it: five limbs of 26 bits, multiplied on NEON
  registers (and by the scalar code of the other branch), against the definition of RFC 8439 as
  a polynomial modulo \<open>2^130 - 5\<close>. The model keeps the 32 and 64 bit words of the code.
\<close>

unbundle bit_operations_syntax

section \<open>Model\<close>

record wg_poly1305_ctx =
  p_r :: "u32 list"
  p_s :: "u32 list"
  p_acc :: "u32 list"
  p_buf :: bytes
  p_buf_len :: nat

text \<open>The four clamped words of the first half of the key, cut into limbs.\<close>

definition limb1 :: "u32 \<Rightarrow> u32 \<Rightarrow> u32" where
  "limb1 t0 t1 = (drop_bit 26 t0 OR push_bit 6 t1) AND 0x3ffffff"

definition limb2 :: "u32 \<Rightarrow> u32 \<Rightarrow> u32" where
  "limb2 t1 t2 = (drop_bit 20 t1 OR push_bit 12 t2) AND 0x3ffffff"

definition limb3 :: "u32 \<Rightarrow> u32 \<Rightarrow> u32" where
  "limb3 t2 t3 = (drop_bit 14 t2 OR push_bit 18 t3) AND 0x3ffffff"

definition clamp_bytes :: "bytes \<Rightarrow> bytes" where
  "clamp_bytes r =
     (let r = r[3 := r ! 3 AND 0x0f]; r = r[7 := r ! 7 AND 0x0f];
          r = r[11 := r ! 11 AND 0x0f]; r = r[15 := r ! 15 AND 0x0f];
          r = r[4 := r ! 4 AND 0xfc]; r = r[8 := r ! 8 AND 0xfc]; r = r[12 := r ! 12 AND 0xfc]
      in r)"

definition wg_poly1305_init :: "bytes \<Rightarrow> wg_poly1305_ctx" where
  "wg_poly1305_init key =
     (let r = clamp_bytes (take 16 key);
          t0 = load32_le r; t1 = load32_le (drop 4 r);
          t2 = load32_le (drop 8 r); t3 = load32_le (drop 12 r)
      in \<lparr>p_r = [t0 AND 0x3ffffff, limb1 t0 t1, limb2 t1 t2, limb3 t2 t3, drop_bit 8 t3],
          p_s = [load32_le (drop 16 key), load32_le (drop 20 key),
                 load32_le (drop 24 key), load32_le (drop 28 key)],
          p_acc = [0, 0, 0, 0, 0], p_buf = replicate 16 0, p_buf_len = 0\<rparr>)"

text \<open>The carries after the multiplication, shared by the two branches.\<close>

definition carry_chain :: "u64 \<Rightarrow> u64 \<Rightarrow> u64 \<Rightarrow> u64 \<Rightarrow> u64 \<Rightarrow> u32 list" where
  "carry_chain h0 h1 h2 h3 h4 =
     (let c = drop_bit 26 h0; h0 = h0 AND 0x3ffffff; h1 = h1 + c;
          c = drop_bit 26 h1; h1 = h1 AND 0x3ffffff; h2 = h2 + c;
          c = drop_bit 26 h2; h2 = h2 AND 0x3ffffff; h3 = h3 + c;
          c = drop_bit 26 h3; h3 = h3 AND 0x3ffffff; h4 = h4 + c;
          c = drop_bit 26 h4; h4 = h4 AND 0x3ffffff; h0 = h0 + c * 5;
          c = drop_bit 26 h0; h0 = h0 AND 0x3ffffff; h1 = h1 + c
      in [ucast h0, ucast h1, ucast h2, ucast h3, ucast h4])"

text \<open>Adding the block to the accumulator, without carries.\<close>

definition add_block :: "u32 list \<Rightarrow> bytes \<Rightarrow> u32 \<Rightarrow> u64 list" where
  "add_block acc data hibit =
     (let t0 = load32_le data; t1 = load32_le (drop 4 data);
          t2 = load32_le (drop 8 data); t3 = load32_le (drop 12 data)
      in [ucast (acc ! 0) + ucast (t0 AND 0x3ffffff),
          ucast (acc ! 1) + ucast (limb1 t0 t1),
          ucast (acc ! 2) + ucast (limb2 t1 t2),
          ucast (acc ! 3) + ucast (limb3 t2 t3),
          ucast (acc ! 4) + ucast (drop_bit 8 t3 OR push_bit 24 hibit)])"

datatype uint32x2 = D2 u32 u32

datatype uint64x2 = Q2 u64 u64

definition vdup_n_u32 :: "u32 \<Rightarrow> uint32x2" where
  "vdup_n_u32 x = D2 x x"

fun vmull_u32 :: "uint32x2 \<Rightarrow> uint32x2 \<Rightarrow> uint64x2" where
  "vmull_u32 (D2 a b) (D2 c d) = Q2 (ucast a * ucast c) (ucast b * ucast d)"

fun vmlal_u32 :: "uint64x2 \<Rightarrow> uint32x2 \<Rightarrow> uint32x2 \<Rightarrow> uint64x2" where
  "vmlal_u32 (Q2 x y) (D2 a b) (D2 c d) = Q2 (x + ucast a * ucast c) (y + ucast b * ucast d)"

fun vgetq_lane0_u64 :: "uint64x2 \<Rightarrow> u64" where
  "vgetq_lane0_u64 (Q2 x y) = x"

text \<open>One column of the product: a multiplication and four accumulations.\<close>

definition column_neon :: "u32 list \<Rightarrow> u32 list \<Rightarrow> u64" where
  "column_neon va vr =
     (let va = map vdup_n_u32 va; vr = map vdup_n_u32 vr;
          d = vmull_u32 (va ! 0) (vr ! 0);
          d = vmlal_u32 d (va ! 1) (vr ! 1);
          d = vmlal_u32 d (va ! 2) (vr ! 2);
          d = vmlal_u32 d (va ! 3) (vr ! 3);
          d = vmlal_u32 d (va ! 4) (vr ! 4)
      in vgetq_lane0_u64 d)"

definition poly1305_block_neon :: "wg_poly1305_ctx \<Rightarrow> bytes \<Rightarrow> u32 \<Rightarrow> wg_poly1305_ctx" where
  "poly1305_block_neon ctx data hibit =
     (let va = map ucast (add_block (p_acc ctx) data hibit);
          r0 = p_r ctx ! 0; r1 = p_r ctx ! 1; r2 = p_r ctx ! 2; r3 = p_r ctx ! 3; r4 = p_r ctx ! 4;
          s1 = r1 * 5; s2 = r2 * 5; s3 = r3 * 5; s4 = r4 * 5;
          h0 = column_neon va [r0, s4, s3, s2, s1];
          h1 = column_neon va [r1, r0, s4, s3, s2];
          h2 = column_neon va [r2, r1, r0, s4, s3];
          h3 = column_neon va [r3, r2, r1, r0, s4];
          h4 = column_neon va [r4, r3, r2, r1, r0]
      in ctx\<lparr>p_acc := carry_chain h0 h1 h2 h3 h4\<rparr>)"

definition poly1305_block_scalar :: "wg_poly1305_ctx \<Rightarrow> bytes \<Rightarrow> u32 \<Rightarrow> wg_poly1305_ctx" where
  "poly1305_block_scalar ctx data hibit =
     (let a = add_block (p_acc ctx) data hibit;
          a0 = a ! 0; a1 = a ! 1; a2 = a ! 2; a3 = a ! 3; a4 = a ! 4;
          r0 = p_r ctx ! 0; r1 = p_r ctx ! 1; r2 = p_r ctx ! 2; r3 = p_r ctx ! 3; r4 = p_r ctx ! 4;
          s1 = r1 * 5; s2 = r2 * 5; s3 = r3 * 5; s4 = r4 * 5;
          h0 = a0 * ucast r0 + a1 * ucast s4 + a2 * ucast s3 + a3 * ucast s2 + a4 * ucast s1;
          h1 = a0 * ucast r1 + a1 * ucast r0 + a2 * ucast s4 + a3 * ucast s3 + a4 * ucast s2;
          h2 = a0 * ucast r2 + a1 * ucast r1 + a2 * ucast r0 + a3 * ucast s4 + a4 * ucast s3;
          h3 = a0 * ucast r3 + a1 * ucast r2 + a2 * ucast r1 + a3 * ucast r0 + a4 * ucast s4;
          h4 = a0 * ucast r4 + a1 * ucast r3 + a2 * ucast r2 + a3 * ucast r1 + a4 * ucast r0
      in ctx\<lparr>p_acc := carry_chain h0 h1 h2 h3 h4\<rparr>)"

text \<open>The branch of \<open>HAS_NEON\<close>.\<close>

definition poly1305_block :: "wg_poly1305_ctx \<Rightarrow> bytes \<Rightarrow> u32 \<Rightarrow> wg_poly1305_ctx" where
  "poly1305_block ctx data hibit = poly1305_block_neon ctx data hibit"

function poly_loop :: "wg_poly1305_ctx \<Rightarrow> bytes \<Rightarrow> wg_poly1305_ctx \<times> bytes" where
  "poly_loop ctx data =
     (if 16 \<le> length data then poly_loop (poly1305_block ctx (take 16 data) 1) (drop 16 data)
      else (ctx, data))"
  by pat_completeness auto
termination
  by (relation "measure (\<lambda>(ctx, data). length data)") auto

declare poly_loop.simps [simp del]

definition poly_tail :: "wg_poly1305_ctx \<Rightarrow> bytes \<Rightarrow> wg_poly1305_ctx" where
  "poly_tail ctx data =
     (let (ctx, data) = poly_loop ctx data
      in if 0 < length data
         then ctx\<lparr>p_buf := memcpy_at (p_buf ctx) 0 data, p_buf_len := length data\<rparr>
         else ctx)"

definition wg_poly1305_update :: "wg_poly1305_ctx \<Rightarrow> bytes \<Rightarrow> wg_poly1305_ctx" where
  "wg_poly1305_update ctx data =
     (if 0 < p_buf_len ctx
      then
        (let want = 16 - p_buf_len ctx
         in if length data < want
            then ctx\<lparr>p_buf := memcpy_at (p_buf ctx) (p_buf_len ctx) data,
                     p_buf_len := p_buf_len ctx + length data\<rparr>
            else
              (let ctx = ctx\<lparr>p_buf := memcpy_at (p_buf ctx) (p_buf_len ctx) (take want data)\<rparr>;
                   ctx = poly1305_block ctx (p_buf ctx) 1
               in poly_tail (ctx\<lparr>p_buf_len := 0\<rparr>) (drop want data)))
      else poly_tail ctx data)"

text \<open>The last carries, the subtraction of the modulus under a mask, and the addition of \<open>s\<close>.\<close>

definition final_carry :: "u32 list \<Rightarrow> u32 list" where
  "final_carry acc =
     (let h0 = acc ! 0; h1 = acc ! 1; h2 = acc ! 2; h3 = acc ! 3; h4 = acc ! 4;
          c = drop_bit 26 h1; h1 = h1 AND 0x3ffffff; h2 = h2 + c;
          c = drop_bit 26 h2; h2 = h2 AND 0x3ffffff; h3 = h3 + c;
          c = drop_bit 26 h3; h3 = h3 AND 0x3ffffff; h4 = h4 + c;
          c = drop_bit 26 h4; h4 = h4 AND 0x3ffffff; h0 = h0 + c * 5;
          c = drop_bit 26 h0; h0 = h0 AND 0x3ffffff; h1 = h1 + c
      in [h0, h1, h2, h3, h4])"

definition final_minus :: "u32 list \<Rightarrow> u32 list" where
  "final_minus h =
     (let g0 = h ! 0 + 5; c = drop_bit 26 g0; g0 = g0 AND 0x3ffffff;
          g1 = h ! 1 + c; c = drop_bit 26 g1; g1 = g1 AND 0x3ffffff;
          g2 = h ! 2 + c; c = drop_bit 26 g2; g2 = g2 AND 0x3ffffff;
          g3 = h ! 3 + c; c = drop_bit 26 g3; g3 = g3 AND 0x3ffffff;
          g4 = h ! 4 + c - push_bit 26 1
      in [g0, g1, g2, g3, g4])"

definition final_select :: "u32 list \<Rightarrow> u32 list \<Rightarrow> u32 list" where
  "final_select h g =
     (let mask = drop_bit 31 (g ! 4) - 1;
          g0 = g ! 0 AND mask; g1 = g ! 1 AND mask; g2 = g ! 2 AND mask; g3 = g ! 3 AND mask;
          g4 = g ! 4 AND mask;
          mask = NOT mask
      in [(h ! 0 AND mask) OR g0, (h ! 1 AND mask) OR g1, (h ! 2 AND mask) OR g2,
          (h ! 3 AND mask) OR g3, (h ! 4 AND mask) OR g4])"

definition final_tag :: "u32 list \<Rightarrow> u32 list \<Rightarrow> bytes" where
  "final_tag h s =
     (let f0 = (ucast (h ! 0) OR push_bit 26 (ucast (h ! 1))) + ucast (s ! 0) :: u64;
          f1 = push_bit 20 (ucast (h ! 2)) + ucast (s ! 1) :: u64;
          f2 = push_bit 14 (ucast (h ! 3)) + ucast (s ! 2) :: u64;
          f3 = push_bit 8 (ucast (h ! 4)) + ucast (s ! 3) :: u64;
          f1 = f1 + drop_bit 32 f0; f0 = f0 AND 0xffffffff;
          f2 = f2 + drop_bit 32 f1; f1 = f1 AND 0xffffffff;
          f3 = f3 + drop_bit 32 f2; f2 = f2 AND 0xffffffff
      in store32_le (ucast f0) @ store32_le (ucast f1) @ store32_le (ucast f2) @ store32_le (ucast f3))"

definition wg_poly1305_final :: "wg_poly1305_ctx \<Rightarrow> bytes" where
  "wg_poly1305_final ctx =
     (let ctx =
        (if 0 < p_buf_len ctx
         then
           (let buf = (p_buf ctx)[p_buf_len ctx := 1];
                buf = memcpy_at buf (p_buf_len ctx + 1) (replicate (16 - p_buf_len ctx - 1) 0)
            in poly1305_block (ctx\<lparr>p_buf := buf\<rparr>) buf 0)
         else ctx);
          h = final_carry (p_acc ctx);
          g = final_minus h
      in final_tag (final_select h g) (p_s ctx))"

definition wg_poly1305 :: "bytes \<Rightarrow> bytes \<Rightarrow> bytes" where
  "wg_poly1305 data key = wg_poly1305_final (wg_poly1305_update (wg_poly1305_init key) data)"

section \<open>The value of the limbs\<close>

definition P130 :: nat where
  "P130 = 2 ^ 130 - 5"

primrec val26 :: "nat list \<Rightarrow> nat" where
  "val26 [] = 0"
| "val26 (x # xs) = x + 2 ^ 26 * val26 xs"

text \<open>\<open>lv ws\<close>: the number in the limbs \<open>ws\<close>.\<close>

definition lv :: "u32 list \<Rightarrow> nat" where
  "lv ws = val26 (map unat ws)"

lemma limb_cut:
  fixes x y :: u32
  assumes "k + j = 32" and "k + i = 26"
  shows "unat ((drop_bit j x OR push_bit k y) AND 0x3ffffff) = unat x div 2 ^ j + 2 ^ k * (unat y mod 2 ^ i)"
proof -
  let ?X = "unat x div 2 ^ j" and ?Y = "unat y mod 2 ^ i"
  have x: "?X < 2 ^ k"
    using unat_u32_less [of x] assms by (simp add: less_mult_imp_div_less flip: power_add)
  have "push_bit k y AND mask 26 = of_nat (2 ^ k * ?Y)"
  proof -
    have "(2 :: nat) ^ 26 = 2 ^ k * 2 ^ i" using assms by (simp flip: power_add)
    then have "2 ^ k * unat y mod 2 ^ 26 = 2 ^ k * ?Y" by (simp only: mult_mod_right)
    then show ?thesis
      using mask_of_nat [of 26 "2 ^ k * unat y", where ?'a = 32] push_of_nat [of k "unat y", where ?'a = 32]
      by simp
  qed
  moreover have "drop_bit j x AND mask 26 = of_nat ?X"
  proof -
    have "?X < 2 ^ 26" using x assms power_increasing [of k 26 "2 :: nat"] by simp
    then show ?thesis
      using drop_of_nat32 [of "unat x" j] mask_of_nat [of 26 ?X, where ?'a = 32] by simp
  qed
  ultimately have e: "(drop_bit j x OR push_bit k y) AND 0x3ffffff = of_nat ?X OR of_nat (2 ^ k * ?Y)"
    unfolding mask26 by (simp add: bit.conj_disj_distrib2)
  have "2 ^ k * Suc ?Y \<le> 2 ^ k * 2 ^ i" by (intro mult_left_mono Suc_leI) simp_all
  then have b: "?X + 2 ^ k * ?Y < 2 ^ 26" using x assms by (simp flip: power_add)
  then have "unat (of_nat ?X :: u32) = ?X" "unat (of_nat (2 ^ k * ?Y) :: u32) = 2 ^ k * ?Y"
    by (simp_all add: unat_of_nat del: of_nat_mult)
  then show ?thesis
    unfolding e unsigned_or_eq by (simp add: or_range [OF x] del: of_nat_mult)
qed

lemma limb_cuts:
  "unat (limb1 t0 t1) = unat t0 div 2 ^ 26 + 2 ^ 6 * (unat t1 mod 2 ^ 20)"
  "unat (limb2 t1 t2) = unat t1 div 2 ^ 20 + 2 ^ 12 * (unat t2 mod 2 ^ 14)"
  "unat (limb3 t2 t3) = unat t2 div 2 ^ 14 + 2 ^ 18 * (unat t3 mod 2 ^ 8)"
  unfolding limb1_def limb2_def limb3_def by (rule limb_cut; simp)+

lemma limb0: "unat ((t :: u32) AND 0x3ffffff) = unat t mod 2 ^ 26"
  using mask_of_nat [of 26 "unat t", where ?'a = 32] unfolding mask26
  by (simp add: unat_of_nat)

lemma limb4:
  fixes t :: u32
  assumes "b \<le> 1"
  shows "unat (drop_bit 8 t OR push_bit 24 (of_nat b)) = unat t div 2 ^ 8 + 2 ^ 24 * b"
proof -
  have t: "unat t div 2 ^ 8 < 2 ^ 24" using unat_u32_less [of t] by (simp add: less_mult_imp_div_less)
  have "drop_bit 8 t = of_nat (unat t div 2 ^ 8)" using drop_of_nat32 [of "unat t" 8] by simp
  then have "unat (drop_bit 8 t) = unat t div 2 ^ 8" using t by (simp add: unat_of_nat)
  moreover have "unat (push_bit 24 (of_nat b) :: u32) = 2 ^ 24 * b"
    using assms by (simp add: push_of_nat unat_of_nat del: of_nat_mult)
  ultimately show ?thesis unfolding unsigned_or_eq using or_range [OF t, of b] by simp
qed

text \<open>Cutting four words into five limbs keeps the number.\<close>

lemma limbs_sum:
  fixes t0 t1 t2 t3 b :: nat
  shows "val26 [t0 mod 2 ^ 26, t0 div 2 ^ 26 + 2 ^ 6 * (t1 mod 2 ^ 20),
      t1 div 2 ^ 20 + 2 ^ 12 * (t2 mod 2 ^ 14), t2 div 2 ^ 14 + 2 ^ 18 * (t3 mod 2 ^ 8),
      t3 div 2 ^ 8 + 2 ^ 24 * b] =
    t0 + 2 ^ 32 * t1 + 2 ^ 64 * t2 + 2 ^ 96 * t3 + 2 ^ 128 * b"
proof -
  have sum: "val26 [a0, d0 + 2 ^ 6 * a1, d1 + 2 ^ 12 * a2, d2 + 2 ^ 18 * a3, d3 + 2 ^ 24 * b] =
      (a0 + 2 ^ 26 * d0) + 2 ^ 32 * (a1 + 2 ^ 20 * d1) + 2 ^ 64 * (a2 + 2 ^ 14 * d2) +
      2 ^ 96 * (a3 + 2 ^ 8 * d3) + 2 ^ 128 * b" for a0 a1 a2 a3 d0 d1 d2 d3
    by simp
  show ?thesis unfolding sum mod_mult_div_eq ..
qed

section \<open>One block\<close>

text \<open>The carries, on images of numbers.\<close>

lemma carry_chain_num:
  fixes h0 h1 h2 h3 h4 :: nat
  assumes "h0 < 2 ^ 60" "h1 < 2 ^ 60" "h2 < 2 ^ 60" "h3 < 2 ^ 60" "h4 < 2 ^ 60"
  shows "\<exists>o0 o1 o2 o3 o4 c.
    carry_chain (of_nat h0) (of_nat h1) (of_nat h2) (of_nat h3) (of_nat h4) = map of_nat [o0, o1, o2, o3, o4] \<and>
    o0 < 2 ^ 26 \<and> o1 < 2 ^ 26 + 2 ^ 13 \<and> o2 < 2 ^ 26 \<and> o3 < 2 ^ 26 \<and> o4 < 2 ^ 26 \<and>
    val26 [o0, o1, o2, o3, o4] + c * (2 ^ 130 - 5) = val26 [h0, h1, h2, h3, h4]"
proof -
  define c0 l0 where "c0 = h0 div 2 ^ 26" and "l0 = h0 mod 2 ^ 26"
  define c1 l1 where "c1 = (h1 + c0) div 2 ^ 26" and "l1 = (h1 + c0) mod 2 ^ 26"
  define c2 l2 where "c2 = (h2 + c1) div 2 ^ 26" and "l2 = (h2 + c1) mod 2 ^ 26"
  define c3 l3 where "c3 = (h3 + c2) div 2 ^ 26" and "l3 = (h3 + c2) mod 2 ^ 26"
  define c4 l4 where "c4 = (h4 + c3) div 2 ^ 26" and "l4 = (h4 + c3) mod 2 ^ 26"
  define c5 l5 where "c5 = (l0 + c4 * 5) div 2 ^ 26" and "l5 = (l0 + c4 * 5) mod 2 ^ 26"
  have e: "h0 = 2 ^ 26 * c0 + l0" "h1 + c0 = 2 ^ 26 * c1 + l1" "h2 + c1 = 2 ^ 26 * c2 + l2"
    "h3 + c2 = 2 ^ 26 * c3 + l3" "h4 + c3 = 2 ^ 26 * c4 + l4" "l0 + c4 * 5 = 2 ^ 26 * c5 + l5"
    unfolding c0_def l0_def c1_def l1_def c2_def l2_def c3_def l3_def c4_def l4_def c5_def l5_def
    by simp_all
  have l: "l0 < 2 ^ 26" "l1 < 2 ^ 26" "l2 < 2 ^ 26" "l3 < 2 ^ 26" "l4 < 2 ^ 26" "l5 < 2 ^ 26"
    unfolding l0_def l1_def l2_def l3_def l4_def l5_def by simp_all
  have c: "c0 < 2 ^ 34" "c1 < 2 ^ 35" "c2 < 2 ^ 35" "c3 < 2 ^ 35" "c4 < 2 ^ 35" "c5 < 2 ^ 13"
    using e l assms by simp_all
  have "carry_chain (of_nat h0) (of_nat h1) (of_nat h2) (of_nat h3) (of_nat h4) =
      map of_nat [l5, l1 + c5, l2, l3, l4]"
  proof -
    have a: "(of_nat x :: u64) + of_nat y = of_nat (x + y)" "(of_nat x :: u64) * 5 = of_nat (x * 5)" for x y
      by simp_all
    have d: "drop_bit 26 (of_nat h0 :: u64) = of_nat c0" "drop_bit 26 (of_nat (h1 + c0) :: u64) = of_nat c1"
      "drop_bit 26 (of_nat (h2 + c1) :: u64) = of_nat c2" "drop_bit 26 (of_nat (h3 + c2) :: u64) = of_nat c3"
      "drop_bit 26 (of_nat (h4 + c3) :: u64) = of_nat c4" "drop_bit 26 (of_nat (l0 + c4 * 5) :: u64) = of_nat c5"
      unfolding c0_def c1_def c2_def c3_def c4_def c5_def
      using assms c l by (simp_all add: drop_of_nat64 del: of_nat_add of_nat_mult)
    have m: "of_nat h0 AND (mask 26 :: u64) = of_nat l0" "of_nat (h1 + c0) AND (mask 26 :: u64) = of_nat l1"
      "of_nat (h2 + c1) AND (mask 26 :: u64) = of_nat l2" "of_nat (h3 + c2) AND (mask 26 :: u64) = of_nat l3"
      "of_nat (h4 + c3) AND (mask 26 :: u64) = of_nat l4" "of_nat (l0 + c4 * 5) AND (mask 26 :: u64) = of_nat l5"
      unfolding l0_def l1_def l2_def l3_def l4_def l5_def
      by (simp_all add: mask_of_nat del: of_nat_add of_nat_mult)
    show ?thesis
      unfolding carry_chain_def Let_def mask26 a d m ucast_down_of_nat by simp
  qed
  moreover have "val26 [l5, l1 + c5, l2, l3, l4] + c4 * (2 ^ 130 - 5) = val26 [h0, h1, h2, h3, h4]"
    using e by simp
  ultimately show ?thesis using l c by (intro exI conjI) (assumption | simp)+
qed

text \<open>The columns of the product, and what they stand for modulo \<open>2^130 - 5\<close>.\<close>

definition columns :: "nat list \<Rightarrow> nat list \<Rightarrow> nat list" where
  "columns a r =
     (let a0 = a ! 0; a1 = a ! 1; a2 = a ! 2; a3 = a ! 3; a4 = a ! 4;
          r0 = r ! 0; r1 = r ! 1; r2 = r ! 2; r3 = r ! 3; r4 = r ! 4
      in [a0 * r0 + a1 * (r4 * 5) + a2 * (r3 * 5) + a3 * (r2 * 5) + a4 * (r1 * 5),
          a0 * r1 + a1 * r0 + a2 * (r4 * 5) + a3 * (r3 * 5) + a4 * (r2 * 5),
          a0 * r2 + a1 * r1 + a2 * r0 + a3 * (r4 * 5) + a4 * (r3 * 5),
          a0 * r3 + a1 * r2 + a2 * r1 + a3 * r0 + a4 * (r4 * 5),
          a0 * r4 + a1 * r3 + a2 * r2 + a3 * r1 + a4 * r0])"

lemma columns_product:
  fixes a0 a1 a2 a3 a4 r0 r1 r2 r3 r4 :: nat
  shows "val26 [a0, a1, a2, a3, a4] * val26 [r0, r1, r2, r3, r4] =
    val26 (columns [a0, a1, a2, a3, a4] [r0, r1, r2, r3, r4]) + (2 ^ 130 - 5) *
      (a1 * r4 + a2 * r3 + a3 * r2 + a4 * r1 + 2 ^ 26 * (a2 * r4 + a3 * r3 + a4 * r2) +
       2 ^ 52 * (a3 * r4 + a4 * r3) + 2 ^ 78 * (a4 * r4))"
  by (simp add: columns_def Let_def algebra_simps)

lemma columns_bound:
  assumes "list_all (\<lambda>x. x \<le> 2 ^ 28) [a0, a1, a2, a3, a4]" and "list_all (\<lambda>x. x \<le> 2 ^ 26) [r0, r1, r2, r3, r4]"
  shows "list_all (\<lambda>x. x < 2 ^ 60) (columns [a0, a1, a2, a3, a4] [r0, r1, r2, r3, r4])"
proof -
  have b: "x * y \<le> 2 ^ 54" "x * (y * 5) \<le> 5 * 2 ^ 54" if "x \<le> 2 ^ 28" "y \<le> 2 ^ 26" for x y :: nat
    using mult_le_mono [OF that] by simp_all
  have "a * r + b' * (s * 5) + c * (t * 5) + d * (u * 5) + e * (v * 5) < 2 ^ 60 \<and>
      a * r + b' * s + c * (t * 5) + d * (u * 5) + e * (v * 5) < 2 ^ 60 \<and>
      a * r + b' * s + c * t + d * (u * 5) + e * (v * 5) < 2 ^ 60 \<and>
      a * r + b' * s + c * t + d * u + e * (v * 5) < 2 ^ 60 \<and>
      a * r + b' * s + c * t + d * u + e * v < 2 ^ 60"
    if "list_all (\<lambda>x. x \<le> 2 ^ 28) [a, b', c, d, e]" "list_all (\<lambda>x. x \<le> 2 ^ 26) [r, s, t, u, v]"
    for a b' c d e r s t u v :: nat
    using b [of a r] b [of b' s] b [of c t] b [of d u] b [of e v] that by simp
  then show ?thesis using assms by (simp add: columns_def Let_def)
qed

text \<open>The invariant of the limbs.\<close>

definition limbs_ok :: "wg_poly1305_ctx \<Rightarrow> bool" where
  "limbs_ok ctx \<longleftrightarrow> length (p_acc ctx) = 5 \<and> length (p_r ctx) = 5 \<and>
     list_all (\<lambda>x. unat x < 2 ^ 26 + 2 ^ 13) (p_acc ctx) \<and> list_all (\<lambda>x. unat x \<le> 2 ^ 26) (p_r ctx)"

lemma list_of_5: "length xs = 5 \<Longrightarrow> \<exists>a b c d e. xs = [a, b, c, d, e]"
  by (auto simp: length_Suc_conv eval_nat_numeral)

definition data_limbs :: "bytes \<Rightarrow> nat \<Rightarrow> nat list" where
  "data_limbs data b =
     (let t0 = unat (load32_le data); t1 = unat (load32_le (drop 4 data));
          t2 = unat (load32_le (drop 8 data)); t3 = unat (load32_le (drop 12 data))
      in [t0 mod 2 ^ 26, t0 div 2 ^ 26 + 2 ^ 6 * (t1 mod 2 ^ 20), t1 div 2 ^ 20 + 2 ^ 12 * (t2 mod 2 ^ 14),
          t2 div 2 ^ 14 + 2 ^ 18 * (t3 mod 2 ^ 8), t3 div 2 ^ 8 + 2 ^ 24 * b])"

lemma data_limbs_val: "length data = 16 \<Longrightarrow> val26 (data_limbs data b) = le_num data + 2 ^ 128 * b"
  unfolding data_limbs_def Let_def limbs_sum num_words ..

lemma data_limbs_bound:
  assumes "b \<le> 1"
  shows "list_all (\<lambda>x. x \<le> 2 ^ 26) (data_limbs data b)"
proof -
  have l: "(x :: u32) AND 0x3ffffff = y \<Longrightarrow> unat y \<le> 2 ^ 26" for x y
    using limb0 [of x] by (metis less_imp_le mod_less_divisor zero_less_numeral zero_less_power)
  have "unat (load32_le (drop 12 data)) div 2 ^ 8 < 2 ^ 24"
    using unat_u32_less [of "load32_le (drop 12 data)"] by (simp add: less_mult_imp_div_less)
  with assms have "unat (load32_le (drop 12 data)) div 2 ^ 8 + 2 ^ 24 * b \<le> 2 ^ 26" by simp
  with l [OF limb1_def [symmetric]] l [OF limb2_def [symmetric]] l [OF limb3_def [symmetric]]
  show ?thesis by (simp add: data_limbs_def Let_def limb_cuts)
qed

lemma add_block_num:
  assumes "acc = [x0, x1, x2, x3, x4]" and "b \<le> 1"
  shows "add_block acc data (of_nat b) = map of_nat (map2 (+) (map unat acc) (data_limbs data b))"
  unfolding add_block_def Let_def data_limbs_def assms(1) ucast_u32_u64 limb_cuts limb0 limb4 [OF assms(2)]
  by simp

text \<open>Where the sums fit 32 bits, the narrowing before the vector multiplication is harmless.\<close>

lemma column_neon_wide:
  assumes "list_all (\<lambda>x. ucast (ucast x :: u32) = x) [a0, a1, a2, a3, a4 :: u64]"
  shows "column_neon (map ucast [a0, a1, a2, a3, a4]) [y0, y1, y2, y3, y4] =
    a0 * ucast y0 + a1 * ucast y1 + a2 * ucast y2 + a3 * ucast y3 + a4 * ucast y4"
  using assms by (simp add: column_neon_def Let_def vdup_n_u32_def)

lemma poly_block_neon_scalar:
  assumes "length (add_block (p_acc ctx) data hibit) = 5"
    and "list_all (\<lambda>x. ucast (ucast x :: u32) = x) (add_block (p_acc ctx) data hibit)"
  shows "poly1305_block_neon ctx data hibit = poly1305_block_scalar ctx data hibit"
proof -
  obtain a0 a1 a2 a3 a4 where a: "add_block (p_acc ctx) data hibit = [a0, a1, a2, a3, a4]"
    using list_of_5 [OF assms(1)] by blast
  show ?thesis
    using column_neon_wide [OF assms(2) [unfolded a]]
    unfolding poly1305_block_neon_def poly1305_block_scalar_def a Let_def by simp
qed

definition block_acc :: "nat list \<Rightarrow> nat list \<Rightarrow> u32 list" where
  "block_acc a r =
     (let h = columns a r
      in carry_chain (of_nat (h ! 0)) (of_nat (h ! 1)) (of_nat (h ! 2)) (of_nat (h ! 3)) (of_nat (h ! 4)))"

lemma limbs_ok_cases:
  assumes "limbs_ok ctx"
  obtains x0 x1 x2 x3 x4 n0 n1 n2 n3 n4
  where "p_acc ctx = [x0, x1, x2, x3, x4]" "p_r ctx = map of_nat [n0, n1, n2, n3, n4]"
    "map unat (p_r ctx) = [n0, n1, n2, n3, n4]" "list_all (\<lambda>x. x \<le> 2 ^ 26) [n0, n1, n2, n3, n4]"
proof -
  from assms have l: "length (p_acc ctx) = 5" "length (map unat (p_r ctx)) = 5"
    by (simp_all add: limbs_ok_def)
  obtain x0 x1 x2 x3 x4 where "p_acc ctx = [x0, x1, x2, x3, x4]" using list_of_5 [OF l(1)] by blast
  moreover obtain n0 n1 n2 n3 n4 where n: "map unat (p_r ctx) = [n0, n1, n2, n3, n4]"
    using list_of_5 [OF l(2)] by metis
  moreover have "p_r ctx = map of_nat (map unat (p_r ctx))" by (simp add: comp_def)
  moreover have "list_all (\<lambda>x. x \<le> 2 ^ 26) (map unat (p_r ctx))"
    using assms by (simp add: limbs_ok_def list_all_iff)
  ultimately show ?thesis using that by simp
qed

lemma block_sums:
  fixes data :: bytes
  assumes "limbs_ok ctx" and "b \<le> 1"
  obtains a0 a1 a2 a3 a4
  where "add_block (p_acc ctx) data (of_nat b) = map of_nat [a0, a1, a2, a3, a4]"
    "list_all (\<lambda>x. x \<le> 2 ^ 28) [a0, a1, a2, a3, a4]"
    "val26 [a0, a1, a2, a3, a4] = lv (p_acc ctx) + val26 (data_limbs data b)"
proof -
  obtain x0 x1 x2 x3 x4 where acc: "p_acc ctx = [x0, x1, x2, x3, x4]"
    by (rule limbs_ok_cases [OF assms(1)])
  have "length (data_limbs data b) = 5" by (simp add: data_limbs_def Let_def)
  then obtain d0 d1 d2 d3 d4 where d: "data_limbs data b = [d0, d1, d2, d3, d4]"
    using list_of_5 by blast
  have "list_all (\<lambda>x. x \<le> 2 ^ 28) [unat x0 + d0, unat x1 + d1, unat x2 + d2, unat x3 + d3, unat x4 + d4]"
    using assms(1) data_limbs_bound [OF assms(2), of data] by (simp add: acc d limbs_ok_def)
  moreover have "add_block (p_acc ctx) data (of_nat b) =
      map of_nat [unat x0 + d0, unat x1 + d1, unat x2 + d2, unat x3 + d3, unat x4 + d4]"
    using add_block_num [OF acc assms(2)] by (simp add: acc d)
  moreover have "val26 [unat x0 + d0, unat x1 + d1, unat x2 + d2, unat x3 + d3, unat x4 + d4] =
      lv (p_acc ctx) + val26 (data_limbs data b)" by (simp add: lv_def acc d)
  ultimately show ?thesis using that by blast
qed

lemma block_num:
  assumes ok: "limbs_ok ctx" and b: "b \<le> 1"
  shows "poly1305_block_neon ctx data (of_nat b) = poly1305_block_scalar ctx data (of_nat b)"
    and "\<exists>a. poly1305_block_scalar ctx data (of_nat b) = ctx\<lparr>p_acc := block_acc a (map unat (p_r ctx))\<rparr> \<and>
      length a = 5 \<and> list_all (\<lambda>x. x \<le> 2 ^ 28) a \<and> val26 a = lv (p_acc ctx) + val26 (data_limbs data b)"
proof -
  obtain a0 a1 a2 a3 a4 where add: "add_block (p_acc ctx) data (of_nat b) = map of_nat [a0, a1, a2, a3, a4]"
    and ab: "list_all (\<lambda>x. x \<le> 2 ^ 28) [a0, a1, a2, a3, a4]"
    and av: "val26 [a0, a1, a2, a3, a4] = lv (p_acc ctx) + val26 (data_limbs data b)"
    by (rule block_sums [OF ok b, of data])
  show "poly1305_block_neon ctx data (of_nat b) = poly1305_block_scalar ctx data (of_nat b)"
    by (rule poly_block_neon_scalar) (use ab in \<open>simp_all add: add ucast_down_of_nat ucast_up_of_nat\<close>)
  obtain n0 n1 n2 n3 n4 where r: "p_r ctx = map of_nat [n0, n1, n2, n3, n4]"
      "map unat (p_r ctx) = [n0, n1, n2, n3, n4]" "list_all (\<lambda>x. x \<le> 2 ^ 26) [n0, n1, n2, n3, n4]"
    by (rule limbs_ok_cases [OF ok])
  have "(ucast (of_nat n * 5 :: u32) :: u64) = of_nat (n * 5)" if "n \<le> 2 ^ 26" for n
    using ucast_up_of_nat [of "n * 5"] that by simp
  then have "poly1305_block_scalar ctx data (of_nat b) =
      ctx\<lparr>p_acc := block_acc [a0, a1, a2, a3, a4] [n0, n1, n2, n3, n4]\<rparr>"
    using r(3) unfolding poly1305_block_scalar_def add r(1)
    by (simp add: Let_def ucast_up_of_nat block_acc_def columns_def)
  then show "\<exists>a. poly1305_block_scalar ctx data (of_nat b) = ctx\<lparr>p_acc := block_acc a (map unat (p_r ctx))\<rparr> \<and>
      length a = 5 \<and> list_all (\<lambda>x. x \<le> 2 ^ 28) a \<and> val26 a = lv (p_acc ctx) + val26 (data_limbs data b)"
    unfolding r(2) using ab av by (intro exI [of _ "[a0, a1, a2, a3, a4]"]) simp
qed

lemma mod_eq_multiple: "(x :: nat) + c * p = y \<Longrightarrow> x mod p = y mod p"
  by auto

lemma block_spec:
  assumes ok: "limbs_ok ctx" and b: "b \<le> 1" and "length data = 16"
  shows "\<exists>acc'. poly1305_block ctx data (of_nat b) = ctx\<lparr>p_acc := acc'\<rparr> \<and> limbs_ok (ctx\<lparr>p_acc := acc'\<rparr>) \<and>
    lv acc' mod P130 = (lv (p_acc ctx) + le_num data + 2 ^ 128 * b) * lv (p_r ctx) mod P130"
proof -
  obtain n0 n1 n2 n3 n4 where r: "map unat (p_r ctx) = [n0, n1, n2, n3, n4]"
      "list_all (\<lambda>x. x \<le> 2 ^ 26) [n0, n1, n2, n3, n4]"
    by (rule limbs_ok_cases [OF ok])
  obtain a0 a1 a2 a3 a4 where blk: "poly1305_block ctx data (of_nat b) =
      ctx\<lparr>p_acc := block_acc [a0, a1, a2, a3, a4] [n0, n1, n2, n3, n4]\<rparr>"
    and ab: "list_all (\<lambda>x. x \<le> 2 ^ 28) [a0, a1, a2, a3, a4]"
    and av: "val26 [a0, a1, a2, a3, a4] = lv (p_acc ctx) + val26 (data_limbs data b)"
    using block_num [OF ok b, of data] list_of_5 unfolding poly1305_block_def r(1) by metis
  let ?h = "columns [a0, a1, a2, a3, a4] [n0, n1, n2, n3, n4]"
  have h5: "?h = [?h ! 0, ?h ! 1, ?h ! 2, ?h ! 3, ?h ! 4]" by (simp add: columns_def Let_def)
  have "list_all (\<lambda>x. x < 2 ^ 60) [?h ! 0, ?h ! 1, ?h ! 2, ?h ! 3, ?h ! 4]"
    using columns_bound [OF ab r(2)] h5 by metis
  then obtain o0 o1 o2 o3 o4 c where o: "block_acc [a0, a1, a2, a3, a4] [n0, n1, n2, n3, n4] = map of_nat [o0, o1, o2, o3, o4]"
    and ob: "o0 < 2 ^ 26" "o1 < 2 ^ 26 + 2 ^ 13" "o2 < 2 ^ 26" "o3 < 2 ^ 26" "o4 < 2 ^ 26"
    and ov: "val26 [o0, o1, o2, o3, o4] + c * (2 ^ 130 - 5) = val26 [?h ! 0, ?h ! 1, ?h ! 2, ?h ! 3, ?h ! 4]"
    using carry_chain_num [of "?h ! 0" "?h ! 1" "?h ! 2" "?h ! 3" "?h ! 4"]
    unfolding block_acc_def Let_def list.pred_inject by blast
  have u: "map unat (map of_nat [o0, o1, o2, o3, o4] :: u32 list) = [o0, o1, o2, o3, o4]"
    using ob by (simp add: unat_of_nat)
  have "val26 [o0, o1, o2, o3, o4] mod P130 = val26 ?h mod P130"
    using mod_eq_multiple [OF ov] h5 unfolding P130_def by metis
  also have "\<dots> = val26 [a0, a1, a2, a3, a4] * val26 [n0, n1, n2, n3, n4] mod P130"
    unfolding columns_product P130_def by (simp only: mod_mult_self2)
  also have "\<dots> = (lv (p_acc ctx) + le_num data + 2 ^ 128 * b) * lv (p_r ctx) mod P130"
    unfolding av data_limbs_val [OF assms(3)] by (simp add: lv_def r(1) add.assoc)
  finally have "lv (map of_nat [o0, o1, o2, o3, o4]) mod P130 =
      (lv (p_acc ctx) + le_num data + 2 ^ 128 * b) * lv (p_r ctx) mod P130"
    unfolding lv_def u .
  moreover have "limbs_ok (ctx\<lparr>p_acc := map of_nat [o0, o1, o2, o3, o4]\<rparr>)"
    using ok ob by (simp add: limbs_ok_def unat_of_nat)
  ultimately show ?thesis unfolding blk o by blast
qed

section \<open>The final reduction\<close>

lemma of_nat_ops32:
  "(of_nat x :: u32) + of_nat y = of_nat (x + y)" "(of_nat x :: u32) * 5 = of_nat (x * 5)"
  "(of_nat x :: u32) + 5 = of_nat (x + 5)"
  by simp_all

lemma split26:
  assumes "n = 2 ^ 26 * c + l" and "l < 2 ^ 26" and "c \<le> 1"
  shows "drop_bit 26 (of_nat n :: u32) = of_nat c" and "of_nat n AND (mask 26 :: u32) = of_nat l"
proof -
  have n: "n < 2 ^ 32" "n div 2 ^ 26 = c" "n mod 2 ^ 26 = l" using assms by simp_all
  then show "drop_bit 26 (of_nat n :: u32) = of_nat c" using drop_of_nat [of n 26, where ?'a = 32] by simp
  show "of_nat n AND (mask 26 :: u32) = of_nat l" using mask_of_nat [of 26 n, where ?'a = 32] n by simp
qed

lemma final_carry_num:
  fixes h0 h1 h2 h3 h4 :: nat
  assumes "list_all (\<lambda>x. x < 2 ^ 26 + 2 ^ 13) [h0, h1, h2, h3, h4]"
  shows "\<exists>m0 m1 m2 m3 m4 c. final_carry (map of_nat [h0, h1, h2, h3, h4]) = map of_nat [m0, m1, m2, m3, m4] \<and>
    m0 < 2 ^ 26 \<and> m1 \<le> 2 ^ 26 \<and> m2 < 2 ^ 26 \<and> m3 < 2 ^ 26 \<and> m4 < 2 ^ 26 \<and>
    val26 [m0, m1, m2, m3, m4] < 2 ^ 130 + 2 ^ 14 \<and>
    val26 [m0, m1, m2, m3, m4] + c * (2 ^ 130 - 5) = val26 [h0, h1, h2, h3, h4]"
proof -
  define c1 l1 where "c1 = h1 div 2 ^ 26" and "l1 = h1 mod 2 ^ 26"
  define c2 l2 where "c2 = (h2 + c1) div 2 ^ 26" and "l2 = (h2 + c1) mod 2 ^ 26"
  define c3 l3 where "c3 = (h3 + c2) div 2 ^ 26" and "l3 = (h3 + c2) mod 2 ^ 26"
  define c4 l4 where "c4 = (h4 + c3) div 2 ^ 26" and "l4 = (h4 + c3) mod 2 ^ 26"
  define c0 l0 where "c0 = (h0 + c4 * 5) div 2 ^ 26" and "l0 = (h0 + c4 * 5) mod 2 ^ 26"
  have e: "h1 = 2 ^ 26 * c1 + l1" "h2 + c1 = 2 ^ 26 * c2 + l2" "h3 + c2 = 2 ^ 26 * c3 + l3"
    "h4 + c3 = 2 ^ 26 * c4 + l4" "h0 + c4 * 5 = 2 ^ 26 * c0 + l0"
    unfolding c0_def l0_def c1_def l1_def c2_def l2_def c3_def l3_def c4_def l4_def by simp_all
  have l: "l0 < 2 ^ 26" "l1 < 2 ^ 26" "l2 < 2 ^ 26" "l3 < 2 ^ 26" "l4 < 2 ^ 26"
    unfolding l0_def l1_def l2_def l3_def l4_def by simp_all
  have c: "c1 \<le> 1" "c2 \<le> 1" "c3 \<le> 1" "c4 \<le> 1" "c0 \<le> 1" using e l assms by simp_all
  note d = split26(1) [OF e(1) l(2) c(1)] split26(1) [OF e(2) l(3) c(2)] split26(1) [OF e(3) l(4) c(3)]
    split26(1) [OF e(4) l(5) c(4)] split26(1) [OF e(5) l(1) c(5)]
  note m = split26(2) [OF e(1) l(2) c(1)] split26(2) [OF e(2) l(3) c(2)] split26(2) [OF e(3) l(4) c(3)]
    split26(2) [OF e(4) l(5) c(4)] split26(2) [OF e(5) l(1) c(5)]
  have nths: "map of_nat [h0, h1, h2, h3, h4] ! 0 = (of_nat h0 :: u32)"
    "map of_nat [h0, h1, h2, h3, h4] ! 1 = (of_nat h1 :: u32)"
    "map of_nat [h0, h1, h2, h3, h4] ! 2 = (of_nat h2 :: u32)"
    "map of_nat [h0, h1, h2, h3, h4] ! 3 = (of_nat h3 :: u32)"
    "map of_nat [h0, h1, h2, h3, h4] ! 4 = (of_nat h4 :: u32)"
    by simp_all
  have "final_carry (map of_nat [h0, h1, h2, h3, h4]) = map of_nat [l0, l1 + c0, l2, l3, l4]"
    unfolding final_carry_def Let_def mask26 nths of_nat_ops32 d m by simp
  moreover have "l1 + c0 \<le> 2 ^ 26" using l c by simp
  moreover have "val26 [l0, l1 + c0, l2, l3, l4] < 2 ^ 130 + 2 ^ 14"
    using l c e(5) assms by (cases "c0 = 0") simp_all
  moreover have "val26 [l0, l1 + c0, l2, l3, l4] + c4 * (2 ^ 130 - 5) = val26 [h0, h1, h2, h3, h4]"
    using e by simp
  ultimately show ?thesis using l by blast
qed

lemma final_minus_num:
  fixes m0 m1 m2 m3 m4 :: nat
  assumes "m0 < 2 ^ 26" "m1 \<le> 2 ^ 26" "m2 < 2 ^ 26" "m3 < 2 ^ 26" "m4 < 2 ^ 26"
  shows "\<exists>e0 e1 e2 e3 g4. final_minus (map of_nat [m0, m1, m2, m3, m4]) =
      map of_nat [e0, e1, e2, e3] @ [of_nat g4 - push_bit 26 1] \<and>
    e0 < 2 ^ 26 \<and> e1 < 2 ^ 26 \<and> e2 < 2 ^ 26 \<and> e3 < 2 ^ 26 \<and> g4 \<le> 2 ^ 26 \<and>
    val26 [e0, e1, e2, e3, g4] = val26 [m0, m1, m2, m3, m4] + 5"
proof -
  define c0 l0 where "c0 = (m0 + 5) div 2 ^ 26" and "l0 = (m0 + 5) mod 2 ^ 26"
  define c1 l1 where "c1 = (m1 + c0) div 2 ^ 26" and "l1 = (m1 + c0) mod 2 ^ 26"
  define c2 l2 where "c2 = (m2 + c1) div 2 ^ 26" and "l2 = (m2 + c1) mod 2 ^ 26"
  define c3 l3 where "c3 = (m3 + c2) div 2 ^ 26" and "l3 = (m3 + c2) mod 2 ^ 26"
  have e: "m0 + 5 = 2 ^ 26 * c0 + l0" "m1 + c0 = 2 ^ 26 * c1 + l1" "m2 + c1 = 2 ^ 26 * c2 + l2"
    "m3 + c2 = 2 ^ 26 * c3 + l3"
    unfolding c0_def l0_def c1_def l1_def c2_def l2_def c3_def l3_def by simp_all
  have l: "l0 < 2 ^ 26" "l1 < 2 ^ 26" "l2 < 2 ^ 26" "l3 < 2 ^ 26"
    unfolding l0_def l1_def l2_def l3_def by simp_all
  have c: "c0 \<le> 1" "c1 \<le> 1" "c2 \<le> 1" "c3 \<le> 1" using e l assms by simp_all
  note d = split26(1) [OF e(1) l(1) c(1)] split26(1) [OF e(2) l(2) c(2)] split26(1) [OF e(3) l(3) c(3)]
    split26(1) [OF e(4) l(4) c(4)]
  note m = split26(2) [OF e(1) l(1) c(1)] split26(2) [OF e(2) l(2) c(2)] split26(2) [OF e(3) l(3) c(3)]
    split26(2) [OF e(4) l(4) c(4)]
  have nths: "map of_nat [m0, m1, m2, m3, m4] ! 0 = (of_nat m0 :: u32)"
    "map of_nat [m0, m1, m2, m3, m4] ! 1 = (of_nat m1 :: u32)"
    "map of_nat [m0, m1, m2, m3, m4] ! 2 = (of_nat m2 :: u32)"
    "map of_nat [m0, m1, m2, m3, m4] ! 3 = (of_nat m3 :: u32)"
    "map of_nat [m0, m1, m2, m3, m4] ! 4 = (of_nat m4 :: u32)"
    by simp_all
  have "final_minus (map of_nat [m0, m1, m2, m3, m4]) =
      map of_nat [l0, l1, l2, l3] @ [of_nat (m4 + c3) - push_bit 26 1]"
    unfolding final_minus_def Let_def mask26 nths of_nat_ops32 d m by simp
  moreover have "m4 + c3 \<le> 2 ^ 26" using assms c by simp
  moreover have "val26 [l0, l1, l2, l3, m4 + c3] = val26 [m0, m1, m2, m3, m4] + 5" using e by simp
  ultimately show ?thesis using l by blast
qed

lemma final_select_num:
  fixes m0 m1 m2 m3 m4 :: nat
  assumes m: "m0 < 2 ^ 26" "m1 \<le> 2 ^ 26" "m2 < 2 ^ 26" "m3 < 2 ^ 26" "m4 < 2 ^ 26"
    and V: "val26 [m0, m1, m2, m3, m4] < 2 ^ 130 + 2 ^ 14"
  defines "h \<equiv> map of_nat [m0, m1, m2, m3, m4] :: u32 list"
  shows "\<exists>q0 q1 q2 q3 q4. final_select h (final_minus h) = map of_nat [q0, q1, q2, q3, q4] \<and>
    q0 < 2 ^ 26 \<and> list_all (\<lambda>x. x \<le> 2 ^ 26) [q1, q2, q3, q4] \<and>
    val26 [q0, q1, q2, q3, q4] = val26 [m0, m1, m2, m3, m4] mod P130"
proof -
  obtain e0 e1 e2 e3 g4 where g: "final_minus h = map of_nat [e0, e1, e2, e3] @ [of_nat g4 - push_bit 26 1]"
    and e: "e0 < 2 ^ 26" "e1 < 2 ^ 26" "e2 < 2 ^ 26" "e3 < 2 ^ 26" "g4 \<le> 2 ^ 26"
    and ev: "val26 [e0, e1, e2, e3, g4] = val26 [m0, m1, m2, m3, m4] + 5"
    using final_minus_num [OF m] unfolding h_def by blast
  show ?thesis
  proof (cases "g4 = 2 ^ 26")
    case True
    then have g0: "of_nat g4 - push_bit 26 1 = (0 :: u32)" by simp
    have "final_select h (final_minus h) = map of_nat [e0, e1, e2, e3, 0]"
      unfolding g g0 by (simp add: final_select_def Let_def h_def)
    moreover have "val26 [e0, e1, e2, e3, 0] + 1 * P130 = val26 [m0, m1, m2, m3, m4]"
      and "val26 [e0, e1, e2, e3, 0] < P130"
      using ev V True by (simp_all add: P130_def)
    from mod_eq_multiple [OF this(1)] mod_less [OF this(2)]
    have "val26 [e0, e1, e2, e3, 0] = val26 [m0, m1, m2, m3, m4] mod P130" by argo
    moreover have "list_all (\<lambda>x. x \<le> 2 ^ 26) [e1, e2, e3, 0]" using e by simp
    ultimately show ?thesis using e(1) by blast
  next
    case False
    let ?x = "2 ^ 32 + g4 - 2 ^ 26"
    have "(of_nat ?x :: u32) = of_nat (2 ^ 32) + of_nat g4 - of_nat (2 ^ 26)"
      by (simp add: of_nat_diff)
    also have "\<dots> = of_nat g4 - push_bit 26 1" by simp
    finally have x: "of_nat g4 - push_bit 26 1 = (of_nat ?x :: u32)" ..
    have "?x < 2 ^ 32" "?x div 2 ^ 31 = 1" using False e(5) by simp_all
    then have "drop_bit 31 (of_nat g4 - push_bit 26 1 :: u32) = 1"
      unfolding x using drop_of_nat [of ?x 31, where ?'a = 32] by simp
    then have "final_select h (final_minus h) = h"
      unfolding g by (simp add: final_select_def Let_def h_def)
    moreover have "val26 [m0, m1, m2, m3, m4] < P130"
      using ev e False by (simp add: P130_def)
    from mod_less [OF this]
    have "val26 [m0, m1, m2, m3, m4] = val26 [m0, m1, m2, m3, m4] mod P130" by (rule sym)
    moreover have "list_all (\<lambda>x. x \<le> 2 ^ 26) [m1, m2, m3, m4]" using m by simp
    ultimately show ?thesis using m(1) unfolding h_def by blast
  qed
qed

text \<open>The words of the tag, with their carries, are the bytes of the sum.\<close>

lemma nat_to_le_mod: "nat_to_le k (n mod 256 ^ k) = nat_to_le k n"
proof (induction k arbitrary: n)
  case (Suc k)
  have "(of_nat (n mod (256 * 256 ^ k)) :: u8) = of_nat n"
    by (rule unsigned_word_eqI [where ?'a = nat]) (simp add: unat_of_nat mod_mod_cancel)
  moreover have "n mod (256 * 256 ^ k) div 256 = n div 256 mod 256 ^ k"
    by (simp add: mod_mult2_eq)
  ultimately show ?case using Suc.IH [of "n div 256"] by simp
qed simp

lemma store32_of_nat: "store32_le (of_nat n) = nat_to_le 4 n"
  using nat_to_le_mod [of 4 n] by (simp add: store32_num unat_of_nat)

lemma le_word_step: "nat_to_le (4 + k) (x + 2 ^ 32 * y) = store32_le (of_nat x) @ nat_to_le k (x div 2 ^ 32 + y)"
proof -
  have "nat_to_le 4 (x + 2 ^ 32 * y) = nat_to_le 4 x"
    using nat_to_le_mod [of 4 "x + 2 ^ 32 * y"] nat_to_le_mod [of 4 x] by simp
  then show ?thesis unfolding nat_to_le_append store32_of_nat by (simp add: add.commute)
qed

lemma or_of_nat64:
  assumes "x < 2 ^ 26" and "y \<le> 2 ^ 26"
  shows "(of_nat x :: u64) OR push_bit 26 (of_nat y) = of_nat (x + 2 ^ 26 * y)"
proof (rule unsigned_word_eqI [where ?'a = nat])
  have "unat (of_nat x :: u64) = x" "unat (of_nat (2 ^ 26 * y) :: u64) = 2 ^ 26 * y"
    using assms by (simp_all add: unat_of_nat del: of_nat_mult)
  then show "unat ((of_nat x :: u64) OR push_bit 26 (of_nat y)) = unat (of_nat (x + 2 ^ 26 * y) :: u64)"
    unfolding push_of_nat unsigned_or_eq using or_range [OF assms(1), of y] assms
    by (simp add: unat_of_nat del: of_nat_add of_nat_mult)
qed

lemma final_tag_num:
  fixes q0 q1 q2 q3 q4 :: nat
  assumes q: "q0 < 2 ^ 26" "list_all (\<lambda>x. x \<le> 2 ^ 26) [q1, q2, q3, q4]"
    and t: "list_all (\<lambda>x. x < 2 ^ 32) [t0, t1, t2, t3]"
  shows "final_tag (map of_nat [q0, q1, q2, q3, q4]) (map of_nat [t0, t1, t2, t3]) =
    nat_to_le 16 (val26 [q0, q1, q2, q3, q4] + (t0 + 2 ^ 32 * t1 + 2 ^ 64 * t2 + 2 ^ 96 * t3))"
proof -
  define f0 where f0: "f0 = q0 + 2 ^ 26 * q1 + t0"
  define f1 where f1: "f1 = 2 ^ 20 * q2 + t1 + f0 div 2 ^ 32"
  define f2 where f2: "f2 = 2 ^ 14 * q3 + t2 + f1 div 2 ^ 32"
  define f3 where f3: "f3 = 2 ^ 8 * q4 + t3 + f2 div 2 ^ 32"
  have f: "f0 < 2 ^ 60" "f1 < 2 ^ 61" "f2 < 2 ^ 62"
  proof -
    obtain d0 d1 where d: "d0 = f0 div 2 ^ 32" "d1 = f1 div 2 ^ 32" "d0 \<le> f0" "d1 \<le> f1" by simp
    show "f0 < 2 ^ 60" using q t by (simp add: f0)
    moreover have "f1 = 2 ^ 20 * q2 + t1 + d0" "f2 = 2 ^ 14 * q3 + t2 + d1"
      unfolding d by (rule f1, rule f2)
    ultimately show "f1 < 2 ^ 61" "f2 < 2 ^ 62" using q t d(3,4) by simp_all
  qed
  have sum: "val26 [q0, q1, q2, q3, q4] + (t0 + 2 ^ 32 * t1 + 2 ^ 64 * t2 + 2 ^ 96 * t3) =
      f0 + 2 ^ 32 * ((2 ^ 20 * q2 + t1) + 2 ^ 32 * ((2 ^ 14 * q3 + t2) + 2 ^ 32 * (2 ^ 8 * q4 + t3)))"
    by (simp add: f0)
  have "nat_to_le (4 + (4 + (4 + 4))) (f0 + 2 ^ 32 * ((2 ^ 20 * q2 + t1) + 2 ^ 32 * ((2 ^ 14 * q3 + t2) + 2 ^ 32 * (2 ^ 8 * q4 + t3)))) =
      store32_le (of_nat f0) @ store32_le (of_nat f1) @ store32_le (of_nat f2) @ store32_le (of_nat f3)"
  proof -
    have st: "f0 div 2 ^ 32 + ((2 ^ 20 * q2 + t1) + 2 ^ 32 * y) = f1 + 2 ^ 32 * y"
      "f1 div 2 ^ 32 + ((2 ^ 14 * q3 + t2) + 2 ^ 32 * y) = f2 + 2 ^ 32 * y"
      "f2 div 2 ^ 32 + (2 ^ 8 * q4 + t3) = f3" for y
      by (simp_all add: f1 f2 f3)
    show ?thesis by (simp only: le_word_step st) (simp only: store32_of_nat)
  qed
  moreover have "final_tag (map of_nat [q0, q1, q2, q3, q4]) (map of_nat [t0, t1, t2, t3]) =
      store32_le (of_nat f0) @ store32_le (of_nat f1) @ store32_le (of_nat f2) @ store32_le (of_nat f3)"
  proof -
    have w: "(ucast (of_nat x :: u32) :: u64) = of_nat x" if "x < 2 ^ 32" for x
      using that by (rule ucast_up_of_nat)
    have F: "(of_nat x :: u64) + of_nat y = of_nat (x + y)" for x y by simp
    have d: "drop_bit 32 (of_nat f0 :: u64) = of_nat (f0 div 2 ^ 32)"
      "drop_bit 32 (of_nat f1 :: u64) = of_nat (f1 div 2 ^ 32)"
      "drop_bit 32 (of_nat f2 :: u64) = of_nat (f2 div 2 ^ 32)"
      using f by (simp_all add: drop_of_nat64)
    have k: "(ucast (of_nat x AND (0xffffffff :: u64)) :: u32) = of_nat x" for x
      unfolding mask32 by (simp add: mask_of_nat ucast_down_of_nat)
        (simp add: word_unat_eq_iff unat_of_nat)
    have n: "map of_nat [q0, q1, q2, q3, q4] ! 0 = (of_nat q0 :: u32)"
      "map of_nat [q0, q1, q2, q3, q4] ! 1 = (of_nat q1 :: u32)"
      "map of_nat [q0, q1, q2, q3, q4] ! 2 = (of_nat q2 :: u32)"
      "map of_nat [q0, q1, q2, q3, q4] ! 3 = (of_nat q3 :: u32)"
      "map of_nat [q0, q1, q2, q3, q4] ! 4 = (of_nat q4 :: u32)"
      "map of_nat [t0, t1, t2, t3] ! 0 = (of_nat t0 :: u32)" "map of_nat [t0, t1, t2, t3] ! 1 = (of_nat t1 :: u32)"
      "map of_nat [t0, t1, t2, t3] ! 2 = (of_nat t2 :: u32)" "map of_nat [t0, t1, t2, t3] ! 3 = (of_nat t3 :: u32)"
      by simp_all
    have u: "(ucast (of_nat q0 :: u32) :: u64) = of_nat q0" "(ucast (of_nat q1 :: u32) :: u64) = of_nat q1"
      "(ucast (of_nat q2 :: u32) :: u64) = of_nat q2" "(ucast (of_nat q3 :: u32) :: u64) = of_nat q3"
      "(ucast (of_nat q4 :: u32) :: u64) = of_nat q4" "(ucast (of_nat t0 :: u32) :: u64) = of_nat t0"
      "(ucast (of_nat t1 :: u32) :: u64) = of_nat t1" "(ucast (of_nat t2 :: u32) :: u64) = of_nat t2"
      "(ucast (of_nat t3 :: u32) :: u64) = of_nat t3"
      using q t by (simp_all add: w)
    have o: "(of_nat q0 :: u64) OR push_bit 26 (of_nat q1) = of_nat (q0 + 2 ^ 26 * q1)"
      using q by (intro or_of_nat64) simp_all
    show ?thesis
      unfolding final_tag_def Let_def n u o unfolding push_of_nat F f0 [symmetric] d
      unfolding F f1 [symmetric] d unfolding F f2 [symmetric] d unfolding F f3 [symmetric] k ucast_down_of_nat ..
  qed
  ultimately show ?thesis unfolding sum by simp
qed

section \<open>The specification\<close>

text \<open>
  RFC 8439: the blocks of 16 bytes, each with a one appended, are the coefficients of a
  polynomial evaluated at the clamped first half of the key; the second half is added.
\<close>

function poly_eval :: "nat \<Rightarrow> nat \<Rightarrow> bytes \<Rightarrow> nat" where
  "poly_eval r acc m =
     (if m = [] then acc else poly_eval r ((acc + le_num (take 16 m @ [1])) * r mod P130) (drop 16 m))"
  by pat_completeness auto
termination
  by (relation "measure (\<lambda>(r, acc, m). length m)") auto

declare poly_eval.simps [simp del]

definition poly_r :: "bytes \<Rightarrow> nat" where
  "poly_r key = le_num (take 16 key) AND 0x0ffffffc0ffffffc0ffffffc0fffffff"

definition poly1305_spec :: "bytes \<Rightarrow> bytes \<Rightarrow> bytes" where
  "poly1305_spec key m = nat_to_le 16 (poly_eval (poly_r key) 0 m + le_num (take 16 (drop 16 key)))"

lemma poly_eval_Nil [simp]: "poly_eval r acc [] = acc"
  by (simp add: poly_eval.simps)

lemma poly_eval_append: "16 dvd length a \<Longrightarrow> poly_eval r acc (a @ b) = poly_eval r (poly_eval r acc a) b"
proof (induction r acc a rule: poly_eval.induct)
  case (1 r acc a)
  show ?case
  proof (cases "a = []")
    case False
    with 1(2) have "16 \<le> length a" by (auto dest: dvd_imp_le)
    moreover have "16 dvd length (drop 16 a)" using 1(2) by (simp add: dvd_diff_nat)
    ultimately show ?thesis
      using 1(1) [OF False] False by (simp add: poly_eval.simps [of r acc "a @ b"] poly_eval.simps [of r acc a])
  qed simp
qed

lemma poly_eval_block: "length d = 16 \<Longrightarrow> poly_eval r acc d = (acc + le_num d + 2 ^ 128) * r mod P130"
  by (subst poly_eval.simps) (auto simp: le_num_append add.assoc)

lemma poly_eval_last:
  "d \<noteq> [] \<Longrightarrow> length d < 16 \<Longrightarrow> poly_eval r acc d = (acc + le_num (d @ [1])) * r mod P130"
  by (subst poly_eval.simps) simp

text \<open>Clearing bits byte by byte is clearing them in the number.\<close>

lemma le_num_and: "length a = length b \<Longrightarrow> le_num (map2 (AND) a b) = le_num a AND le_num b"
proof (induction a b rule: list_induct2)
  case (Cons x a y b)
  have split: "unat (z :: u8) + 256 * n = unat z OR push_bit 8 n" for z n
    using or_range [of "unat z" 8 n] by (simp add: push_bit_eq_mult mult.commute)
  have out: "\<not> bit (unat (z :: u8)) i" if "8 \<le> i" for z i
    using that by (simp add: bit_unsigned_iff)
  show ?case
    by (simp add: Cons split, rule bit_eqI) (auto simp: bit_simps unsigned_and_eq Cons.IH dest: out)
qed simp

definition clamp_mask :: bytes where
  "clamp_mask = [255, 255, 255, 15, 252, 255, 255, 15, 252, 255, 255, 15, 252, 255, 255, 15]"

lemma list_of_16: "length xs = 16 \<Longrightarrow> \<exists>a b c d e f g h i j k l m n o' p.
    xs = [a, b, c, d, e, f, g, h, i, j, k, l, m, n, o', p]"
  by (auto simp: length_Suc_conv eval_nat_numeral)

lemma clamp_bytes_mask: "length r = 16 \<Longrightarrow> clamp_bytes r = map2 (AND) r clamp_mask"
proof -
  assume "length r = 16"
  then obtain a b c d e f g h i j k l m n o' p where r: "r = [a, b, c, d, e, f, g, h, i, j, k, l, m, n, o', p]"
    using list_of_16 [of r] by blast
  have "x AND 255 = x" for x :: u8
  proof -
    have "(255 :: u8) = mask 8" by (simp add: mask_eq_exp_minus_1)
    then show ?thesis by (simp add: bit_eq_iff bit_simps)
  qed
  then show ?thesis unfolding r clamp_bytes_def clamp_mask_def Let_def by simp
qed

lemma clamp_mask_num: "le_num clamp_mask = 0x0ffffffc0ffffffc0ffffffc0fffffff"
  by (simp add: clamp_mask_def)

lemma init_r:
  assumes "32 \<le> length key"
  shows "limbs_ok (wg_poly1305_init key)" and "lv (p_r (wg_poly1305_init key)) = poly_r key"
    and "lv (p_acc (wg_poly1305_init key)) = 0"
proof -
  let ?r = "clamp_bytes (take 16 key)"
  have l: "length (take 16 key) = 16" using assms by simp
  have rl: "length ?r = 16" using clamp_bytes_mask [OF l] assms by (simp add: clamp_mask_def)
  have "le_num ?r = poly_r key"
    using le_num_and [of "take 16 key" clamp_mask] l
    by (simp add: clamp_bytes_mask poly_r_def clamp_mask_num) (simp add: clamp_mask_def)
  moreover have p: "map unat (p_r (wg_poly1305_init key)) = data_limbs ?r 0"
    using limb4 [of 0 "load32_le (drop 12 ?r)"]
    by (simp add: wg_poly1305_init_def data_limbs_def Let_def limb0 limb_cuts)
  ultimately show "lv (p_r (wg_poly1305_init key)) = poly_r key"
    using data_limbs_val [OF rl, of 0] by (simp add: lv_def)
  have "list_all (\<lambda>x. x \<le> 2 ^ 26) (map unat (p_r (wg_poly1305_init key)))"
    unfolding p by (rule data_limbs_bound) simp
  then show "limbs_ok (wg_poly1305_init key)"
    by (simp add: limbs_ok_def list_all_iff) (simp add: wg_poly1305_init_def Let_def)
  show "lv (p_acc (wg_poly1305_init key)) = 0" by (simp add: wg_poly1305_init_def Let_def lv_def)
qed

section \<open>Streaming\<close>

text \<open>\<open>macs key m ctx\<close>: the context \<open>ctx\<close>, initialised with \<open>key\<close>, has absorbed \<open>m\<close>.\<close>

definition macs :: "bytes \<Rightarrow> bytes \<Rightarrow> wg_poly1305_ctx \<Rightarrow> bool" where
  "macs key m ctx \<longleftrightarrow> 32 \<le> length key \<and> limbs_ok ctx \<and> lv (p_r ctx) = poly_r key \<and>
     p_s ctx = p_s (wg_poly1305_init key) \<and> length (p_buf ctx) = 16 \<and> p_buf_len ctx < 16 \<and>
     (\<exists>a. m = a @ take (p_buf_len ctx) (p_buf ctx) \<and> 16 dvd length a \<and>
          lv (p_acc ctx) mod P130 = poly_eval (poly_r key) 0 a mod P130)"

lemma macs_init: "32 \<le> length key \<Longrightarrow> macs key [] (wg_poly1305_init key)"
  by (simp add: macs_def init_r) (simp add: wg_poly1305_init_def Let_def)

lemma mod_horner: "(x :: nat) mod p = y mod p \<Longrightarrow> (x + k) * r mod p = (y + k) * r mod p"
  by (intro mod_mult_cong mod_add_cong refl)

lemma macs_block:
  assumes "limbs_ok ctx" and "length d = 16" and "lv (p_r ctx) = R"
    and "lv (p_acc ctx) mod P130 = poly_eval R 0 a mod P130" and "16 dvd length a"
  shows "\<exists>acc'. poly1305_block ctx d 1 = ctx\<lparr>p_acc := acc'\<rparr> \<and> limbs_ok (ctx\<lparr>p_acc := acc'\<rparr>) \<and>
    lv acc' mod P130 = poly_eval R 0 (a @ d) mod P130"
proof -
  from block_spec [OF assms(1) _ assms(2), of 1] obtain acc'
    where b: "poly1305_block ctx d 1 = ctx\<lparr>p_acc := acc'\<rparr>" "limbs_ok (ctx\<lparr>p_acc := acc'\<rparr>)"
      "lv acc' mod P130 = (lv (p_acc ctx) + le_num d + 2 ^ 128) * R mod P130"
    by (auto simp: assms(3))
  have "(lv (p_acc ctx) + le_num d + 2 ^ 128) * R mod P130 =
      (poly_eval R 0 a + le_num d + 2 ^ 128) * R mod P130"
    unfolding add.assoc by (rule mod_horner [OF assms(4)])
  also have "\<dots> = poly_eval R 0 (a @ d) mod P130"
    unfolding poly_eval_append [OF assms(5)] poly_eval_block [OF assms(2)] by simp
  finally show ?thesis using b by auto
qed

lemma macs_loop:
  assumes "macs key m ctx" and "p_buf_len ctx = 0" and "poly_loop ctx data = (ctx', rest)"
  shows "\<exists>x. data = x @ rest \<and> macs key (m @ x) ctx' \<and> p_buf_len ctx' = 0 \<and> length rest < 16"
  using assms
proof (induction ctx data arbitrary: m rule: poly_loop.induct)
  case (1 ctx data)
  show ?case
  proof (cases "16 \<le> length data")
    case True
    let ?d = "take 16 data"
    obtain acc' where b: "poly1305_block ctx ?d 1 = ctx\<lparr>p_acc := acc'\<rparr>" "limbs_ok (ctx\<lparr>p_acc := acc'\<rparr>)"
      "lv acc' mod P130 = poly_eval (poly_r key) 0 (m @ ?d) mod P130"
      using macs_block [of ctx ?d _ m] 1(2,3) True by (auto simp: macs_def)
    have "macs key (m @ ?d) (poly1305_block ctx ?d 1)"
      using 1(2,3) True b by (auto simp: macs_def)
    moreover have "poly_loop (poly1305_block ctx ?d 1) (drop 16 data) = (ctx', rest)"
      using 1(4) True by (simp add: poly_loop.simps [of ctx])
    moreover have "p_buf_len (poly1305_block ctx ?d 1) = 0" using 1(3) b(1) by simp
    ultimately obtain x where "drop 16 data = x @ rest" "macs key ((m @ ?d) @ x) ctx'"
        "p_buf_len ctx' = 0" "length rest < 16"
      using 1(1) [OF True, of "m @ ?d"] by blast
    then show ?thesis
      by (intro exI [of _ "?d @ x"]) (metis append.assoc append_take_drop_id)
  next
    case False
    then show ?thesis using 1 by (simp add: poly_loop.simps [of ctx])
  qed
qed

lemma macs_tail:
  assumes "macs key m ctx" and "p_buf_len ctx = 0"
  shows "macs key (m @ data) (poly_tail ctx data)"
proof -
  obtain ctx' rest where p: "poly_loop ctx data = (ctx', rest)" by fastforce
  from macs_loop [OF assms p] obtain x where "data = x @ rest" "macs key (m @ x) ctx'"
    "p_buf_len ctx' = 0" "length rest < 16" by blast
  moreover have "poly_tail ctx data =
      (if 0 < length rest then ctx'\<lparr>p_buf := memcpy_at (p_buf ctx') 0 rest, p_buf_len := length rest\<rparr> else ctx')"
    by (simp add: poly_tail_def p)
  ultimately show ?thesis by (auto simp: macs_def memcpy_at_def limbs_ok_def)
qed

lemma macs_update:
  assumes "macs key m ctx"
  shows "macs key (m @ x) (wg_poly1305_update ctx x)"
proof (cases "0 < p_buf_len ctx")
  case False
  then show ?thesis using macs_tail [OF assms] by (simp add: wg_poly1305_update_def)
next
  case True
  let ?n = "p_buf_len ctx" and ?w = "16 - p_buf_len ctx"
  from assms obtain a where m: "m = a @ take ?n (p_buf ctx)" and a: "16 dvd length a"
      "lv (p_acc ctx) mod P130 = poly_eval (poly_r key) 0 a mod P130"
    and l: "?n < 16" "length (p_buf ctx) = 16"
    by (auto simp: macs_def)
  show ?thesis
  proof (cases "length x < ?w")
    case short: True
    then have "macs key (m @ x) (ctx\<lparr>p_buf := memcpy_at (p_buf ctx) ?n x, p_buf_len := ?n + length x\<rparr>)"
      using assms a l m by (auto simp: macs_def limbs_ok_def)
    then show ?thesis using True short by (simp add: wg_poly1305_update_def)
  next
    case False
    let ?d = "memcpy_at (p_buf ctx) ?n (take ?w x)"
    let ?c = "ctx\<lparr>p_buf := ?d\<rparr>"
    have d: "?d = take ?n (p_buf ctx) @ take ?w x" "length ?d = 16"
      using l False by (simp_all add: memcpy_at_def)
    have "limbs_ok ?c" using assms by (simp add: macs_def limbs_ok_def)
    then obtain acc' where b: "poly1305_block ?c ?d 1 = ?c\<lparr>p_acc := acc'\<rparr>" "limbs_ok (?c\<lparr>p_acc := acc'\<rparr>)"
      "lv acc' mod P130 = poly_eval (poly_r key) 0 (a @ ?d) mod P130"
      using macs_block [of ?c ?d _ a] a d(2) assms by (auto simp: macs_def)
    have "macs key (m @ take ?w x) ((poly1305_block ?c ?d 1)\<lparr>p_buf_len := 0\<rparr>)"
      using assms a(1) b d unfolding macs_def m
      by (auto simp: limbs_ok_def intro!: exI [of _ "a @ ?d"])
    from macs_tail [OF this, of "drop ?w x"] show ?thesis
      using True False by (simp add: wg_poly1305_update_def Let_def)
  qed
qed

lemma final_num:
  assumes "limbs_ok ctx" and "length (p_s ctx) = 4"
  shows "final_tag (final_select (final_carry (p_acc ctx)) (final_minus (final_carry (p_acc ctx)))) (p_s ctx) =
    nat_to_le 16 (lv (p_acc ctx) mod P130 + (unat (p_s ctx ! 0) + 2 ^ 32 * unat (p_s ctx ! 1) +
      2 ^ 64 * unat (p_s ctx ! 2) + 2 ^ 96 * unat (p_s ctx ! 3)))"
proof -
  have "length (map unat (p_acc ctx)) = 5" using assms(1) by (simp add: limbs_ok_def)
  then obtain h0 h1 h2 h3 h4 where h: "map unat (p_acc ctx) = [h0, h1, h2, h3, h4]"
    using list_of_5 by metis
  have "map of_nat (map unat (p_acc ctx)) = p_acc ctx" by (simp add: comp_def)
  then have acc: "p_acc ctx = map of_nat [h0, h1, h2, h3, h4]" using h by simp
  have "list_all (\<lambda>x. x < 2 ^ 26 + 2 ^ 13) (map unat (p_acc ctx))"
    using assms(1) by (simp add: limbs_ok_def list_all_iff)
  then have "list_all (\<lambda>x. x < 2 ^ 26 + 2 ^ 13) [h0, h1, h2, h3, h4]" unfolding h .
  from final_carry_num [OF this]
  obtain m0 m1 m2 m3 m4 c where m: "final_carry (p_acc ctx) = map of_nat [m0, m1, m2, m3, m4]"
      "m0 < 2 ^ 26" "m1 \<le> 2 ^ 26" "m2 < 2 ^ 26" "m3 < 2 ^ 26" "m4 < 2 ^ 26"
      "val26 [m0, m1, m2, m3, m4] < 2 ^ 130 + 2 ^ 14"
      "val26 [m0, m1, m2, m3, m4] + c * (2 ^ 130 - 5) = val26 [h0, h1, h2, h3, h4]"
    unfolding acc [symmetric] by blast
  obtain q0 q1 q2 q3 q4 where q: "final_select (final_carry (p_acc ctx)) (final_minus (final_carry (p_acc ctx))) =
      map of_nat [q0, q1, q2, q3, q4]" "q0 < 2 ^ 26" "list_all (\<lambda>x. x \<le> 2 ^ 26) [q1, q2, q3, q4]"
      "val26 [q0, q1, q2, q3, q4] = val26 [m0, m1, m2, m3, m4] mod P130"
    using final_select_num [OF m(2-7)] unfolding m(1) by blast
  have v: "val26 [q0, q1, q2, q3, q4] = lv (p_acc ctx) mod P130"
    using q(4) mod_eq_multiple [OF m(8)] unfolding lv_def h P130_def by simp
  obtain s0 s1 s2 s3 where s: "p_s ctx = [s0, s1, s2, s3]"
    using assms(2) by (auto simp: length_Suc_conv eval_nat_numeral)
  have "p_s ctx = map of_nat [unat s0, unat s1, unat s2, unat s3]" by (simp add: s)
  then show ?thesis
    using final_tag_num [OF q(2,3), of "unat s0" "unat s1" "unat s2" "unat s3"] unfolding q(1) v
    by (simp add: s)
qed

lemma poly_eval_less: "acc < P130 \<Longrightarrow> poly_eval r acc m < P130"
proof (induction r acc m rule: poly_eval.induct)
  case (1 r acc m)
  have "(acc + le_num (take 16 m @ [1])) * r mod P130 < P130" by (simp add: P130_def)
  with 1 show ?case by (cases "m = []") (simp_all add: poly_eval.simps [of r acc m])
qed

lemma poly_eval_mod: "poly_eval r 0 m mod P130 = poly_eval r 0 m"
  by (rule mod_less, rule poly_eval_less) (simp add: P130_def)

lemma init_s:
  assumes "32 \<le> length key" and "p_s ctx = p_s (wg_poly1305_init key)"
  shows "length (p_s ctx) = 4" and "unat (p_s ctx ! 0) + 2 ^ 32 * unat (p_s ctx ! 1) +
    2 ^ 64 * unat (p_s ctx ! 2) + 2 ^ 96 * unat (p_s ctx ! 3) = le_num (take 16 (drop 16 key))"
proof -
  have w: "load32_le (drop k (take 16 (drop 16 key))) = load32_le (drop (16 + k) key)" if "k \<le> 12" for k
    using that assms(1) by (simp add: load32_le_def add.commute)
  have "length (take 16 (drop 16 key)) = 16" using assms(1) by simp
  from num_words [OF this] w [of 0] w [of 4] w [of 8] w [of 12]
  show "unat (p_s ctx ! 0) + 2 ^ 32 * unat (p_s ctx ! 1) +
    2 ^ 64 * unat (p_s ctx ! 2) + 2 ^ 96 * unat (p_s ctx ! 3) = le_num (take 16 (drop 16 key))"
    by (simp add: assms(2) wg_poly1305_init_def Let_def)
  show "length (p_s ctx) = 4" by (simp add: assms(2) wg_poly1305_init_def Let_def)
qed

lemma macs_final:
  assumes "macs key m ctx"
  shows "wg_poly1305_final ctx = poly1305_spec key m"
proof -
  let ?n = "p_buf_len ctx" and ?R = "poly_r key"
  from assms obtain a where m: "m = a @ take ?n (p_buf ctx)" and a: "16 dvd length a"
      "lv (p_acc ctx) mod P130 = poly_eval ?R 0 a mod P130"
    and ok: "limbs_ok ctx" "lv (p_r ctx) = ?R" "?n < 16" "length (p_buf ctx) = 16" "32 \<le> length key"
      "p_s ctx = p_s (wg_poly1305_init key)"
    by (auto simp: macs_def)
  have tag: "final_tag (final_select (final_carry (p_acc c)) (final_minus (final_carry (p_acc c)))) (p_s c) =
      poly1305_spec key m"
    if "limbs_ok c" "p_s c = p_s ctx" "lv (p_acc c) mod P130 = poly_eval ?R 0 m" for c
    using final_num [of c] that init_s [OF ok(5), of c] ok(6) by (simp add: poly1305_spec_def)
  show ?thesis
  proof (cases "?n = 0")
    case True
    then show ?thesis
      using tag [of ctx] ok a by (simp add: wg_poly1305_final_def Let_def m poly_eval_mod)
  next
    case False
    let ?rest = "take ?n (p_buf ctx)"
    let ?b = "memcpy_at ((p_buf ctx)[?n := 1]) (?n + 1) (replicate (16 - ?n - 1) 0)"
    have b: "?b = (?rest @ [1]) @ replicate (16 - ?n - 1) 0" "length ?b = 16"
      using ok by (simp_all add: memcpy_at_def take_Suc_conv_app_nth [of ?n])
    have num: "le_num ?b = le_num (?rest @ [1])" unfolding b(1) le_num_append [of "?rest @ [1]"] by simp
    have "limbs_ok (ctx\<lparr>p_buf := ?b\<rparr>)" using ok(1) by (simp add: limbs_ok_def)
    from block_spec [OF this _ b(2), of 0] obtain acc'
      where blk: "poly1305_block (ctx\<lparr>p_buf := ?b\<rparr>) ?b 0 = ctx\<lparr>p_buf := ?b, p_acc := acc'\<rparr>"
        "limbs_ok (ctx\<lparr>p_buf := ?b, p_acc := acc'\<rparr>)"
        "lv acc' mod P130 = (lv (p_acc ctx) + le_num (?rest @ [1])) * ?R mod P130"
      using ok(2) unfolding num by auto
    have "lv acc' mod P130 = (poly_eval ?R 0 a + le_num (?rest @ [1])) * ?R mod P130"
      unfolding blk(3) by (rule mod_horner [OF a(2)])
    also have "\<dots> = poly_eval ?R 0 m"
      using False ok(3,4) unfolding m poly_eval_append [OF a(1)] by (subst poly_eval_last) auto
    finally have "lv acc' mod P130 = poly_eval ?R 0 m" .
    with tag [of "ctx\<lparr>p_buf := ?b, p_acc := acc'\<rparr>"] blk False show ?thesis
      by (simp add: wg_poly1305_final_def Let_def)
  qed
qed

section \<open>What a one-time authenticator promises\<close>

locale one_time_mac =
  fixes mac_init :: "bytes \<Rightarrow> 'c"
    and mac_update :: "'c \<Rightarrow> bytes \<Rightarrow> 'c"
    and mac_final :: "'c \<Rightarrow> bytes"
    and absorbed :: "bytes \<Rightarrow> bytes \<Rightarrow> 'c \<Rightarrow> bool"
  assumes init_absorbed: "32 \<le> length key \<Longrightarrow> absorbed key [] (mac_init key)"
    and update_absorbed: "absorbed key m c \<Longrightarrow> absorbed key (m @ x) (mac_update c x)"
    and final_spec: "absorbed key m c \<Longrightarrow> mac_final c = poly1305_spec key m"
begin

lemma updates_absorbed:
  "absorbed key m c \<Longrightarrow> absorbed key (m @ concat xs) (fold (\<lambda>x c. mac_update c x) xs c)"
proof (induction xs arbitrary: m c)
  case (Cons x xs)
  from Cons.IH [OF update_absorbed [OF Cons.prems]] show ?case by simp
qed simp

lemma streamed:
  "32 \<le> length key \<Longrightarrow> mac_final (fold (\<lambda>x c. mac_update c x) xs (mac_init key)) = poly1305_spec key (concat xs)"
  using final_spec updates_absorbed init_absorbed by fastforce

end

interpretation wgpoly: one_time_mac wg_poly1305_init wg_poly1305_update wg_poly1305_final macs
  by unfold_locales (rule macs_init macs_update macs_final, assumption)+

lemma poly1305_spec_length [simp, bytes_len]: "length (poly1305_spec key m) = 16"
  by (simp add: poly1305_spec_def)

section \<open>Properties\<close>

text \<open>
  C10: Poly1305. For every key and every way of cutting the message into updates, the limb
  arithmetic on the vector unit, with its lazy carries and its final masked subtraction, returns
  the authenticator of RFC 8439.
\<close>

theorem poly1305_correct:
  assumes "32 \<le> length key"
  shows "wg_poly1305_final (fold (\<lambda>x c. wg_poly1305_update c x) xs (wg_poly1305_init key)) =
    poly1305_spec key (concat xs)"
  using assms by (rule wgpoly.streamed)

theorem poly1305_correct_witness:
  "32 \<le> length (replicate 32 255 :: bytes) \<and>
   wg_poly1305_final (wg_poly1305_update (wg_poly1305_update (wg_poly1305_init (replicate 32 255))
     (replicate 5 255)) (replicate 43 255)) =
   poly1305_spec (replicate 32 255) (replicate 5 255 @ replicate 43 255)"
  using poly1305_correct [of "replicate 32 255" "[replicate 5 255, replicate 43 255]"] by simp

text \<open>
  C20: the NEON and the scalar block function agree on every context whose limbs are within the
  bounds that the block function itself keeps.
\<close>

theorem poly1305_neon_equiv:
  assumes "limbs_ok ctx" and "b \<le> 1" and "length data = 16"
  shows "poly1305_block_neon ctx data (of_nat b) = poly1305_block_scalar ctx data (of_nat b) \<and>
    limbs_ok (poly1305_block_neon ctx data (of_nat b))"
  using block_num(1) [OF assms(1,2), of data] block_spec [OF assms] unfolding poly1305_block_def by auto

theorem poly1305_neon_equiv_witness:
  "limbs_ok (wg_poly1305_init (replicate 32 255)) \<and>
   poly1305_block_neon (wg_poly1305_init (replicate 32 255)) (replicate 16 7) 1 =
   poly1305_block_scalar (wg_poly1305_init (replicate 32 255)) (replicate 16 7) 1"
  using poly1305_neon_equiv [of "wg_poly1305_init (replicate 32 255)" 1 "replicate 16 7"]
    init_r(1) [of "replicate 32 255"] by simp

end
