(* ===== verification/MonoPoly.thy ===== *)
theory MonoPoly
  imports Poly1305
begin

text \<open>
  The portable Poly1305 of \<open>library/crypto/monocypher.c\<close>, on limbs of 32 bits: a second
  implementation of the authenticator, used for the cookie and by the portable AEAD. It is shown
  to compute the same function as the NEON code.
\<close>

unbundle bit_operations_syntax

section \<open>Model\<close>

text \<open>The context: the partial block with its index, \<open>r\<close>, the pad and the accumulator.\<close>

record crypto_poly1305_ctx =
  mp_c :: bytes
  mp_c_idx :: nat
  mp_r :: "u32 list"
  mp_pad :: "u32 list"
  mp_h :: "u32 list"

definition gap :: "u64 \<Rightarrow> u64 \<Rightarrow> u64" where
  "gap x pow_2 = (NOT x + 1) AND (pow_2 - 1)"

text \<open>The partial reduction after the multiplication.\<close>

definition carry_words :: "u64 \<Rightarrow> u64 \<Rightarrow> u64 \<Rightarrow> u64 \<Rightarrow> u32 \<Rightarrow> u32 list" where
  "carry_words x0 x1 x2 x3 x4 =
     (let u5 = ucast (ucast x4 + drop_bit 32 x3) :: u32;
          u0 = ucast (drop_bit 2 u5 * 5) + (x0 AND 0xffffffff);
          u1 = drop_bit 32 u0 + (x1 AND 0xffffffff) + drop_bit 32 x0;
          u2 = drop_bit 32 u1 + (x2 AND 0xffffffff) + drop_bit 32 x1;
          u3 = drop_bit 32 u2 + (x3 AND 0xffffffff) + drop_bit 32 x2;
          u4 = ucast (drop_bit 32 u3 + ucast (u5 AND 3)) :: u32
      in [ucast (u0 AND 0xffffffff), ucast (u1 AND 0xffffffff), ucast (u2 AND 0xffffffff),
          ucast (u3 AND 0xffffffff), u4])"

definition poly_step :: "u32 list \<Rightarrow> u32 list \<Rightarrow> bytes \<Rightarrow> u32 \<Rightarrow> u32 list" where
  "poly_step r h inp fin =
     (let r0 = r ! 0; r1 = r ! 1; r2 = r ! 2; r3 = r ! 3;
          rr0 = drop_bit 2 r0 * 5;
          rr1 = drop_bit 2 r1 + r1;
          rr2 = drop_bit 2 r2 + r2;
          rr3 = drop_bit 2 r3 + r3;
          rr4 = r0 AND 3;
          s0 = ucast (h ! 0) + ucast (load32_le inp) :: u64;
          s1 = ucast (h ! 1) + ucast (load32_le (drop 4 inp)) :: u64;
          s2 = ucast (h ! 2) + ucast (load32_le (drop 8 inp)) :: u64;
          s3 = ucast (h ! 3) + ucast (load32_le (drop 12 inp)) :: u64;
          s4 = h ! 4 + fin;
          x0 = s0 * ucast r0 + s1 * ucast rr3 + s2 * ucast rr2 + s3 * ucast rr1 + ucast (s4 * rr0);
          x1 = s0 * ucast r1 + s1 * ucast r0 + s2 * ucast rr3 + s3 * ucast rr2 + ucast (s4 * rr1);
          x2 = s0 * ucast r2 + s1 * ucast r1 + s2 * ucast r0 + s3 * ucast rr3 + ucast (s4 * rr2);
          x3 = s0 * ucast r3 + s1 * ucast r2 + s2 * ucast r1 + s3 * ucast r0 + ucast (s4 * rr3);
          x4 = s4 * rr4
      in carry_words x0 x1 x2 x3 x4)"

primrec poly_iter :: "u32 list \<Rightarrow> u32 list \<Rightarrow> bytes \<Rightarrow> nat \<Rightarrow> u32 \<Rightarrow> u32 list" where
  "poly_iter r h inp 0 fin = h"
| "poly_iter r h inp (Suc n) fin = poly_iter r (poly_step r h inp fin) (drop 16 inp) n fin"

definition poly_blocks :: "crypto_poly1305_ctx \<Rightarrow> bytes \<Rightarrow> nat \<Rightarrow> u32 \<Rightarrow> crypto_poly1305_ctx" where
  "poly_blocks ctx inp nb_blocks fin = ctx\<lparr>mp_h := poly_iter (mp_r ctx) (mp_h ctx) inp nb_blocks fin\<rparr>"

definition crypto_poly1305_init :: "bytes \<Rightarrow> crypto_poly1305_ctx" where
  "crypto_poly1305_init key =
     \<lparr>mp_c = replicate 16 0, mp_c_idx = 0,
      mp_r = [load32_le key AND 0x0fffffff, load32_le (drop 4 key) AND 0x0ffffffc,
              load32_le (drop 8 key) AND 0x0ffffffc, load32_le (drop 12 key) AND 0x0ffffffc],
      mp_pad = [load32_le (drop 16 key), load32_le (drop 20 key),
                load32_le (drop 24 key), load32_le (drop 28 key)],
      mp_h = [0, 0, 0, 0, 0]\<rparr>"

text \<open>The part of an update after the partial block was completed.\<close>

definition poly_rest :: "crypto_poly1305_ctx \<Rightarrow> bytes \<Rightarrow> crypto_poly1305_ctx" where
  "poly_rest ctx message =
     (let nb_blocks = length message div 16;
          ctx = poly_blocks ctx message nb_blocks 1;
          message = drop (16 * nb_blocks) message
      in ctx\<lparr>mp_c := memcpy_at (mp_c ctx) (mp_c_idx ctx) message,
             mp_c_idx := mp_c_idx ctx + length message\<rparr>)"

definition crypto_poly1305_update :: "crypto_poly1305_ctx \<Rightarrow> bytes \<Rightarrow> crypto_poly1305_ctx" where
  "crypto_poly1305_update ctx message =
     (if length message = 0 then ctx
      else
        (let aligned = min (unat (gap (of_nat (mp_c_idx ctx)) 16)) (length message);
             ctx = ctx\<lparr>mp_c := memcpy_at (mp_c ctx) (mp_c_idx ctx) (take aligned message),
                       mp_c_idx := mp_c_idx ctx + aligned\<rparr>;
             message = drop aligned message;
             ctx = (if mp_c_idx ctx = 16 then (poly_blocks ctx (mp_c ctx) 1 1)\<lparr>mp_c_idx := 0\<rparr> else ctx)
         in poly_rest ctx message))"

text \<open>The carry of \<open>h + 5\<close> through the four lower limbs, and the addition of the pad.\<close>

definition final_quot :: "u32 list \<Rightarrow> u64" where
  "final_quot h =
     (let c = 5 :: u64;
          c = drop_bit 32 (c + ucast (h ! 0));
          c = drop_bit 32 (c + ucast (h ! 1));
          c = drop_bit 32 (c + ucast (h ! 2));
          c = drop_bit 32 (c + ucast (h ! 3));
          c = c + ucast (h ! 4)
      in drop_bit 2 c * 5)"

definition mono_tag :: "crypto_poly1305_ctx \<Rightarrow> bytes" where
  "mono_tag ctx =
     (let h = mp_h ctx; pad = mp_pad ctx;
          c0 = final_quot h + (ucast (h ! 0) + ucast (pad ! 0));
          c1 = drop_bit 32 c0 + (ucast (h ! 1) + ucast (pad ! 1));
          c2 = drop_bit 32 c1 + (ucast (h ! 2) + ucast (pad ! 2));
          c3 = drop_bit 32 c2 + (ucast (h ! 3) + ucast (pad ! 3))
      in store32_le (ucast c0) @ store32_le (ucast c1) @ store32_le (ucast c2) @ store32_le (ucast c3))"

definition crypto_poly1305_final :: "crypto_poly1305_ctx \<Rightarrow> bytes" where
  "crypto_poly1305_final ctx =
     mono_tag
       (if mp_c_idx ctx \<noteq> 0
        then
          (let c = (memcpy_at (mp_c ctx) (mp_c_idx ctx) (replicate (16 - mp_c_idx ctx) 0))[mp_c_idx ctx := 1]
           in poly_blocks (ctx\<lparr>mp_c := c\<rparr>) c 1 0)
        else ctx)"

definition crypto_poly1305 :: "bytes \<Rightarrow> bytes \<Rightarrow> bytes" where
  "crypto_poly1305 message key =
     crypto_poly1305_final (crypto_poly1305_update (crypto_poly1305_init key) message)"

section \<open>The value of the limbs\<close>

primrec val32 :: "nat list \<Rightarrow> nat" where
  "val32 [] = 0"
| "val32 (x # xs) = x + 2 ^ 32 * val32 xs"

definition hv :: "u32 list \<Rightarrow> nat" where
  "hv ws = val32 (map unat ws)"

text \<open>
  The arithmetic of one step on numbers. Since \<open>r1\<close>, \<open>r2\<close>, \<open>r3\<close> are multiples of 4, their products with
  \<open>2^128\<close> fold back exactly.
\<close>

lemma fold_product:
  fixes s0 s1 s2 s3 s4 k0 k1 k2 k3 t :: nat
  shows "val32 [s0, s1, s2, s3, s4] * val32 [4 * k0 + t, 4 * k1, 4 * k2, 4 * k3] =
    val32 [s0 * (4 * k0 + t) + s1 * (5 * k3) + s2 * (5 * k2) + s3 * (5 * k1) + s4 * (5 * k0),
      s0 * (4 * k1) + s1 * (4 * k0 + t) + s2 * (5 * k3) + s3 * (5 * k2) + s4 * (5 * k1),
      s0 * (4 * k2) + s1 * (4 * k1) + s2 * (4 * k0 + t) + s3 * (5 * k3) + s4 * (5 * k2),
      s0 * (4 * k3) + s1 * (4 * k2) + s2 * (4 * k1) + s3 * (4 * k0 + t) + s4 * (5 * k3), s4 * t] +
    (2 ^ 130 - 5) * (s1 * k3 + s2 * k2 + s3 * k1 + s4 * k0 + 2 ^ 32 * (s2 * k3 + s3 * k2 + s4 * k1) +
      2 ^ 64 * (s3 * k3 + s4 * k2) + 2 ^ 96 * (s4 * k3))"
  by (simp add: algebra_simps)

lemma fold_carries:
  fixes x0 x1 x2 x3 x4 :: nat
  defines "u5 \<equiv> x4 + x3 div 2 ^ 32"
  defines "u0 \<equiv> u5 div 4 * 5 + x0 mod 2 ^ 32"
  defines "u1 \<equiv> u0 div 2 ^ 32 + x1 mod 2 ^ 32 + x0 div 2 ^ 32"
  defines "u2 \<equiv> u1 div 2 ^ 32 + x2 mod 2 ^ 32 + x1 div 2 ^ 32"
  defines "u3 \<equiv> u2 div 2 ^ 32 + x3 mod 2 ^ 32 + x2 div 2 ^ 32"
  shows "val32 [u0 mod 2 ^ 32, u1 mod 2 ^ 32, u2 mod 2 ^ 32, u3 mod 2 ^ 32, u3 div 2 ^ 32 + u5 mod 4] +
    u5 div 4 * (2 ^ 130 - 5) = val32 [x0, x1, x2, x3, x4]"
proof -
  define d0 d1 d2 d3 e0 e1 e2 e3 where "d0 = x0 div 2 ^ 32" "d1 = x1 div 2 ^ 32" "d2 = x2 div 2 ^ 32"
    "d3 = x3 div 2 ^ 32" "e0 = x0 mod 2 ^ 32" "e1 = x1 mod 2 ^ 32" "e2 = x2 mod 2 ^ 32" "e3 = x3 mod 2 ^ 32"
  note d = this
  have x: "x0 = e0 + 2 ^ 32 * d0" "x1 = e1 + 2 ^ 32 * d1" "x2 = e2 + 2 ^ 32 * d2" "x3 = e3 + 2 ^ 32 * d3"
    by (simp_all add: d)
  define v0 v1 v2 v3 w0 w1 w2 w3 where "v0 = u0 div 2 ^ 32" "v1 = u1 div 2 ^ 32" "v2 = u2 div 2 ^ 32"
    "v3 = u3 div 2 ^ 32" "w0 = u0 mod 2 ^ 32" "w1 = u1 mod 2 ^ 32" "w2 = u2 mod 2 ^ 32" "w3 = u3 mod 2 ^ 32"
  note v = this
  have u: "u0 = w0 + 2 ^ 32 * v0" "u1 = w1 + 2 ^ 32 * v1" "u2 = w2 + 2 ^ 32 * v2" "u3 = w3 + 2 ^ 32 * v3"
    by (simp_all add: v)
  define q t where q: "q = u5 div 4" and t: "t = u5 mod 4"
  have q4: "x4 + d3 = 4 * q + t" unfolding d q t by (simp add: u5_def)
  have e: "w0 + 2 ^ 32 * v0 = q * 5 + e0" "w1 + 2 ^ 32 * v1 = v0 + e1 + d0" "w2 + 2 ^ 32 * v2 = v1 + e2 + d1"
    "w3 + 2 ^ 32 * v3 = v2 + e3 + d2"
    unfolding u [symmetric] by (simp_all add: u0_def u1_def u2_def u3_def v d q)
  have "val32 [w0, w1, w2, w3, v3 + t] + q * (2 ^ 130 - 5) = val32 [x0, x1, x2, x3, x4]"
    using e q4 by (simp add: x)
  then show ?thesis unfolding v q t .
qed

lemma sum5_less:
  "a \<le> A \<Longrightarrow> b \<le> B \<Longrightarrow> c \<le> C \<Longrightarrow> d \<le> D \<Longrightarrow> e \<le> E \<Longrightarrow> A + B + C + D + E < N \<Longrightarrow> a + b + c + d + e < (N :: nat)"
  by linarith

text \<open>The bounds that keep every sum of products within 64 bits.\<close>

lemma product_bounds:
  fixes s0 s1 s2 s3 s4 k0 k1 k2 k3 t :: nat
  assumes s: "s0 < 2 ^ 33" "s1 < 2 ^ 33" "s2 < 2 ^ 33" "s3 < 2 ^ 33" "s4 \<le> 5"
    and k: "k0 < 2 ^ 26" "k1 < 2 ^ 26" "k2 < 2 ^ 26" "k3 < 2 ^ 26" "t < 4"
  shows "s0 * (4 * k0 + t) + s1 * (5 * k3) + s2 * (5 * k2) + s3 * (5 * k1) + s4 * (5 * k0) < 2 ^ 64"
    and "s0 * (4 * k1) + s1 * (4 * k0 + t) + s2 * (5 * k3) + s3 * (5 * k2) + s4 * (5 * k1) < 2 ^ 64"
    and "s0 * (4 * k2) + s1 * (4 * k1) + s2 * (4 * k0 + t) + s3 * (5 * k3) + s4 * (5 * k2) < 2 ^ 63 + 2 ^ 62"
    and "s0 * (4 * k3) + s1 * (4 * k2) + s2 * (4 * k1) + s3 * (4 * k0 + t) + s4 * (5 * k3) < 2 ^ 63 + 2 ^ 34"
    and "s4 * (5 * k0) < 2 ^ 32" "s4 * (5 * k1) < 2 ^ 32" "s4 * (5 * k2) < 2 ^ 32" "s4 * (5 * k3) < 2 ^ 32"
proof -
  have a: "x * (4 * y) \<le> 2 ^ 61 - 2 ^ 35" "x * (5 * y) \<le> 5 * 2 ^ 59" if "x < 2 ^ 33" "y < 2 ^ 26" for x y :: nat
    using mult_le_mono [of x "2 ^ 33" "4 * y" "2 ^ 28 - 4"] mult_le_mono [of x "2 ^ 33" "5 * y" "5 * 2 ^ 26"] that
    by simp_all
  have b: "x * (4 * k0 + t) \<le> 2 ^ 61" if "x < 2 ^ 33" for x
    using mult_le_mono [of x "2 ^ 33" "4 * k0 + t" "2 ^ 28"] that k by simp
  have c: "s4 * (5 * y) \<le> 25 * 2 ^ 26" if "y < 2 ^ 26" for y
    using mult_le_mono [of s4 5 "5 * y" "5 * 2 ^ 26"] s that by simp
  show "s0 * (4 * k0 + t) + s1 * (5 * k3) + s2 * (5 * k2) + s3 * (5 * k1) + s4 * (5 * k0) < 2 ^ 64"
    by (rule sum5_less [OF b [OF s(1)] a(2) [OF s(2) k(4)] a(2) [OF s(3) k(3)] a(2) [OF s(4) k(2)] c [OF k(1)]]) simp
  show "s0 * (4 * k1) + s1 * (4 * k0 + t) + s2 * (5 * k3) + s3 * (5 * k2) + s4 * (5 * k1) < 2 ^ 64"
    by (rule sum5_less [OF a(1) [OF s(1) k(2)] b [OF s(2)] a(2) [OF s(3) k(4)] a(2) [OF s(4) k(3)] c [OF k(2)]]) simp
  show "s0 * (4 * k2) + s1 * (4 * k1) + s2 * (4 * k0 + t) + s3 * (5 * k3) + s4 * (5 * k2) < 2 ^ 63 + 2 ^ 62"
    by (rule sum5_less [OF a(1) [OF s(1) k(3)] a(1) [OF s(2) k(2)] b [OF s(3)] a(2) [OF s(4) k(4)] c [OF k(3)]]) simp
  show "s0 * (4 * k3) + s1 * (4 * k2) + s2 * (4 * k1) + s3 * (4 * k0 + t) + s4 * (5 * k3) < 2 ^ 63 + 2 ^ 34"
    by (rule sum5_less [OF a(1) [OF s(1) k(4)] a(1) [OF s(2) k(3)] a(1) [OF s(3) k(2)] b [OF s(4)] c [OF k(4)]]) simp
  show "s4 * (5 * k0) < 2 ^ 32" "s4 * (5 * k1) < 2 ^ 32" "s4 * (5 * k2) < 2 ^ 32" "s4 * (5 * k3) < 2 ^ 32"
    by (rule le_less_trans [OF c [OF k(1)]], simp, rule le_less_trans [OF c [OF k(2)]], simp,
        rule le_less_trans [OF c [OF k(3)]], simp, rule le_less_trans [OF c [OF k(4)]], simp)
qed

text \<open>One step on images of numbers: first the products, then the carries.\<close>

lemma mask2: "(3 :: 'a::len word) = mask 2"
  by (simp add: mask_eq_exp_minus_1)

lemma of_nat_ops64:
  "(of_nat x :: u64) + of_nat y = of_nat (x + y)" "(of_nat x :: u64) * of_nat y = of_nat (x * y)"
  by simp_all

lemma carry_words_num:
  fixes x0 x1 x2 x3 x4 :: nat
  assumes x: "x0 < 2 ^ 64" "x1 < 2 ^ 64" "x2 < 2 ^ 63 + 2 ^ 62" "x3 < 2 ^ 63 + 2 ^ 34" "x4 \<le> 15"
  shows "\<exists>g c. carry_words (of_nat x0) (of_nat x1) (of_nat x2) (of_nat x3) (of_nat x4) = map of_nat g \<and>
    length g = 5 \<and> list_all (\<lambda>x. x < 2 ^ 32) g \<and> g ! 4 \<le> 4 \<and>
    val32 g + c * (2 ^ 130 - 5) = val32 [x0, x1, x2, x3, x4]"
proof -
  define u5 where "u5 = x4 + x3 div 2 ^ 32"
  define u0 where "u0 = u5 div 4 * 5 + x0 mod 2 ^ 32"
  define u1 where "u1 = u0 div 2 ^ 32 + x1 mod 2 ^ 32 + x0 div 2 ^ 32"
  define u2 where "u2 = u1 div 2 ^ 32 + x2 mod 2 ^ 32 + x1 div 2 ^ 32"
  define u3 where "u3 = u2 div 2 ^ 32 + x3 mod 2 ^ 32 + x2 div 2 ^ 32"
  note u_defs = u5_def u0_def u1_def u2_def u3_def
  have dv: "x0 div 2 ^ 32 < 2 ^ 32" "x1 div 2 ^ 32 < 2 ^ 32" "x2 div 2 ^ 32 < 2 ^ 31 + 2 ^ 30"
      "x3 div 2 ^ 32 < 2 ^ 31 + 4"
    using x by (simp_all add: less_mult_imp_div_less)
  have m: "y mod 2 ^ 32 < 2 ^ 32" for y :: nat by simp
  have u5: "u5 < 2 ^ 31 + 2 ^ 5" using dv(4) x(5) by (simp add: u5_def)
  have q4: "u5 div 4 < 2 ^ 29 + 8" using u5 by (simp add: less_mult_imp_div_less)
  then have q5: "u5 div 4 * 5 < 2 ^ 32" by simp
  have u0: "u0 < 2 ^ 33" using q5 m [of x0] by (simp add: u0_def)
  have v0: "u0 div 2 ^ 32 < 2" using u0 by (simp add: less_mult_imp_div_less)
  have u1: "u1 < 2 ^ 34" using v0 m [of x1] dv(1) by (simp add: u1_def)
  have v1: "u1 div 2 ^ 32 < 4" using u1 by (simp add: less_mult_imp_div_less)
  have u2: "u2 < 2 ^ 34" using v1 m [of x2] dv(2) by (simp add: u2_def)
  have v2: "u2 div 2 ^ 32 < 4" using u2 by (simp add: less_mult_imp_div_less)
  have u3: "u3 < 2 ^ 33" using v2 m [of x3] dv(3) by (simp add: u3_def)
  have v3: "u3 div 2 ^ 32 < 2" using u3 by (simp add: less_mult_imp_div_less)
  have d: "drop_bit 32 (of_nat y :: u64) = of_nat (y div 2 ^ 32)" if "y < 2 ^ 64" for y
    using drop_of_nat [of y 32, where ?'a = 64] that by simp
  have k: "of_nat y AND (0xffffffff :: u64) = of_nat (y mod 2 ^ 32)" for y
    unfolding mask32 by (rule mask_of_nat) simp
  have w5: "ucast (ucast (of_nat x4 :: u32) + drop_bit 32 (of_nat x3) :: u64) = (of_nat u5 :: u32)"
  proof -
    have "(ucast (of_nat x4 :: u32) :: u64) = of_nat x4" using x(5) by (intro ucast_up_of_nat) simp
    moreover have "drop_bit 32 (of_nat x3 :: u64) = of_nat (x3 div 2 ^ 32)" using x(4) by (intro d) simp
    ultimately show ?thesis by (simp only: of_nat_ops64 ucast_down_of_nat u5_def)
  qed
  have w0: "ucast (drop_bit 2 (of_nat u5 :: u32) * 5) = (of_nat (u5 div 4 * 5) :: u64)"
  proof -
    have "drop_bit 2 (of_nat u5 :: u32) = of_nat (u5 div 4)" using u5 by (simp add: drop_of_nat32)
    moreover have "(of_nat (u5 div 4) :: u32) * 5 = of_nat (u5 div 4 * 5)" by simp
    ultimately show ?thesis using ucast_up_of_nat [OF q5] by metis
  qed
  have w4: "ucast (of_nat u5 AND (3 :: u32)) = (of_nat (u5 mod 4) :: u64)"
  proof -
    have "of_nat u5 AND (3 :: u32) = of_nat (u5 mod 4)"
      using mask_of_nat [of 2 u5, where ?'a = 32] unfolding mask2 by simp
    moreover have "u5 mod 4 < 2 ^ 32" using mod_less_divisor [of 4 u5] by simp
    ultimately show ?thesis using ucast_up_of_nat by simp
  qed
  have "carry_words (of_nat x0) (of_nat x1) (of_nat x2) (of_nat x3) (of_nat x4) =
      map of_nat [u0 mod 2 ^ 32, u1 mod 2 ^ 32, u2 mod 2 ^ 32, u3 mod 2 ^ 32, u3 div 2 ^ 32 + u5 mod 4]"
  proof -
    have b: "x0 < 2 ^ 64" "x1 < 2 ^ 64" "x2 < 2 ^ 64" "u0 < 2 ^ 64" "u1 < 2 ^ 64" "u2 < 2 ^ 64" "u3 < 2 ^ 64"
      using x u0 u1 u2 u3 by simp_all
    show ?thesis
      unfolding carry_words_def Let_def w5 w0 w4 k of_nat_ops64 d [OF b(1)] d [OF b(2)] d [OF b(3)]
      unfolding u0_def [symmetric] d [OF b(4)] of_nat_ops64 u1_def [symmetric] d [OF b(5)] of_nat_ops64
        u2_def [symmetric] d [OF b(6)] of_nat_ops64 u3_def [symmetric] d [OF b(7)] of_nat_ops64 k ucast_down_of_nat
      by simp
  qed
  moreover have "val32 [u0 mod 2 ^ 32, u1 mod 2 ^ 32, u2 mod 2 ^ 32, u3 mod 2 ^ 32, u3 div 2 ^ 32 + u5 mod 4] +
      u5 div 4 * (2 ^ 130 - 5) = val32 [x0, x1, x2, x3, x4]"
    unfolding u_defs by (rule fold_carries)
  moreover have "u3 div 2 ^ 32 + u5 mod 4 \<le> 4" using v3 mod_less_divisor [of 4 u5] by linarith
  ultimately show ?thesis
    by (intro exI [of _ "[u0 mod 2 ^ 32, u1 mod 2 ^ 32, u2 mod 2 ^ 32, u3 mod 2 ^ 32, u3 div 2 ^ 32 + u5 mod 4]"]
        exI [of _ "u5 div 4"] conjI) (assumption | simp)+
qed

lemma quarter_words:
  fixes k0 k1 k2 k3 t :: nat
  assumes k: "k0 < 2 ^ 26" "k1 < 2 ^ 26" "k2 < 2 ^ 26" "k3 < 2 ^ 26" "t < 4"
  shows "drop_bit 2 (of_nat (4 * k0 + t) :: u32) * 5 = of_nat (5 * k0)"
    and "drop_bit 2 (of_nat (4 * k1) :: u32) + of_nat (4 * k1) = of_nat (5 * k1)"
    and "drop_bit 2 (of_nat (4 * k2) :: u32) + of_nat (4 * k2) = of_nat (5 * k2)"
    and "drop_bit 2 (of_nat (4 * k3) :: u32) + of_nat (4 * k3) = of_nat (5 * k3)"
    and "of_nat (4 * k0 + t) AND (3 :: u32) = of_nat t"
proof -
  have q: "drop_bit 2 (of_nat n :: u32) = of_nat (n div 4)" if "n < 2 ^ 32" for n
    using drop_of_nat [of n 2, where ?'a = 32] that by simp
  show "drop_bit 2 (of_nat (4 * k0 + t) :: u32) * 5 = of_nat (5 * k0)" using k by (subst q) simp_all
  show "drop_bit 2 (of_nat (4 * k1) :: u32) + of_nat (4 * k1) = of_nat (5 * k1)" using k by (subst q) simp_all
  show "drop_bit 2 (of_nat (4 * k2) :: u32) + of_nat (4 * k2) = of_nat (5 * k2)" using k by (subst q) simp_all
  show "drop_bit 2 (of_nat (4 * k3) :: u32) + of_nat (4 * k3) = of_nat (5 * k3)" using k by (subst q) simp_all
  show "of_nat (4 * k0 + t) AND (3 :: u32) = of_nat t"
    using mask_of_nat [of 2 "4 * k0 + t", where ?'a = 32] k(5) unfolding mask2 by simp
qed

lemma poly_step_num:
  fixes h :: "u32 list"
  assumes h: "map unat h = [h0, h1, h2, h3, h4]" "h4 \<le> 4"
    and r: "r = map of_nat [4 * k0 + t, 4 * k1, 4 * k2, 4 * k3]"
    and k: "k0 < 2 ^ 26" "k1 < 2 ^ 26" "k2 < 2 ^ 26" "k3 < 2 ^ 26" "t < 4" and b: "b \<le> 1"
  shows "\<exists>g c. poly_step r h d (of_nat b) = map of_nat g \<and> length g = 5 \<and> list_all (\<lambda>x. x < 2 ^ 32) g \<and>
    g ! 4 \<le> 4 \<and> val32 g + c * (2 ^ 130 - 5) =
      (val32 [h0, h1, h2, h3, h4] + val32 [unat (load32_le d), unat (load32_le (drop 4 d)),
         unat (load32_le (drop 8 d)), unat (load32_le (drop 12 d)), b]) *
      val32 [4 * k0 + t, 4 * k1, 4 * k2, 4 * k3]"
proof -
  obtain w0 w1 w2 w3 w4 where hw: "h = [w0, w1, w2, w3, w4]"
    using h(1) by (auto simp: map_eq_Cons_conv)
  define s0 s1 s2 s3 s4 where s: "s0 = h0 + unat (load32_le d)" "s1 = h1 + unat (load32_le (drop 4 d))"
    "s2 = h2 + unat (load32_le (drop 8 d))" "s3 = h3 + unat (load32_le (drop 12 d))" "s4 = h4 + b"
  have hu: "h0 = unat w0" "h1 = unat w1" "h2 = unat w2" "h3 = unat w3" "h4 = unat w4"
    using h(1) by (simp_all add: hw)
  have u: "unat (x :: u32) + unat (y :: u32) < 2 ^ 33" for x y
  proof -
    have "unat x < 2 ^ 32" "unat y < 2 ^ 32" by simp_all
    then show ?thesis by (simp del: unat_u32_less)
  qed
  have sb: "s0 < 2 ^ 33" "s1 < 2 ^ 33" "s2 < 2 ^ 33" "s3 < 2 ^ 33" "s4 \<le> 5"
    unfolding s hu using h(2) b by (simp_all add: u [simplified] hu)
  define x0 x1 x2 x3 where x:
    "x0 = s0 * (4 * k0 + t) + s1 * (5 * k3) + s2 * (5 * k2) + s3 * (5 * k1) + s4 * (5 * k0)"
    "x1 = s0 * (4 * k1) + s1 * (4 * k0 + t) + s2 * (5 * k3) + s3 * (5 * k2) + s4 * (5 * k1)"
    "x2 = s0 * (4 * k2) + s1 * (4 * k1) + s2 * (4 * k0 + t) + s3 * (5 * k3) + s4 * (5 * k2)"
    "x3 = s0 * (4 * k3) + s1 * (4 * k2) + s2 * (4 * k1) + s3 * (4 * k0 + t) + s4 * (5 * k3)"
  note pb = product_bounds [OF sb k, folded x]
  have st: "s4 * t \<le> 15" using mult_le_mono [of s4 5 t 3] sb(5) k(5) by simp
  note rw = quarter_words [OF k]
  have up: "(ucast (of_nat n :: u32) :: u64) = of_nat n" if "n < 2 ^ 32" for n
    using that by (rule ucast_up_of_nat)
  have kb: "4 * k0 + t < 2 ^ 32" "4 * k1 < 2 ^ 32" "4 * k2 < 2 ^ 32" "4 * k3 < 2 ^ 32"
    "5 * k1 < 2 ^ 32" "5 * k2 < 2 ^ 32" "5 * k3 < 2 ^ 32" using k by simp_all
  have s4w: "w4 + of_nat b = of_nat s4" by (simp add: s hu)
  have m32: "(of_nat x :: u32) * of_nat y = of_nat (x * y)" for x y by simp
  have "poly_step r h d (of_nat b) = carry_words (of_nat x0) (of_nat x1) (of_nat x2) (of_nat x3) (of_nat (s4 * t))"
  proof -
    have nths: "h ! 0 = w0" "h ! 1 = w1" "h ! 2 = w2" "h ! 3 = w3" "h ! 4 = w4"
      "r ! 0 = of_nat (4 * k0 + t)" "r ! 1 = of_nat (4 * k1)" "r ! 2 = of_nat (4 * k2)" "r ! 3 = of_nat (4 * k3)"
      by (simp_all add: hw r)
    show ?thesis
      unfolding poly_step_def Let_def nths rw s4w m32 ucast_u32_u64 [of w0] ucast_u32_u64 [of w1]
        ucast_u32_u64 [of w2] ucast_u32_u64 [of w3] ucast_u32_u64 [of "load32_le d"]
        ucast_u32_u64 [of "load32_le (drop _ d)"] hu [symmetric] of_nat_ops64 s [symmetric]
        up [OF kb(1)] up [OF kb(2)] up [OF kb(3)] up [OF kb(4)] up [OF kb(5)] up [OF kb(6)] up [OF kb(7)]
        up [OF pb(5)] up [OF pb(6)] up [OF pb(7)] up [OF pb(8)] x [symmetric] ..
  qed
  moreover have "val32 [s0, s1, s2, s3, s4] = val32 [h0, h1, h2, h3, h4] + val32 [unat (load32_le d),
      unat (load32_le (drop 4 d)), unat (load32_le (drop 8 d)), unat (load32_le (drop 12 d)), b]"
    by (simp add: s)
  moreover have "val32 [x0, x1, x2, x3, s4 * t] + (s1 * k3 + s2 * k2 + s3 * k1 + s4 * k0 +
      2 ^ 32 * (s2 * k3 + s3 * k2 + s4 * k1) + 2 ^ 64 * (s3 * k3 + s4 * k2) + 2 ^ 96 * (s4 * k3)) * (2 ^ 130 - 5) =
      val32 [s0, s1, s2, s3, s4] * val32 [4 * k0 + t, 4 * k1, 4 * k2, 4 * k3]"
    unfolding x fold_product by (simp only: mult.commute)
  ultimately show ?thesis
    using carry_words_num [OF pb(1-4) st] by (metis (no_types, lifting) add.assoc add_mult_distrib)
qed

section \<open>Blocks\<close>

definition r_ok :: "u32 list \<Rightarrow> bool" where
  "r_ok r \<longleftrightarrow> length r = 4 \<and> list_all (\<lambda>x. unat x < 2 ^ 28) r \<and> list_all (\<lambda>x. unat x mod 4 = 0) (tl r)"

definition h_ok :: "u32 list \<Rightarrow> bool" where
  "h_ok h \<longleftrightarrow> length h = 5 \<and> unat (h ! 4) \<le> 4"

lemma r_ok_cases:
  assumes "r_ok r"
  obtains k0 k1 k2 k3 t where "r = map of_nat [4 * k0 + t, 4 * k1, 4 * k2, 4 * k3]"
    "map unat r = [4 * k0 + t, 4 * k1, 4 * k2, 4 * k3]"
    "k0 < 2 ^ 26" "k1 < 2 ^ 26" "k2 < 2 ^ 26" "k3 < 2 ^ 26" "t < 4"
proof -
  have "length r = 4" using assms by (simp add: r_ok_def)
  then obtain a b c d where r: "r = [a, b, c, d]" by (auto simp: length_Suc_conv eval_nat_numeral)
  have four: "x = 4 * (x div 4)" if "x mod 4 = 0" for x :: nat
    using mult_div_mod_eq [of 4 x] that by linarith
  have z: "unat b mod 4 = 0" "unat c mod 4 = 0" "unat d mod 4 = 0" using assms by (simp_all add: r_ok_def r)
  have u: "map unat r = [4 * (unat a div 4) + unat a mod 4, 4 * (unat b div 4),
      4 * (unat c div 4), 4 * (unat d div 4)]"
    unfolding r four [OF z(1), symmetric] four [OF z(2), symmetric] four [OF z(3), symmetric] by simp
  have "r = map of_nat (map unat r)" by (simp add: comp_def)
  then have w: "r = map of_nat [4 * (unat a div 4) + unat a mod 4, 4 * (unat b div 4),
      4 * (unat c div 4), 4 * (unat d div 4)]"
    unfolding u .
  have "unat x div 4 < 2 ^ 26" if "x \<in> set r" for x
    using assms that by (auto simp: r_ok_def list_all_iff intro: less_mult_imp_div_less)
  then show ?thesis
    by (intro that [OF w u]) (simp_all add: r)
qed

lemma step_spec:
  assumes h: "h_ok h" and r: "r_ok r" and "length d = 16" and b: "b \<le> 1"
  shows "h_ok (poly_step r h d (of_nat b)) \<and>
    hv (poly_step r h d (of_nat b)) mod P130 = (hv h + le_num d + 2 ^ 128 * b) * hv r mod P130"
proof -
  from h have "length (map unat h) = 5" by (simp add: h_ok_def)
  then obtain h0 h1 h2 h3 h4 where hs: "map unat h = [h0, h1, h2, h3, h4]" using list_of_5 by metis
  have "map unat h ! 4 = unat (h ! 4)" using h by (simp add: h_ok_def)
  then have h4: "h4 \<le> 4" using h hs by (simp add: h_ok_def)
  obtain k0 k1 k2 k3 t where rs: "r = map of_nat [4 * k0 + t, 4 * k1, 4 * k2, 4 * k3]"
    "map unat r = [4 * k0 + t, 4 * k1, 4 * k2, 4 * k3]"
    "k0 < 2 ^ 26" "k1 < 2 ^ 26" "k2 < 2 ^ 26" "k3 < 2 ^ 26" "t < 4"
    by (rule r_ok_cases [OF r])
  from poly_step_num [OF hs h4 rs(1,3-7) b, of d] obtain g c where g: "poly_step r h d (of_nat b) = map of_nat g"
    "length g = 5" "list_all (\<lambda>x. x < 2 ^ 32) g" "g ! 4 \<le> 4"
    and gv: "val32 g + c * (2 ^ 130 - 5) =
      (val32 [h0, h1, h2, h3, h4] + val32 [unat (load32_le d), unat (load32_le (drop 4 d)),
         unat (load32_le (drop 8 d)), unat (load32_le (drop 12 d)), b]) *
      val32 [4 * k0 + t, 4 * k1, 4 * k2, 4 * k3]"
    by blast
  have dv: "val32 [unat (load32_le d), unat (load32_le (drop 4 d)), unat (load32_le (drop 8 d)),
      unat (load32_le (drop 12 d)), b] = le_num d + 2 ^ 128 * b"
    unfolding num_words [OF assms(3)] by simp
  have "map unat (map of_nat g :: u32 list) = g"
    using g(3) by (simp add: list_all_iff unat_of_nat map_idI)
  then have "hv (poly_step r h d (of_nat b)) mod P130 = val32 g mod P130" by (simp add: hv_def g(1))
  also have "\<dots> = (hv h + (le_num d + 2 ^ 128 * b)) * hv r mod P130"
    unfolding mod_eq_multiple [OF gv [folded P130_def]] hv_def hs rs(2) dv ..
  finally have "hv (poly_step r h d (of_nat b)) mod P130 = (hv h + le_num d + 2 ^ 128 * b) * hv r mod P130"
    by (simp add: add.assoc)
  moreover have "h_ok (poly_step r h d (of_nat b))"
    using g by (simp add: h_ok_def list_all_length unat_of_nat)
  ultimately show ?thesis by simp
qed

lemma gap16: "unat (gap (of_nat n) 16) = (16 - n mod 16) mod 16"
proof -
  have m: "(15 :: u64) = mask 4" by (simp add: mask_eq_exp_minus_1)
  have "NOT (of_nat n :: u64) + 1 = word_of_int (- int n)" by (simp add: minus_eq_not_plus_1 [symmetric])
  then have g: "gap (of_nat n) 16 = take_bit 4 (word_of_int (- int n))"
    unfolding gap_def take_bit_eq_mask m [symmetric] by simp
  have "uint (gap (of_nat n) 16) = take_bit 4 (- int n)"
    unfolding g unsigned_take_bit_eq by (subst unsigned_of_int) (simp add: take_bit_take_bit)
  also have "\<dots> = (- int n) mod 16" by (simp add: take_bit_eq_mod)
  also have "\<dots> = int ((16 - n mod 16) mod 16)"
    by (simp add: zmod_zminus1_eq_if zmod_int of_nat_diff)
  finally show ?thesis by (metis nat_int unat_eq_nat_uint)
qed

lemma step_take: "16 \<le> length inp \<Longrightarrow> poly_step r h (take 16 inp) fin = poly_step r h inp fin"
proof -
  assume l: "16 \<le> length inp"
  have "load32_le (drop k (take 16 inp)) = load32_le (drop k inp)" if "k \<le> 12" for k
    using that l by (simp add: load32_le_def)
  from this [of 0] this [of 4] this [of 8] this [of 12]
  have "load32_le (take 16 inp) = load32_le inp" "load32_le (drop 4 (take 16 inp)) = load32_le (drop 4 inp)"
    "load32_le (drop 8 (take 16 inp)) = load32_le (drop 8 inp)"
    "load32_le (drop 12 (take 16 inp)) = load32_le (drop 12 inp)"
    by simp_all
  then show ?thesis unfolding poly_step_def by (simp only:)
qed

lemma iter_spec:
  assumes "h_ok h" and "r_ok r" and "16 * n \<le> length inp" and "16 dvd length a"
    and "hv h mod P130 = poly_eval (hv r) 0 a mod P130"
  shows "h_ok (poly_iter r h inp n 1) \<and>
    hv (poly_iter r h inp n 1) mod P130 = poly_eval (hv r) 0 (a @ take (16 * n) inp) mod P130"
  using assms(1,3-)
proof (induction n arbitrary: h inp a)
  case (Suc n)
  let ?d = "take 16 inp" and ?h = "poly_step r h inp 1"
  have d: "length ?d = 16" using Suc.prems(2) by simp
  have "poly_step r h inp 1 = poly_step r h ?d 1" using step_take [of inp] Suc.prems(2) by simp
  with step_spec [OF Suc.prems(1) assms(2) d, of 1]
  have s: "h_ok ?h" "hv ?h mod P130 = (hv h + le_num ?d + 2 ^ 128) * hv r mod P130" by simp_all
  have "hv ?h mod P130 = (poly_eval (hv r) 0 a + le_num ?d + 2 ^ 128) * hv r mod P130"
    unfolding s(2) add.assoc by (rule mod_horner [OF Suc.prems(4)])
  also have "\<dots> = poly_eval (hv r) 0 (a @ ?d) mod P130"
    unfolding poly_eval_append [OF Suc.prems(3)] poly_eval_block [OF d] by simp
  finally have "hv ?h mod P130 = poly_eval (hv r) 0 (a @ ?d) mod P130" .
  from Suc.IH [OF s(1) _ _ this, of "drop 16 inp"] Suc.prems d
  show ?case by (simp add: take_add)
qed simp

lemma and_load32:
  assumes "4 \<le> length p" and "4 \<le> length q"
  shows "load32_le p AND load32_le q = load32_le (map2 (AND) (take 4 p) (take 4 q))"
proof (rule unsigned_word_eqI)
  have "length (take 4 p) = length (take 4 q)" using assms by simp
  from le_num_and [OF this] assms
  show "unat (load32_le p AND load32_le q) = unat (load32_le (map2 (AND) (take 4 p) (take 4 q)))"
    by (simp add: unsigned_and_eq load32_num)
qed

lemma mono_init_r:
  assumes "32 \<le> length key"
  shows "hv (mp_r (crypto_poly1305_init key)) = poly_r key"
proof -
  let ?c = "map2 (AND) (take 16 key) clamp_mask"
  have l: "length ?c = 16" using assms by (simp add: clamp_mask_def)
  have m: "load32_le clamp_mask = 0x0fffffff" "load32_le (drop 4 clamp_mask) = 0x0ffffffc"
    "load32_le (drop 8 clamp_mask) = 0x0ffffffc" "load32_le (drop 12 clamp_mask) = 0x0ffffffc"
    by (simp_all add: clamp_mask_def load32_le_def)
  have w: "load32_le (drop k key) AND load32_le (drop k clamp_mask) = load32_le (drop k ?c)" if "k \<le> 12" for k
    using that assms and_load32 [of "drop k key" "drop k clamp_mask"]
    by (simp add: clamp_mask_def load32_le_def drop_zip drop_map take_drop)
  have "hv (mp_r (crypto_poly1305_init key)) = le_num ?c"
    using num_words [OF l] w [of 0] w [of 4] w [of 8] w [of 12]
    by (simp add: crypto_poly1305_init_def hv_def m)
  also have "\<dots> = poly_r key"
    using le_num_and [of "take 16 key" clamp_mask] assms
    by (simp add: poly_r_def clamp_mask_num) (simp add: clamp_mask_def)
  finally show ?thesis .
qed

lemma clamp_word:
  "unat (w AND 0x0fffffff :: u32) < 2 ^ 28" "unat (w AND 0x0ffffffc :: u32) < 2 ^ 28"
  "unat (w AND 0x0ffffffc :: u32) mod 4 = 0"
proof -
  have "w AND 0x0fffffff = take_bit 28 w" by (simp add: take_bit_eq_mask mask_eq_exp_minus_1)
  then show "unat (w AND 0x0fffffff :: u32) < 2 ^ 28" by (metis unsigned_take_bit_eq take_bit_nat_less_exp)
  have t: "take_bit 28 (w AND 0x0ffffffc) = w AND 0x0ffffffc"
    by (simp add: take_bit_eq_mask mask_eq_exp_minus_1 and.assoc)
  have "unat (w AND 0x0ffffffc) = take_bit 28 (unat (w AND 0x0ffffffc))"
    unfolding unsigned_take_bit_eq [symmetric] t ..
  then show "unat (w AND 0x0ffffffc :: u32) < 2 ^ 28" using take_bit_nat_less_exp by metis
  have "take_bit 2 (w AND 0x0ffffffc) = 0" by (simp add: take_bit_eq_mask mask_eq_exp_minus_1 and.assoc)
  then have "take_bit 2 (unat (w AND 0x0ffffffc)) = 0" unfolding unsigned_take_bit_eq [symmetric] by simp
  then show "unat (w AND 0x0ffffffc :: u32) mod 4 = 0" by (simp add: take_bit_eq_mod)
qed

lemma mono_init_ok: "r_ok (mp_r (crypto_poly1305_init key))"
  using clamp_word by (simp add: r_ok_def crypto_poly1305_init_def)

section \<open>Streaming\<close>

text \<open>\<open>mono_macs key m ctx\<close>: the context \<open>ctx\<close>, initialised with \<open>key\<close>, has absorbed \<open>m\<close>.\<close>

definition mono_macs :: "bytes \<Rightarrow> bytes \<Rightarrow> crypto_poly1305_ctx \<Rightarrow> bool" where
  "mono_macs key m ctx \<longleftrightarrow> 32 \<le> length key \<and> mp_r ctx = mp_r (crypto_poly1305_init key) \<and>
     mp_pad ctx = mp_pad (crypto_poly1305_init key) \<and> h_ok (mp_h ctx) \<and>
     length (mp_c ctx) = 16 \<and> mp_c_idx ctx < 16 \<and>
     (\<exists>a. m = a @ take (mp_c_idx ctx) (mp_c ctx) \<and> 16 dvd length a \<and>
          hv (mp_h ctx) mod P130 = poly_eval (poly_r key) 0 a mod P130)"

lemma mono_macs_init: "32 \<le> length key \<Longrightarrow> mono_macs key [] (crypto_poly1305_init key)"
  by (simp add: mono_macs_def crypto_poly1305_init_def h_ok_def hv_def)

lemma mono_blocks:
  assumes "mono_macs key m ctx" and "mp_c_idx ctx = 0" and "16 * n \<le> length x"
  shows "mono_macs key (m @ take (16 * n) x) (poly_blocks ctx x n 1)"
proof -
  have r: "r_ok (mp_r ctx)" "hv (mp_r ctx) = poly_r key"
    using assms(1) mono_init_ok mono_init_r by (simp_all add: mono_macs_def)
  have "h_ok (mp_h ctx)" "16 dvd length m" "hv (mp_h ctx) mod P130 = poly_eval (hv (mp_r ctx)) 0 m mod P130"
    using assms(1,2) r by (auto simp: mono_macs_def)
  from iter_spec [OF this(1) r(1) assms(3) this(2,3)] assms show ?thesis
    using \<open>16 dvd length m\<close> by (simp add: mono_macs_def poly_blocks_def r min_absorb2)
qed

lemma mono_tail:
  assumes "mono_macs key m ctx" and "mp_c_idx ctx = 0" and "length x < 16"
  shows "mono_macs key (m @ x) (ctx\<lparr>mp_c := memcpy_at (mp_c ctx) 0 x, mp_c_idx := length x\<rparr>)"
  using assms by (auto simp: mono_macs_def memcpy_at_def)

lemma mono_rest:
  assumes "mono_macs key m ctx" and "mp_c_idx ctx = 0"
  shows "mono_macs key (m @ x) (poly_rest ctx x)"
proof -
  define n where "n = length x div 16"
  have n: "16 * n \<le> length x" "length x - 16 * n < 16"
    using mult_div_mod_eq [of 16 "length x"] mod_less_divisor [of 16 "length x"] unfolding n_def by linarith+
  have z: "mp_c_idx (poly_blocks ctx x n 1) = 0" using assms(2) by (simp add: poly_blocks_def)
  from mono_tail [OF mono_blocks [OF assms n(1)] z, of "drop (16 * n) x"] n
  show ?thesis unfolding poly_rest_def Let_def n_def [symmetric] by (simp add: z)
qed

lemma mono_macs_update:
  assumes "mono_macs key m ctx"
  shows "mono_macs key (m @ x) (crypto_poly1305_update ctx x)"
proof -
  let ?n = "mp_c_idx ctx"
  from assms obtain a where m: "m = a @ take ?n (mp_c ctx)" and a: "16 dvd length a"
      "hv (mp_h ctx) mod P130 = poly_eval (poly_r key) 0 a mod P130"
    and l: "?n < 16" "length (mp_c ctx) = 16"
    by (auto simp: mono_macs_def)
  have g: "unat (gap (of_nat ?n) 16) = (16 - ?n) mod 16" using gap16 [of ?n] l by simp
  consider "x = []" | "x \<noteq> []" "?n = 0" | "x \<noteq> []" "0 < ?n" "?n + length x < 16" | "0 < ?n" "16 \<le> ?n + length x"
    by fastforce
  then show ?thesis
  proof cases
    case 1
    then show ?thesis using assms by (simp add: crypto_poly1305_update_def)
  next
    case 2
    have z: "ctx\<lparr>mp_c_idx := 0\<rparr> = ctx" using 2 by simp
    from mono_rest [OF assms 2(2), of x] 2 g show ?thesis
      by (simp add: crypto_poly1305_update_def memcpy_at_def z)
  next
    case 3
    then have "crypto_poly1305_update ctx x = ctx\<lparr>mp_c := memcpy_at (mp_c ctx) ?n x, mp_c_idx := ?n + length x\<rparr>"
      using g l by (simp add: crypto_poly1305_update_def Let_def poly_rest_def poly_blocks_def memcpy_at_def min_absorb2)
    then show ?thesis using assms 3 l a m by (auto simp: mono_macs_def)
  next
    case 4
    let ?k = "16 - ?n"
    let ?d = "memcpy_at (mp_c ctx) ?n (take ?k x)"
    have k: "min (unat (gap (of_nat ?n) 16)) (length x) = ?k" "?n + ?k = 16" using 4 g l by simp_all
    have d: "?d = take ?n (mp_c ctx) @ take ?k x" "length ?d = 16" using 4 l by (simp_all add: memcpy_at_def)
    have "mono_macs key a (ctx\<lparr>mp_c := ?d, mp_c_idx := 0\<rparr>)"
      using assms a d(2) by (auto simp: mono_macs_def)
    from mono_blocks [OF this, of 1 ?d] d(2)
    have "mono_macs key (a @ ?d) (poly_blocks (ctx\<lparr>mp_c := ?d, mp_c_idx := 0\<rparr>) ?d 1 1)" by simp
    then have b: "mono_macs key (m @ take ?k x) ((poly_blocks (ctx\<lparr>mp_c := ?d, mp_c_idx := 16\<rparr>) ?d 1 1)\<lparr>mp_c_idx := 0\<rparr>)"
      using a(1) unfolding d(1) m append.assoc poly_blocks_def by (auto simp: mono_macs_def)
    have "crypto_poly1305_update ctx x =
        poly_rest ((poly_blocks (ctx\<lparr>mp_c := ?d, mp_c_idx := 16\<rparr>) ?d 1 1)\<lparr>mp_c_idx := 0\<rparr>) (drop ?k x)"
      using 4 l unfolding crypto_poly1305_update_def k(1) by (auto simp: Let_def)
    with mono_rest [OF b, of "drop ?k x"] show ?thesis by simp
  qed
qed

section \<open>The tag\<close>

lemma final_quot_num:
  assumes "h_ok h"
  shows "final_quot h = of_nat (5 * ((5 + hv h) div 2 ^ 130))"
proof -
  have "length h = 5" and h4: "unat (h ! 4) \<le> 4" using assms by (simp_all add: h_ok_def)
  then obtain h0 h1 h2 h3 h4 where h: "h = [h0, h1, h2, h3, h4]" using list_of_5 by metis
  have d: "drop_bit 32 (of_nat n :: u64) = of_nat (n div 2 ^ 32)" if "n < 2 ^ 33" for n
    using drop_of_nat [of n 32, where ?'a = 64] that by simp
  have s: "n div 2 ^ 32 + unat (w :: u32) < 2 ^ 33" if "n < 2 ^ 33" for n w
  proof -
    have "n div 2 ^ 32 < 2" using that by (intro less_mult_imp_div_less) simp
    moreover have "unat w < 2 ^ 32" "(2 :: nat) ^ 33 = 2 * 2 ^ 32" by simp_all
    moreover have "(1 :: nat) < 2 ^ 32" by simp
    ultimately show ?thesis by linarith
  qed
  define n0 where "n0 = 5 + unat h0"
  define n1 where "n1 = n0 div 2 ^ 32 + unat h1"
  define n2 where "n2 = n1 div 2 ^ 32 + unat h2"
  define n3 where "n3 = n2 div 2 ^ 32 + unat h3"
  define n4 where "n4 = n3 div 2 ^ 32 + unat h4"
  have "unat h0 < 2 ^ 32" "(2 :: nat) ^ 33 = 2 ^ 32 + 2 ^ 32" "(5 :: nat) < 2 ^ 32" by simp_all
  then have b0: "n0 < 2 ^ 33" unfolding n0_def by linarith
  note b1 = s [OF b0, of h1, folded n1_def]
  note b2 = s [OF b1, of h2, folded n2_def]
  note b3 = s [OF b2, of h3, folded n3_def]
  note b4 = s [OF b3, of h4, folded n4_def]
  have hs: "h ! 0 = h0" "h ! 1 = h1" "h ! 2 = h2" "h ! 3 = h3" "h ! 4 = h4" by (simp_all add: h)
  have e0: "5 + of_nat (unat h0) = (of_nat n0 :: u64)" by (simp add: n0_def)
  have e: "of_nat a + of_nat b = (of_nat (a + b) :: u64)" for a b by simp
  have "final_quot h = drop_bit 2 (of_nat n4) * 5"
    unfolding final_quot_def Let_def ucast_u32_u64 hs
    by (simp only: e0 d [OF b0] d [OF b1] d [OF b2] d [OF b3] e n1_def [symmetric] n2_def [symmetric] n3_def [symmetric] n4_def [symmetric])
  also have "\<dots> = of_nat (5 * (n4 div 4))"
    using drop_of_nat [of n4 2, where ?'a = 64] b4 by simp
  also have "n4 div 4 = (5 + hv h) div 2 ^ 130"
  proof -
    have step: "(x + 2 ^ 32 * y) div (2 ^ 32 * z) = (x div 2 ^ 32 + y) div z" for x y z :: nat
      by (simp add: div_mult2_eq add.commute)
    have "(5 + hv h) div 2 ^ 130 = (n0 + 2 ^ 32 * (unat h1 + 2 ^ 32 * (unat h2 + 2 ^ 32 * (unat h3 + 2 ^ 32 * unat h4))))
        div (2 ^ 32 * (2 ^ 32 * (2 ^ 32 * (2 ^ 32 * 4))))"
      by (simp add: hv_def h n0_def)
    also have "\<dots> = n4 div 4"
      unfolding step add.assoc [symmetric] n1_def [symmetric] n2_def [symmetric] n3_def [symmetric] n4_def [symmetric] ..
    finally show ?thesis ..
  qed
  finally show ?thesis .
qed


lemma nat_to_le_add: "nat_to_le k (n + m * 256 ^ k) = nat_to_le k n"
  using nat_to_le_mod [of k "n + m * 256 ^ k"] nat_to_le_mod [of k n] by simp

lemma tag_words:
  fixes q h0 h1 h2 h3 s0 s1 s2 s3 :: nat
  defines "c0 \<equiv> q + (h0 + s0)"
  defines "c1 \<equiv> c0 div 2 ^ 32 + (h1 + s1)"
  defines "c2 \<equiv> c1 div 2 ^ 32 + (h2 + s2)"
  defines "c3 \<equiv> c2 div 2 ^ 32 + (h3 + s3)"
  shows "store32_le (of_nat c0) @ store32_le (of_nat c1) @ store32_le (of_nat c2) @ store32_le (of_nat c3) =
    nat_to_le 16 (q + val32 [h0, h1, h2, h3] + val32 [s0, s1, s2, s3])"
proof -
  have v: "q + val32 [h0, h1, h2, h3] + val32 [s0, s1, s2, s3] =
      c0 + 2 ^ 32 * (h1 + s1 + 2 ^ 32 * (h2 + s2 + 2 ^ 32 * (h3 + s3)))"
    by (simp add: c0_def)
  have w: "nat_to_le (4 + k) (x + 2 ^ 32 * (y + 2 ^ 32 * z)) =
      store32_le (of_nat x) @ nat_to_le k (x div 2 ^ 32 + y + 2 ^ 32 * z)" for k x y z
    using le_word_step [of k x "y + 2 ^ 32 * z"] by (simp only: add.assoc)
  have l: "nat_to_le (4 + 0) x = store32_le (of_nat x)" for x by (simp add: store32_of_nat)
  have "nat_to_le 16 (q + val32 [h0, h1, h2, h3] + val32 [s0, s1, s2, s3]) =
      nat_to_le (4 + (4 + (4 + (4 + 0)))) (c0 + 2 ^ 32 * ((h1 + s1) + 2 ^ 32 * ((h2 + s2) + 2 ^ 32 * (h3 + s3))))"
    unfolding v by simp
  also have "\<dots> = store32_le (of_nat c0) @ store32_le (of_nat c1) @ store32_le (of_nat c2) @ store32_le (of_nat c3)"
    by (simp only: w c1_def [symmetric] c2_def [symmetric]) (simp only: le_word_step c3_def [symmetric] l)
  finally show ?thesis ..
qed

lemma h_ok_quot:
  assumes "h_ok h"
  shows "(5 + hv h) div 2 ^ 130 \<le> 1"
    and "hv h + 5 * ((5 + hv h) div 2 ^ 130) = hv h mod P130 + 2 ^ 130 * ((5 + hv h) div 2 ^ 130)"
proof -
  define q where "q = (5 + hv h) div 2 ^ 130"
  have "length h = 5" and h4: "unat (h ! 4) \<le> 4" using assms by (simp_all add: h_ok_def)
  then obtain h0 h1 h2 h3 h4 where h: "h = [h0, h1, h2, h3, h4]" using list_of_5 by metis
  have "unat h0 < 2 ^ 32" "unat h1 < 2 ^ 32" "unat h2 < 2 ^ 32" "unat h3 < 2 ^ 32" by simp_all
  then have b: "hv h < 5 * 2 ^ 128" using h4 unfolding h hv_def by (simp del: unat_u32_less)
  have "5 + hv h < 2 * 2 ^ 130" using b by simp
  then have q: "q < 2" unfolding q_def by (intro less_mult_imp_div_less)
  then show "(5 + hv h) div 2 ^ 130 \<le> 1" unfolding q_def by linarith
  have "2 ^ 130 * q \<le> 5 + hv h" "5 + hv h < 2 ^ 130 * q + 2 ^ 130"
    unfolding q_def using dividend_less_times_div [of "2 ^ 130" "5 + hv h"]
    by (simp_all only: times_div_less_eq_dividend zero_less_power add.commute)
  with q b have "hv h mod P130 = hv h - q * P130 \<and> q * P130 \<le> hv h"
    by (cases "q = 0") (auto simp: P130_def mod_if less_2_cases_iff)
  then show "hv h + 5 * ((5 + hv h) div 2 ^ 130) = hv h mod P130 + 2 ^ 130 * ((5 + hv h) div 2 ^ 130)"
    unfolding q_def [symmetric] by (simp add: P130_def)
qed

lemma final_pad:
  assumes "h_ok h" and "length pad = 4"
  defines "c0 \<equiv> final_quot h + (ucast (h ! 0) + ucast (pad ! 0))"
  defines "c1 \<equiv> drop_bit 32 c0 + (ucast (h ! 1) + ucast (pad ! 1))"
  defines "c2 \<equiv> drop_bit 32 c1 + (ucast (h ! 2) + ucast (pad ! 2))"
  defines "c3 \<equiv> drop_bit 32 c2 + (ucast (h ! 3) + ucast (pad ! 3))"
  shows "store32_le (ucast c0) @ store32_le (ucast c1) @ store32_le (ucast c2) @ store32_le (ucast c3) =
    nat_to_le 16 (hv h mod P130 + hv pad)"
proof -
  define k where "k = (5 + hv h) div 2 ^ 130"
  have k: "k \<le> 1" "hv h + 5 * k = hv h mod P130 + 2 ^ 130 * k"
    using h_ok_quot [OF assms(1)] unfolding k_def by blast+
  have "length h = 5" using assms(1) by (simp_all add: h_ok_def)
  then obtain h0 h1 h2 h3 h4 where h: "h = [h0, h1, h2, h3, h4]" using list_of_5 by metis
  obtain s0 s1 s2 s3 where s: "pad = [s0, s1, s2, s3]"
    using assms(2) by (auto simp: length_Suc_conv eval_nat_numeral)
  define n0 where "n0 = 5 * k + (unat h0 + unat s0)"
  define n1 where "n1 = n0 div 2 ^ 32 + (unat h1 + unat s1)"
  define n2 where "n2 = n1 div 2 ^ 32 + (unat h2 + unat s2)"
  define n3 where "n3 = n2 div 2 ^ 32 + (unat h3 + unat s3)"
  have step: "n div 2 ^ 32 + (unat u + unat v) < 2 ^ 34" if "n < 2 ^ 34" for n and u v :: u32
  proof -
    have "n div 2 ^ 32 < 4" using that by (intro less_mult_imp_div_less) simp
    moreover have "unat u < 2 ^ 32" "unat v < 2 ^ 32" "(2 :: nat) ^ 34 = 4 * 2 ^ 32" "(4 :: nat) < 2 ^ 32" by simp_all
    ultimately show ?thesis by linarith
  qed
  have "unat h0 < 2 ^ 32" "unat s0 < 2 ^ 32" "(2 :: nat) ^ 34 = 4 * 2 ^ 32" "(5 :: nat) < 2 ^ 32" by simp_all
  then have b0: "n0 < 2 ^ 34" using k(1) unfolding n0_def by linarith
  note b1 = step [OF b0, of h1 s1, folded n1_def]
  note b2 = step [OF b1, of h2 s2, folded n2_def]
  have d: "drop_bit 32 (of_nat n :: u64) = of_nat (n div 2 ^ 32)" if "n < 2 ^ 34" for n
    using drop_of_nat [of n 32, where ?'a = 64] that by simp
  have hs: "h ! 0 = h0" "h ! 1 = h1" "h ! 2 = h2" "h ! 3 = h3" by (simp_all add: h)
  have ss: "pad ! 0 = s0" "pad ! 1 = s1" "pad ! 2 = s2" "pad ! 3 = s3" by (simp_all add: s)
  note w = ucast_u32_u64 hs ss of_nat_add [symmetric]
  have c0: "c0 = of_nat n0" unfolding c0_def final_quot_num [OF assms(1)] k_def [symmetric] n0_def w ..
  have c1: "c1 = of_nat n1" unfolding c1_def c0 d [OF b0] n1_def w ..
  have c2: "c2 = of_nat n2" unfolding c2_def c1 d [OF b1] n2_def w ..
  have c3: "c3 = of_nat n3" unfolding c3_def c2 d [OF b2] n3_def w ..
  let ?lo = "val32 [unat h0, unat h1, unat h2, unat h3]" and ?s = "val32 [unat s0, unat s1, unat s2, unat s3]"
  have "store32_le (ucast c0) @ store32_le (ucast c1) @ store32_le (ucast c2) @ store32_le (ucast c3) =
      nat_to_le 16 (5 * k + ?lo + ?s)"
    unfolding c0 c1 c2 c3 ucast_down_of_nat
    using tag_words [of "5 * k" "unat h0" "unat s0" "unat h1" "unat s1" "unat h2" "unat s2" "unat h3" "unat s3"]
    unfolding n0_def [symmetric] n1_def [symmetric] n2_def [symmetric] n3_def [symmetric] .
  also have "\<dots> = nat_to_le 16 (5 * k + ?lo + ?s + unat h4 * 256 ^ 16)"
    by (rule nat_to_le_add [symmetric])
  also have "5 * k + ?lo + ?s + unat h4 * 256 ^ 16 = hv h mod P130 + hv pad + 4 * k * 256 ^ 16"
    using k(2) unfolding h s hv_def by simp
  also have "nat_to_le 16 \<dots> = nat_to_le 16 (hv h mod P130 + hv pad)" by (rule nat_to_le_add)
  finally show ?thesis .
qed

lemma mono_tag_spec:
  assumes "h_ok (mp_h c)" and "mp_pad c = mp_pad (crypto_poly1305_init key)" and "32 \<le> length key"
    and "hv (mp_h c) mod P130 = poly_eval (poly_r key) 0 m"
  shows "mono_tag c = poly1305_spec key m"
proof -
  have w: "load32_le (drop k (take 16 (drop 16 key))) = load32_le (drop (16 + k) key)" if "k \<le> 12" for k
    using that assms(3) by (simp add: load32_le_def add.commute)
  have l: "length (take 16 (drop 16 key)) = 16" "length (mp_pad c) = 4"
    using assms(2,3) by (simp_all add: crypto_poly1305_init_def)
  from num_words [OF l(1)] w [of 0] w [of 4] w [of 8] w [of 12]
  have "hv (mp_pad c) = le_num (take 16 (drop 16 key))"
    by (simp add: assms(2) hv_def crypto_poly1305_init_def)
  with final_pad [OF assms(1) l(2)] assms(4) show ?thesis
    unfolding mono_tag_def Let_def poly1305_spec_def by simp
qed

lemma mono_macs_final:
  assumes "mono_macs key m ctx"
  shows "crypto_poly1305_final ctx = poly1305_spec key m"
proof -
  let ?n = "mp_c_idx ctx" and ?R = "poly_r key"
  from assms obtain a where m: "m = a @ take ?n (mp_c ctx)" and a: "16 dvd length a"
      "hv (mp_h ctx) mod P130 = poly_eval ?R 0 a mod P130"
    and l: "?n < 16" "length (mp_c ctx) = 16" "32 \<le> length key" "h_ok (mp_h ctx)"
      "mp_pad ctx = mp_pad (crypto_poly1305_init key)"
    by (auto simp: mono_macs_def)
  have r: "r_ok (mp_r ctx)" "hv (mp_r ctx) = ?R"
    using assms mono_init_ok mono_init_r by (simp_all add: mono_macs_def)
  show ?thesis
  proof (cases "?n = 0")
    case True
    then have "crypto_poly1305_final ctx = mono_tag ctx" by (simp add: crypto_poly1305_final_def)
    then show ?thesis using mono_tag_spec [OF l(4,5,3), of m] True a(2) m by (simp add: poly_eval_mod)
  next
    case False
    let ?rest = "take ?n (mp_c ctx)"
    let ?b = "(memcpy_at (mp_c ctx) ?n (replicate (16 - ?n) 0))[?n := 1]"
    let ?h = "poly_step (mp_r ctx) (mp_h ctx) ?b 0"
    have f: "crypto_poly1305_final ctx = mono_tag (ctx\<lparr>mp_c := ?b, mp_h := ?h\<rparr>)"
      using False by (simp add: crypto_poly1305_final_def Let_def poly_blocks_def)
    have "replicate (16 - ?n) (0 :: u8) = 0 # replicate (15 - ?n) 0" using l(1)
      by (simp add: replicate_app_Cons_same flip: replicate_Suc Suc_diff_le)
    then have b: "?b = (?rest @ [1]) @ replicate (15 - ?n) 0" "length ?b = 16"
      using l by (simp_all add: memcpy_at_def list_update_append)
    have num: "le_num ?b = le_num (?rest @ [1])" unfolding b(1) le_num_append [of "?rest @ [1]"] by simp
    from step_spec [OF l(4) r(1) b(2), of 0]
    have h: "h_ok ?h" "hv ?h mod P130 = (hv (mp_h ctx) + le_num (?rest @ [1])) * ?R mod P130"
      unfolding num r(2) by simp_all
    have "hv ?h mod P130 = (poly_eval ?R 0 a + le_num (?rest @ [1])) * ?R mod P130"
      unfolding h(2) by (rule mod_horner [OF a(2)])
    also have "\<dots> = poly_eval ?R 0 m"
      using False l(1,2) unfolding m poly_eval_append [OF a(1)] by (subst poly_eval_last) auto
    finally show ?thesis unfolding f by (intro mono_tag_spec) (simp_all add: h(1) l)
  qed
qed

interpretation monopoly: one_time_mac crypto_poly1305_init crypto_poly1305_update crypto_poly1305_final mono_macs
  by unfold_locales (rule mono_macs_init mono_macs_update mono_macs_final, assumption)+

section \<open>Properties\<close>

text \<open>
  C21: Two implementations, one function. However a message is cut into pieces, the portable
  Poly1305 on limbs of 32 bits and the vector Poly1305 on limbs of 26 bits return the same tag,
  that of RFC 8439; so a tag made by one of them is accepted by the other.
\<close>

theorem poly1305_portable_equiv:
  assumes "32 \<le> length key" and "concat xs = concat ys"
  shows "crypto_poly1305_final (fold (\<lambda>x c. crypto_poly1305_update c x) xs (crypto_poly1305_init key)) =
    wg_poly1305_final (fold (\<lambda>x c. wg_poly1305_update c x) ys (wg_poly1305_init key))"
  unfolding monopoly.streamed [OF assms(1)] wgpoly.streamed [OF assms(1)] assms(2) ..

theorem poly1305_portable_equiv_witness:
  "32 \<le> length (replicate 32 (7 :: u8)) \<and> concat [[1, 2], [3 :: u8]] = concat [[1], [2, 3]] \<and>
   crypto_poly1305_final (fold (\<lambda>x c. crypto_poly1305_update c x) [[1, 2], [3]] (crypto_poly1305_init (replicate 32 7))) =
   wg_poly1305_final (fold (\<lambda>x c. wg_poly1305_update c x) [[1], [2, 3]] (wg_poly1305_init (replicate 32 7)))"
  using poly1305_portable_equiv [of "replicate 32 7" "[[1, 2], [3]]" "[[1], [2, 3]]"] by simp

end
