(* ===== verification/Aead.thy ===== *)
theory Aead
  imports ChaCha20 MonoPoly Verify
begin

text \<open>
  Authenticated encryption: \<open>wg_aead_encrypt\<close> and \<open>wg_aead_decrypt\<close> of \<open>src/wg_crypto.c\<close>, the NEON
  construction of \<open>src/wg_chacha20_neon.c\<close> they use on the console, and the incremental and
  one-shot interfaces of \<open>library/crypto/monocypher.c\<close>, which the portable branch and the cookie
  use. A return value other than 0 is \<open>None\<close>; the code then leaves the output buffer untouched.
\<close>

unbundle bit_operations_syntax

section \<open>Model\<close>

definition WG_AEAD_TAG_LEN :: nat where "WG_AEAD_TAG_LEN = 16"

subsection \<open>The NEON construction\<close>

definition build_nonce :: "u64 \<Rightarrow> bytes" where
  "build_nonce counter = [0, 0, 0, 0, ucast counter, ucast (drop_bit 8 counter), ucast (drop_bit 16 counter),
     ucast (drop_bit 24 counter), ucast (drop_bit 32 counter), ucast (drop_bit 40 counter),
     ucast (drop_bit 48 counter), ucast (drop_bit 56 counter)]"

definition neon_store64_le :: "u64 \<Rightarrow> bytes" where
  "neon_store64_le v = [ucast v, ucast (drop_bit 8 v), ucast (drop_bit 16 v), ucast (drop_bit 24 v),
     ucast (drop_bit 32 v), ucast (drop_bit 40 v), ucast (drop_bit 48 v), ucast (drop_bit 56 v)]"

text \<open>The tag over the associated data and the cipher text, as both directions compute it.\<close>

definition neon_tag :: "bytes \<Rightarrow> bytes \<Rightarrow> bytes \<Rightarrow> bytes" where
  "neon_tag poly_key ad text =
     (let pad = replicate 16 0;
          ad_pad = (16 - length ad mod 16) mod 16;
          ct_pad = (16 - length text mod 16) mod 16;
          sizes = neon_store64_le (of_nat (length ad)) @ neon_store64_le (of_nat (length text));
          poly_ctx = wg_poly1305_init poly_key;
          poly_ctx =
            (if 0 < length ad
             then
               (let poly_ctx = wg_poly1305_update poly_ctx ad
                in if 0 < ad_pad then wg_poly1305_update poly_ctx (take ad_pad pad) else poly_ctx)
             else poly_ctx);
          poly_ctx = wg_poly1305_update poly_ctx text;
          poly_ctx = (if 0 < ct_pad then wg_poly1305_update poly_ctx (take ct_pad pad) else poly_ctx);
          poly_ctx = wg_poly1305_update poly_ctx sizes
      in wg_poly1305_final poly_ctx)"

definition wg_aead_neon_encrypt :: "bytes \<Rightarrow> u64 \<Rightarrow> bytes \<Rightarrow> bytes \<Rightarrow> bytes" where
  "wg_aead_neon_encrypt key counter plaintext ad =
     (let nonce = build_nonce counter;
          poly_key = wg_chacha20_block_neon key nonce 0;
          out = wg_chacha20_neon plaintext key nonce 1
      in out @ neon_tag poly_key ad out)"

definition wg_aead_neon_decrypt :: "bytes \<Rightarrow> u64 \<Rightarrow> bytes \<Rightarrow> bytes \<Rightarrow> bytes option" where
  "wg_aead_neon_decrypt key counter ciphertext ad =
     (if length ciphertext < 16 then None
      else
        (let plaintext_len = length ciphertext - 16;
             mac = drop plaintext_len ciphertext;
             nonce = build_nonce counter;
             poly_key = wg_chacha20_block_neon key nonce 0;
             computed_mac = neon_tag poly_key ad (take plaintext_len ciphertext);
             result = crypto_verify16 computed_mac mac
         in if result = 0 then Some (wg_chacha20_neon (take plaintext_len ciphertext) key nonce 1) else None))"

subsection \<open>The portable construction\<close>

record crypto_aead_ctx =
  ae_counter :: u64
  ae_key :: bytes
  ae_nonce :: bytes

definition lock_auth :: "bytes \<Rightarrow> bytes \<Rightarrow> bytes \<Rightarrow> bytes" where
  "lock_auth auth_key ad cipher_text =
     (let zero = replicate 128 0;
          sizes = store64_le (of_nat (length ad)) @ store64_le (of_nat (length cipher_text));
          poly_ctx = crypto_poly1305_init auth_key;
          poly_ctx = crypto_poly1305_update poly_ctx ad;
          poly_ctx = crypto_poly1305_update poly_ctx (take (unat (gap (of_nat (length ad)) 16)) zero);
          poly_ctx = crypto_poly1305_update poly_ctx cipher_text;
          poly_ctx = crypto_poly1305_update poly_ctx (take (unat (gap (of_nat (length cipher_text)) 16)) zero);
          poly_ctx = crypto_poly1305_update poly_ctx sizes
      in crypto_poly1305_final poly_ctx)"

definition crypto_aead_init_x :: "bytes \<Rightarrow> bytes \<Rightarrow> crypto_aead_ctx" where
  "crypto_aead_init_x key nonce =
     \<lparr>ae_counter = 0, ae_key = crypto_chacha20_h key nonce, ae_nonce = take 8 (drop 16 nonce)\<rparr>"

definition crypto_aead_init_djb :: "bytes \<Rightarrow> bytes \<Rightarrow> crypto_aead_ctx" where
  "crypto_aead_init_djb key nonce = \<lparr>ae_counter = 0, ae_key = take 32 key, ae_nonce = take 8 nonce\<rparr>"

definition crypto_aead_init_ietf :: "bytes \<Rightarrow> bytes \<Rightarrow> crypto_aead_ctx" where
  "crypto_aead_init_ietf key nonce =
     \<lparr>ae_counter = push_bit 32 (ucast (load32_le nonce)), ae_key = take 32 key,
      ae_nonce = take 8 (drop 4 nonce)\<rparr>"

definition crypto_aead_write :: "crypto_aead_ctx \<Rightarrow> bytes \<Rightarrow> bytes \<Rightarrow> crypto_aead_ctx \<times> bytes \<times> bytes" where
  "crypto_aead_write ctx ad plain_text =
     (let auth_key = fst (crypto_chacha20_djb None 64 (ae_key ctx) (ae_nonce ctx) (ae_counter ctx));
          cipher_text = fst (crypto_chacha20_djb (Some plain_text) (length plain_text) (ae_key ctx) (ae_nonce ctx)
            (ae_counter ctx + 1));
          mac = lock_auth auth_key ad cipher_text
      in (ctx\<lparr>ae_key := take 32 (drop 32 auth_key)\<rparr>, cipher_text, mac))"

definition crypto_aead_read ::
  "crypto_aead_ctx \<Rightarrow> bytes \<Rightarrow> bytes \<Rightarrow> bytes \<Rightarrow> crypto_aead_ctx \<times> bytes option" where
  "crypto_aead_read ctx mac ad cipher_text =
     (let auth_key = fst (crypto_chacha20_djb None 64 (ae_key ctx) (ae_nonce ctx) (ae_counter ctx));
          real_mac = lock_auth auth_key ad cipher_text;
          mismatch = crypto_verify16 mac real_mac
      in if mismatch = 0
         then
           (ctx\<lparr>ae_key := take 32 (drop 32 auth_key)\<rparr>,
            Some (fst (crypto_chacha20_djb (Some cipher_text) (length cipher_text) (ae_key ctx) (ae_nonce ctx)
              (ae_counter ctx + 1))))
         else (ctx, None))"

definition crypto_aead_lock :: "bytes \<Rightarrow> bytes \<Rightarrow> bytes \<Rightarrow> bytes \<Rightarrow> bytes \<times> bytes" where
  "crypto_aead_lock key nonce ad plain_text = snd (crypto_aead_write (crypto_aead_init_x key nonce) ad plain_text)"

definition crypto_aead_unlock :: "bytes \<Rightarrow> bytes \<Rightarrow> bytes \<Rightarrow> bytes \<Rightarrow> bytes \<Rightarrow> bytes option" where
  "crypto_aead_unlock mac key nonce ad cipher_text =
     snd (crypto_aead_read (crypto_aead_init_x key nonce) mac ad cipher_text)"

subsection \<open>The functions the tunnel calls\<close>

definition portable_encrypt :: "bytes \<Rightarrow> u64 \<Rightarrow> bytes \<Rightarrow> bytes \<Rightarrow> bytes" where
  "portable_encrypt key counter plaintext ad =
     (let nonce = [0, 0, 0, 0, ucast counter, ucast (drop_bit 8 counter), ucast (drop_bit 16 counter),
            ucast (drop_bit 24 counter), ucast (drop_bit 32 counter), ucast (drop_bit 40 counter),
            ucast (drop_bit 48 counter), ucast (drop_bit 56 counter)];
          (ctx, out, mac) = crypto_aead_write (crypto_aead_init_ietf key nonce) ad plaintext
      in out @ mac)"

definition wg_aead_encrypt :: "bytes \<Rightarrow> u64 \<Rightarrow> bytes \<Rightarrow> bytes \<Rightarrow> bytes" where
  "wg_aead_encrypt key counter plaintext ad =
     (if wg_chacha20_neon_available then wg_aead_neon_encrypt key counter plaintext ad
      else portable_encrypt key counter plaintext ad)"

definition portable_decrypt :: "bytes \<Rightarrow> u64 \<Rightarrow> bytes \<Rightarrow> bytes \<Rightarrow> bytes option" where
  "portable_decrypt key counter ciphertext ad =
     (let nonce = [0, 0, 0, 0, ucast counter, ucast (drop_bit 8 counter), ucast (drop_bit 16 counter),
            ucast (drop_bit 24 counter), ucast (drop_bit 32 counter), ucast (drop_bit 40 counter),
            ucast (drop_bit 48 counter), ucast (drop_bit 56 counter)];
          plaintext_len = length ciphertext - WG_AEAD_TAG_LEN;
          mac = drop plaintext_len ciphertext
      in snd (crypto_aead_read (crypto_aead_init_ietf key nonce) mac ad (take plaintext_len ciphertext)))"

definition wg_aead_decrypt :: "bytes \<Rightarrow> u64 \<Rightarrow> bytes \<Rightarrow> bytes \<Rightarrow> bytes option" where
  "wg_aead_decrypt key counter ciphertext ad =
     (if length ciphertext < WG_AEAD_TAG_LEN then None
      else if wg_chacha20_neon_available then wg_aead_neon_decrypt key counter ciphertext ad
      else portable_decrypt key counter ciphertext ad)"

section \<open>The tag\<close>

text \<open>RFC 8439: associated data and cipher text, each padded to whole blocks, and both lengths.\<close>

definition aead_tag :: "bytes \<Rightarrow> bytes \<Rightarrow> bytes \<Rightarrow> bytes" where
  "aead_tag poly_key ad text =
     poly1305_spec poly_key
       (ad @ replicate ((16 - length ad mod 16) mod 16) 0 @ text @ replicate ((16 - length text mod 16) mod 16) 0 @
        store64_le (of_nat (length ad)) @ store64_le (of_nat (length text)))"

lemma aead_tag_length [simp, bytes_len]: "length (aead_tag k ad text) = 16"
  by (simp add: aead_tag_def)

lemma neon_store64: "neon_store64_le v = store64_le v"
  by (simp add: neon_store64_le_def store64_le_def store32_le_def bit_eq_iff bit_simps)

context one_time_mac
begin

lemma absorb_if:
  "absorbed key m c \<Longrightarrow> x = [] \<or> b \<Longrightarrow> absorbed key (m @ x) (if b then mac_update c x else c)"
  using update_absorbed by auto

end

lemma neon_tag_spec: "32 \<le> length k \<Longrightarrow> neon_tag k ad ct = aead_tag k ad ct"
proof -
  assume k: "32 \<le> length k"
  define p q where "p = (16 - length ad mod 16) mod 16" and "q = (16 - length ct mod 16) mod 16"
  have pq: "take p (replicate 16 0) = replicate p (0 :: u8)" "take q (replicate 16 0) = replicate q (0 :: u8)"
    by (simp_all add: p_def q_def min_absorb1 less_imp_le)
  let ?c1 = "wg_poly1305_init k"
  let ?c2 = "if 0 < p then wg_poly1305_update (wg_poly1305_update ?c1 ad) (replicate p 0)
     else wg_poly1305_update ?c1 ad"
  let ?c3 = "if 0 < length ad then ?c2 else ?c1"
  let ?c4 = "wg_poly1305_update ?c3 ct"
  let ?c5 = "if 0 < q then wg_poly1305_update ?c4 (replicate q 0) else ?c4"
  have "macs k (([] @ ad) @ replicate p 0) ?c2"
    using macs_update [OF macs_init [OF k], of ad] by (intro wgpoly.absorb_if) auto
  then have "macs k (ad @ replicate p 0) ?c3"
    using macs_init [OF k] by (auto simp: p_def)
  from macs_update [OF this, of ct] have "macs k ((ad @ replicate p 0) @ ct) ?c4" .
  then have "macs k (((ad @ replicate p 0) @ ct) @ replicate q 0) ?c5"
    by (rule wgpoly.absorb_if) auto
  from macs_final [OF macs_update [OF this]] show ?thesis
    unfolding neon_tag_def aead_tag_def Let_def p_def [symmetric] q_def [symmetric] pq neon_store64
    by (simp only: append.assoc)
qed

lemma lock_auth_spec: "32 \<le> length k \<Longrightarrow> lock_auth k ad ct = aead_tag k ad ct"
proof -
  assume k: "32 \<le> length k"
  have g: "take (unat (gap (of_nat n) 16)) (replicate 128 0) = replicate ((16 - n mod 16) mod 16) (0 :: u8)" for n
    using less_imp_le [OF less_trans [of "(16 - n mod 16) mod 16" 16 128]] by (simp add: gap16 min_absorb1)
  let ?s = "store64_le (of_nat (length ad)) @ store64_le (of_nat (length ct))"
  show ?thesis
    using monopoly.streamed [OF k, of "[ad, replicate ((16 - length ad mod 16) mod 16) 0, ct,
        replicate ((16 - length ct mod 16) mod 16) 0, ?s]"]
    unfolding lock_auth_def aead_tag_def Let_def g by simp
qed

section \<open>Key stream\<close>

lemma poly_key_length [simp, bytes_len]: "length (wg_chacha20_block_neon key nonce c) = 64"
  by (simp add: block_neon_ks)

lemma djb_any_counter:
  "fst (crypto_chacha20_djb (Some m) (length m) key nonce c) =
     chacha_stream (\<lambda>i. ks_bytes (djb_state key nonce i)) (unat c) m"
  "fst (crypto_chacha20_djb None 64 key nonce c) = ks_bytes (djb_state key nonce (unat c))"
  using djb_stream [of m key nonce "unat c"] djb_null [of key nonce "unat c"] by simp_all

lemma djb_twice:
  "fst (crypto_chacha20_djb (Some (fst (crypto_chacha20_djb (Some m) (length m) key nonce c)))
     (length m) key nonce c) = m"
proof -
  let ?x = "chacha_stream (\<lambda>i. ks_bytes (djb_state key nonce i)) (unat c) m"
  have l: "length ?x = length m" by (rule chacha_stream_length) simp
  have "fst (crypto_chacha20_djb (Some ?x) (length ?x) key nonce c) = m"
    unfolding djb_any_counter by (rule chacha_stream_twice) simp
  then show ?thesis unfolding djb_any_counter(1) l .
qed

lemma djb_length [simp, bytes_len]: "length (fst (crypto_chacha20_djb (Some m) (length m) key nonce c)) = length m"
  unfolding djb_any_counter by (rule chacha_stream_length) simp

lemma neon_decrypt_spec:
  assumes "length mac = 16"
  shows "wg_aead_neon_decrypt key counter (ct @ mac) ad =
    (if mac = aead_tag (wg_chacha20_block_neon key (build_nonce counter) 0) ad ct
     then Some (wg_chacha20_neon ct key (build_nonce counter) 1) else None)"
  using assms by (auto simp: wg_aead_neon_decrypt_def Let_def neon_tag_spec verify16)

lemma neon_encrypt_spec:
  "wg_aead_neon_encrypt key counter m ad =
     wg_chacha20_neon m key (build_nonce counter) 1 @
     aead_tag (wg_chacha20_block_neon key (build_nonce counter) 0) ad (wg_chacha20_neon m key (build_nonce counter) 1)"
  by (simp add: wg_aead_neon_encrypt_def Let_def neon_tag_spec)

lemma aead_decrypt_iff:
  "wg_aead_decrypt key counter c ad = Some m \<longleftrightarrow> c = wg_aead_encrypt key counter m ad"
proof (cases "length c < 16")
  case True
  have "length (wg_aead_encrypt key counter m ad) \<ge> 16"
    by (simp add: wg_aead_encrypt_def wg_chacha20_neon_available_def neon_encrypt_spec)
  with True show ?thesis by (auto simp: wg_aead_decrypt_def WG_AEAD_TAG_LEN_def)
next
  case False
  define ct mac where "ct = take (length c - 16) c" and "mac = drop (length c - 16) c"
  have c: "c = ct @ mac" "length mac = 16" using False by (simp_all add: ct_def mac_def)
  let ?n = "build_nonce counter"
  have "wg_aead_decrypt key counter c ad = Some m \<longleftrightarrow>
      mac = aead_tag (wg_chacha20_block_neon key ?n 0) ad ct \<and> wg_chacha20_neon ct key ?n 1 = m"
    using False neon_decrypt_spec [OF c(2), of key counter ct ad]
    by (auto simp: wg_aead_decrypt_def WG_AEAD_TAG_LEN_def wg_chacha20_neon_available_def c(1))
  also have "\<dots> \<longleftrightarrow> mac = aead_tag (wg_chacha20_block_neon key ?n 0) ad ct \<and> ct = wg_chacha20_neon m key ?n 1"
    using neon_twice by metis
  also have "\<dots> \<longleftrightarrow> c = wg_aead_encrypt key counter m ad"
    unfolding wg_aead_encrypt_def wg_chacha20_neon_available_def neon_encrypt_spec if_True
    using c by (auto simp: append_eq_append_conv)
  finally show ?thesis .
qed

lemma aead_read_iff:
  assumes "length mac = 16"
  shows "crypto_aead_read ctx mac ad c = (ctx', Some m) \<longleftrightarrow> crypto_aead_write ctx ad m = (ctx', c, mac)"
proof -
  let ?k = "fst (crypto_chacha20_djb None 64 (ae_key ctx) (ae_nonce ctx) (ae_counter ctx))"
  let ?e = "\<lambda>t. fst (crypto_chacha20_djb (Some t) (length t) (ae_key ctx) (ae_nonce ctx) (ae_counter ctx + 1))"
  let ?ctx = "ctx\<lparr>ae_key := take 32 (drop 32 ?k)\<rparr>"
  have k: "32 \<le> length ?k" by (simp add: djb_any_counter)
  have "crypto_aead_read ctx mac ad c = (ctx', Some m) \<longleftrightarrow>
      mac = aead_tag ?k ad c \<and> ?ctx = ctx' \<and> ?e c = m"
    using assms by (auto simp: crypto_aead_read_def Let_def lock_auth_spec [OF k] verify16)
  also have "?e c = m \<longleftrightarrow> c = ?e m" using djb_twice djb_length by metis
  also have "mac = aead_tag ?k ad c \<and> ?ctx = ctx' \<and> c = ?e m \<longleftrightarrow> crypto_aead_write ctx ad m = (ctx', c, mac)"
    by (auto simp: crypto_aead_write_def Let_def lock_auth_spec [OF k])
  finally show ?thesis .
qed

section \<open>The portable branch\<close>

lemma load_buf_take: "4 * n \<le> k \<Longrightarrow> k \<le> length key \<Longrightarrow> load32_le_buf (take k key) n = load32_le_buf key n"
  by (auto simp: load32_le_buf_def load32_le_def)

lemma ietf_nonce:
  "length (build_nonce c) = 12" "load32_le (build_nonce c) = 0" "ietf_ctr (build_nonce c) x = unat x"
  by (simp_all add: build_nonce_def load32_le_def ietf_ctr_def)

lemma djb_state_ietf:
  assumes "32 \<le> length key"
  shows "djb_state (take 32 key) (take 8 (drop 4 (build_nonce c))) i = djb_state key (drop 4 (build_nonce c)) i"
  using assms by (simp add: djb_state_def load_buf_take ietf_nonce)

lemma portable_ctx:
  fixes c :: u64
  assumes "32 \<le> length key"
  defines "ctx \<equiv> crypto_aead_init_ietf key (build_nonce c)"
  shows "fst (crypto_chacha20_djb None 64 (ae_key ctx) (ae_nonce ctx) (ae_counter ctx)) =
      wg_chacha20_block_neon key (build_nonce c) 0"
    and "length m < 2 ^ 38 - 64 \<Longrightarrow>
      fst (crypto_chacha20_djb (Some m) (length m) (ae_key ctx) (ae_nonce ctx) (ae_counter ctx + 1)) =
      wg_chacha20_neon m key (build_nonce c) 1"
proof -
  have ctx: "ae_key ctx = take 32 key" "ae_nonce ctx = take 8 (drop 4 (build_nonce c))" "ae_counter ctx = 0"
    by (simp_all add: ctx_def crypto_aead_init_ietf_def ietf_nonce)
  have "djb_state key (drop 4 (build_nonce c)) 0 = neon_state key (build_nonce c) 0"
    using ietf_state [of 0 0 key "build_nonce c"] by (simp add: ietf_nonce)
  then show "fst (crypto_chacha20_djb None 64 (ae_key ctx) (ae_nonce ctx) (ae_counter ctx)) =
      wg_chacha20_block_neon key (build_nonce c) 0"
    unfolding djb_any_counter ctx djb_state_ietf [OF assms(1)] block_neon_ks by simp
  assume m: "length m < 2 ^ 38 - 64"
  then have "length m div 64 < 2 ^ 32 - 1" by (intro less_mult_imp_div_less) simp
  then have "unat (1 :: u32) + length m div 64 < 2 ^ 32" by simp
  from neon_stream_ietf [OF this, of key "build_nonce c"]
  show "fst (crypto_chacha20_djb (Some m) (length m) (ae_key ctx) (ae_nonce ctx) (ae_counter ctx + 1)) =
      wg_chacha20_neon m key (build_nonce c) 1"
    unfolding djb_any_counter ctx djb_state_ietf [OF assms(1)] by (simp add: ietf_nonce)
qed

lemma portable_encrypt_neon:
  assumes "32 \<le> length key" and "length m < 2 ^ 38 - 64"
  shows "portable_encrypt key c m ad = wg_aead_neon_encrypt key c m ad"
proof -
  let ?ctx = "crypto_aead_init_ietf key (build_nonce c)"
  have "portable_encrypt key c m ad = (let (ctx, out, mac) = crypto_aead_write ?ctx ad m in out @ mac)"
    by (simp only: portable_encrypt_def build_nonce_def Let_def)
  also have "\<dots> = wg_aead_neon_encrypt key c m ad"
    unfolding crypto_aead_write_def portable_ctx [OF assms(1)] portable_ctx(2) [OF assms]
    by (simp add: neon_encrypt_spec Let_def lock_auth_spec)
  finally show ?thesis .
qed

lemma portable_decrypt_neon:
  assumes "32 \<le> length key" and "16 \<le> length c" and "length c < 2 ^ 38 - 48"
  shows "portable_decrypt key n c ad = wg_aead_neon_decrypt key n c ad"
proof -
  let ?ctx = "crypto_aead_init_ietf key (build_nonce n)"
  define ct mac where "ct = take (length c - 16) c" and "mac = drop (length c - 16) c"
  have c: "c = ct @ mac" "length mac = 16" "length ct < 2 ^ 38 - 64" using assms by (simp_all add: ct_def mac_def)
  have "portable_decrypt key n c ad = snd (crypto_aead_read ?ctx mac ad ct)"
    by (simp only: portable_decrypt_def build_nonce_def Let_def ct_def mac_def WG_AEAD_TAG_LEN_def)
  also have "\<dots> = (if mac = aead_tag (wg_chacha20_block_neon key (build_nonce n) 0) ad ct
      then Some (wg_chacha20_neon ct key (build_nonce n) 1) else None)"
    unfolding crypto_aead_read_def portable_ctx(1) [OF assms(1)] portable_ctx(2) [OF assms(1) c(3)]
    using c(2) by (simp add: Let_def lock_auth_spec verify16)
  also have "\<dots> = wg_aead_neon_decrypt key n c ad" unfolding c(1) neon_decrypt_spec [OF c(2)] ..
  finally show ?thesis .
qed

section \<open>Properties\<close>

text \<open>
  C8: Authenticated encryption of the tunnel is exact. Decryption under a key, a counter and
  associated data succeeds with a plain text if and only if its input is, byte for byte, the
  encryption of that plain text under the same key, counter and associated data. So every packet
  the tunnel seals opens to what was sealed, and every packet that was altered, replayed under
  another counter or is too short to carry a tag is refused.
\<close>

theorem aead_exact:
  "wg_aead_decrypt key counter c ad = Some m \<longleftrightarrow> c = wg_aead_encrypt key counter m ad"
  by (rule aead_decrypt_iff)

text \<open>
  C22: The branch of the tunnel's authenticated encryption for processors without the vector unit
  computes the same function: below the length at which the 32-bit block counter would wrap, both
  branches seal a plain text to the same packet and open a packet to the same result.
\<close>

theorem aead_branches_agree:
  assumes "32 \<le> length key" and "length m < 2 ^ 38 - 64" and "16 \<le> length c" and "length c < 2 ^ 38 - 48"
  shows "portable_encrypt key counter m ad = wg_aead_neon_encrypt key counter m ad \<and>
    portable_decrypt key counter c ad = wg_aead_neon_decrypt key counter c ad"
  using portable_encrypt_neon [OF assms(1,2)] portable_decrypt_neon [OF assms(1,3,4)] by simp

theorem aead_branches_agree_witness:
  "32 \<le> length (replicate 32 (5 :: u8)) \<and>
   portable_encrypt (replicate 32 5) 7 [1, 2, 3] [9] = wg_aead_neon_encrypt (replicate 32 5) 7 [1, 2, 3] [9] \<and>
   portable_decrypt (replicate 32 5) 7 (replicate 20 0) [9] = wg_aead_neon_decrypt (replicate 32 5) 7 (replicate 20 0) [9]"
  using aead_branches_agree [of "replicate 32 5" "[1, 2, 3]" "replicate 20 0" 7 "[9]"] by simp

text \<open>
  The incremental interface keeps both ends in step. Reading a record with a 16 byte tag in a
  context returns a text and a next context exactly when writing that text in the same context
  produces the record, and the next context is the one the writer moves to.
\<close>

theorem aead_in_step:
  assumes "length mac = 16"
  shows "crypto_aead_read ctx mac ad c = (ctx', Some m) \<longleftrightarrow> crypto_aead_write ctx ad m = (ctx', c, mac)"
  using assms by (rule aead_read_iff)

theorem aead_in_step_witness:
  "let ctx = crypto_aead_init_djb (replicate 32 1) (replicate 8 2);
       (ctx', c, mac) = crypto_aead_write ctx [7] [3, 4]
   in length mac = 16 \<and> crypto_aead_read ctx mac [7] c = (ctx', Some [3, 4])"
proof -
  define ctx where "ctx = crypto_aead_init_djb (replicate 32 1) (replicate 8 2)"
  obtain ctx' c mac where w: "crypto_aead_write ctx [7] [3, 4] = (ctx', c, mac)" by (metis prod_cases3)
  have "length mac = 16" using w by (auto simp: crypto_aead_write_def Let_def lock_auth_spec djb_any_counter)
  with aead_in_step [of mac ctx "[7]" c ctx' "[3, 4]"] w show ?thesis by (simp add: ctx_def [symmetric])
qed

end
