(* ===== verification/Noise.thy ===== *)
theory Noise
  imports Platform Peers Aead
begin

text \<open>
  The handshake of \<open>src/wg_noise.c\<close>: building an initiation, answering one, completing with the
  response, for the single-peer session and for a peer of the table, and the cookie reply. Wiping
  of local variables has no effect in the model; the wiped parts of the state are set to zero.
\<close>

unbundle bit_operations_syntax

section \<open>Model\<close>

definition ascii :: "string \<Rightarrow> bytes" where
  "ascii s = map of_char s"

definition WG_CONSTRUCTION :: bytes where "WG_CONSTRUCTION = ascii ''Noise_IKpsk2_25519_ChaChaPoly_BLAKE2s''"
definition WG_IDENTIFIER :: bytes where "WG_IDENTIFIER = ascii ''WireGuard v1 zx2c4 Jason@zx2c4.com''"
definition WG_LABEL_MAC1 :: bytes where "WG_LABEL_MAC1 = ascii ''mac1----''"
definition WG_LABEL_COOKIE :: bytes where "WG_LABEL_COOKIE = ascii ''cookie--''"

definition wg_handshake_init_state :: "WgHandshakeState \<Rightarrow> bytes \<Rightarrow> WgHandshakeState" where
  "wg_handshake_init_state state pub =
     (let state = state\<lparr>chaining_key := wg_hash WG_CONSTRUCTION\<rparr>;
          state = state\<lparr>hs_hash := wg_hash2 (chaining_key state) WG_IDENTIFIER\<rparr>
      in wg_mix_hash state pub)"

definition wg_compute_mac1 :: "bytes \<Rightarrow> bytes \<Rightarrow> bytes" where
  "wg_compute_mac1 pub msg = wg_mac (wg_hash2 WG_LABEL_MAC1 pub) msg"

definition wg_xaead_decrypt :: "bytes \<Rightarrow> bytes \<Rightarrow> bytes \<Rightarrow> bytes \<Rightarrow> bytes option" where
  "wg_xaead_decrypt key nonce ciphertext ad =
     (if length ciphertext < WG_AEAD_TAG_LEN then None
      else
        (let plaintext_len = length ciphertext - WG_AEAD_TAG_LEN;
             mac = drop plaintext_len ciphertext
         in snd (crypto_aead_read (crypto_aead_init_x key nonce) mac ad (take plaintext_len ciphertext))))"

definition wg_process_cookie_reply :: "WgTunnel \<Rightarrow> WgCookieReply \<Rightarrow> world \<Rightarrow> WgError \<times> WgTunnel \<times> world" where
  "wg_process_cookie_reply tun msg w =
     (if ck_type msg \<noteq> WG_MSG_COOKIE_REPLY then (WG_ERR_HANDSHAKE, tun, w)
      else if ck_receiver_index msg \<noteq> local_index (session tun) then (WG_ERR_HANDSHAKE, tun, w)
      else
        (let cookie_key = wg_hash2 WG_LABEL_COOKIE (peer_public tun)
         in case wg_xaead_decrypt cookie_key (ck_nonce msg) (ck_encrypted_cookie msg) (last_mac1 tun) of
              None \<Rightarrow> (WG_ERR_DECRYPT, tun, w)
            | Some c \<Rightarrow>
                (let (now, w) = wg_time_now w
                 in (WG_OK, tun\<lparr>cookie := c, has_cookie := True, cookie_timestamp := now\<rparr>, w))))"

text \<open>Deriving into the chaining key, with no or one further key.\<close>

definition mix_kdf1 :: "WgHandshakeState \<Rightarrow> bytes \<Rightarrow> WgHandshakeState" where
  "mix_kdf1 state x = state\<lparr>chaining_key := wg_kdf1 (chaining_key state) x\<rparr>"

definition mix_kdf2 :: "WgHandshakeState \<Rightarrow> bytes \<Rightarrow> WgHandshakeState \<times> bytes" where
  "mix_kdf2 state x =
     (let (ck, key) = wg_kdf2 (chaining_key state) x in (state\<lparr>chaining_key := ck\<rparr>, key))"

subsection \<open>Initiation\<close>

text \<open>
  What both versions of the initiation do with the keys: the state and the message up to its first
  MAC. \<open>eph\<close> is the clamped ephemeral key, \<open>ts\<close> the timestamp.
\<close>

definition init_message ::
  "bytes \<Rightarrow> bytes \<Rightarrow> bytes \<Rightarrow> bytes \<Rightarrow> u32 \<Rightarrow> bytes \<Rightarrow> WgHandshakeState \<Rightarrow> WgHandshakeInit \<times> WgHandshakeState" where
  "init_message pub spriv spub eph idx ts state =
     (let state = wg_handshake_init_state state pub;
          state = state\<lparr>ephemeral_private := eph\<rparr>;
          e = crypto_x25519_public_key eph;
          state = wg_mix_hash state e;
          state = mix_kdf1 state e;
          (state, key) = mix_kdf2 state (crypto_x25519 eph pub);
          enc_static = wg_aead_encrypt key 0 spub (hs_hash state);
          state = wg_mix_hash state enc_static;
          (state, key) = mix_kdf2 state (crypto_x25519 spriv pub);
          enc_ts = wg_aead_encrypt key 0 ts (hs_hash state);
          state = wg_mix_hash state enc_ts;
          msg = \<lparr>hi_type = WG_MSG_HANDSHAKE_INIT, hi_reserved = [0, 0, 0], hi_sender_index = idx,
                 hi_ephemeral = e, hi_encrypted_static = enc_static, hi_encrypted_timestamp = enc_ts,
                 hi_mac1 = replicate 16 0, hi_mac2 = replicate 16 0\<rparr>;
          msg = msg\<lparr>hi_mac1 := wg_compute_mac1 pub (take (sizeof_init - 2 * WG_MAC_LEN) (init_bytes msg))\<rparr>
      in (msg, state))"

definition wg_handshake_init ::
  "WgTunnel \<Rightarrow> WgHandshakeState \<Rightarrow> world \<Rightarrow> WgError \<times> WgTunnel \<times> WgHandshakeInit \<times> WgHandshakeState \<times> world" where
  "wg_handshake_init tun state w =
     (let (eph, w) = randomGet 32 w;
          eph = clamp_key eph;
          (idx, w) = wg_random_index w;
          tun = tun\<lparr>session := (session tun)\<lparr>old_local_index := local_index (session tun),
                    local_index := idx, rekey_in_progress := True\<rparr>\<rparr>;
          ((secs, nsecs), w) = clock_realtime w;
          (msg, state) = init_message (peer_public tun) (static_private tun) (static_public tun) eph idx
                           (wg_timestamp secs nsecs) state;
          tun = tun\<lparr>last_mac1 := hi_mac1 msg\<rparr>;
          (now, w) = wg_time_now w;
          cookie_age_ns = now - cookie_timestamp tun
      in if has_cookie tun \<and> cookie_age_ns < WG_COOKIE_SECRET_MAX_AGE * NS
         then
           (WG_OK, tun,
            msg\<lparr>hi_mac2 := wg_mac (cookie tun) (take (sizeof_init - WG_MAC_LEN) (init_bytes msg))\<rparr>, state, w)
         else
           (let tun = (if has_cookie tun \<and> WG_COOKIE_SECRET_MAX_AGE * NS \<le> cookie_age_ns
                       then tun\<lparr>has_cookie := False, cookie := replicate WG_COOKIE_LEN 0\<rparr> else tun)
            in (WG_OK, tun, msg\<lparr>hi_mac2 := replicate 16 0\<rparr>, state, w)))"

text \<open>The same for the peer with index \<open>i\<close> of the table.\<close>

definition wg_handshake_init_peer ::
  "WgTunnel \<Rightarrow> nat \<Rightarrow> WgHandshakeState \<Rightarrow> world \<Rightarrow> WgError \<times> WgTunnel \<times> WgHandshakeInit \<times> WgHandshakeState \<times> world" where
  "wg_handshake_init_peer tun i state w =
     (let peer = peers tun ! i;
          (eph, w) = randomGet 32 w;
          eph = clamp_key eph;
          (idx, w) = wg_random_index w;
          peer = peer\<lparr>p_session := (p_session peer)\<lparr>old_local_index := local_index (p_session peer),
                      local_index := idx\<rparr>\<rparr>;
          ((secs, nsecs), w) = clock_realtime w;
          (msg, state) = init_message (public_key peer) (static_private tun) (static_public tun) eph idx
                           (wg_timestamp secs nsecs) state;
          peer = peer\<lparr>p_last_mac1 := hi_mac1 msg\<rparr>;
          tun = set_peer tun i peer;
          (now, w) = wg_time_now w;
          cookie_age_ns = now - cookie_timestamp tun
      in if has_cookie tun \<and> cookie_age_ns < WG_COOKIE_SECRET_MAX_AGE * NS
         then
           (WG_OK, tun,
            msg\<lparr>hi_mac2 := wg_mac (cookie tun) (take (sizeof_init - WG_MAC_LEN) (init_bytes msg))\<rparr>, state, w)
         else (WG_OK, tun, msg\<lparr>hi_mac2 := replicate 16 0\<rparr>, state, w))"

subsection \<open>Answer\<close>

text \<open>Reading an initiation with the responder's static key: its state and the initiator's key.\<close>

definition consume_init ::
  "bytes \<Rightarrow> bytes \<Rightarrow> WgHandshakeInit \<Rightarrow> WgHandshakeState \<Rightarrow> (WgHandshakeState \<times> bytes) option" where
  "consume_init spriv spub msg state =
     (let state = wg_handshake_init_state state spub;
          state = wg_mix_hash state (hi_ephemeral msg);
          state = mix_kdf1 state (hi_ephemeral msg);
          (state, key) = mix_kdf2 state (crypto_x25519 spriv (hi_ephemeral msg))
      in case wg_aead_decrypt key 0 (hi_encrypted_static msg) (hs_hash state) of
           None \<Rightarrow> None
         | Some decrypted_static \<Rightarrow>
             (let state = wg_mix_hash state (hi_encrypted_static msg);
                  (state, key) = mix_kdf2 state (crypto_x25519 spriv decrypted_static)
              in case wg_aead_decrypt key 0 (hi_encrypted_timestamp msg) (hs_hash state) of
                   None \<Rightarrow> None
                 | Some decrypted_timestamp \<Rightarrow>
                     Some (wg_mix_hash state (hi_encrypted_timestamp msg), decrypted_static)))"

text \<open>
  The tokens of the response, on either side: the responder's ephemeral key, the two shared
  secrets and the pre-shared key. The result is the state and the key of the empty payload.
\<close>

definition response_mix :: "WgHandshakeState \<Rightarrow> bytes \<Rightarrow> bytes \<Rightarrow> bytes \<Rightarrow> bytes \<Rightarrow> WgHandshakeState \<times> bytes" where
  "response_mix state e dh1 dh2 psk =
     (let state = wg_mix_hash state e;
          state = mix_kdf1 state e;
          state = mix_kdf1 state dh1;
          state = mix_kdf1 state dh2;
          (ck, psk_temp, key) = wg_kdf3 (chaining_key state) psk;
          state = state\<lparr>chaining_key := ck\<rparr>;
          state = wg_mix_hash state psk_temp
      in (state, key))"

definition tunnel_psk :: "WgTunnel \<Rightarrow> bytes" where
  "tunnel_psk tun = (if has_psk tun then preshared_key tun else replicate 32 0)"

definition response_message ::
  "bytes \<Rightarrow> u32 \<Rightarrow> WgHandshakeInit \<Rightarrow> bytes \<Rightarrow> bytes \<Rightarrow> WgHandshakeState \<Rightarrow> WgHandshakeResponse \<times> WgHandshakeState" where
  "response_message eph idx msg peer_static psk state =
     (let e = crypto_x25519_public_key eph;
          (state, key) = response_mix state e (crypto_x25519 eph (hi_ephemeral msg))
                           (crypto_x25519 eph peer_static) psk;
          nothing = wg_aead_encrypt key 0 [] (hs_hash state);
          state = wg_mix_hash state nothing;
          response = \<lparr>hr_type = WG_MSG_HANDSHAKE_RESPONSE, hr_reserved = [0, 0, 0], hr_sender_index = idx,
                      hr_receiver_index = hi_sender_index msg, hr_ephemeral = e, hr_encrypted_nothing = nothing,
                      hr_mac1 = replicate 16 0, hr_mac2 = replicate 16 0\<rparr>;
          response = response\<lparr>hr_mac1 := wg_compute_mac1 peer_static
                       (take (sizeof_response - 2 * WG_MAC_LEN) (response_bytes response))\<rparr>
      in (response, state))"

text \<open>The session a responder starts: the second derived key is the sending key.\<close>

definition responder_session :: "WgSession \<Rightarrow> bytes \<Rightarrow> u32 \<Rightarrow> u32 \<Rightarrow> u64 \<Rightarrow> WgSession" where
  "responder_session sess ck mine theirs now =
     (let (rk, sk) = wg_kdf2 ck []
      in sess\<lparr>receiving_key := rk, sending_key := sk, sending_counter := 0, receiving_counter := 0,
              local_index := mine, remote_index := theirs, last_handshake := now, valid := True,
              rekey_in_progress := False, replay := replay_init\<rparr>)"

text \<open>The session of a peer of the table, or the tunnel's own; a valid one is kept as the previous.\<close>

definition start_peer_session :: "WgTunnel \<Rightarrow> nat \<Rightarrow> bytes \<Rightarrow> u32 \<Rightarrow> u32 \<Rightarrow> u64 \<Rightarrow> bytes \<Rightarrow> WgTunnel" where
  "start_peer_session tun i ck mine theirs now mac1 =
     (let p = peers tun ! i;
          p = (if valid (p_session p) then p\<lparr>p_prev_session := p_session p\<rparr> else p);
          p = p\<lparr>p_session := responder_session (p_session p) ck mine theirs now,
                connected := True, p_last_mac1 := mac1\<rparr>
      in set_peer tun i p)"

definition start_own_session :: "WgTunnel \<Rightarrow> bytes \<Rightarrow> u32 \<Rightarrow> u32 \<Rightarrow> u64 \<Rightarrow> WgTunnel" where
  "start_own_session tun ck mine theirs now =
     (let tun = (if valid (session tun) then tun\<lparr>prev_session := session tun\<rparr> else tun)
      in tun\<lparr>session := responder_session (session tun) ck mine theirs now\<rparr>)"

text \<open>Building and sending the response once the initiation has been read.\<close>

definition answer_init ::
  "WgTunnel \<Rightarrow> WgHandshakeInit \<Rightarrow> WgHandshakeState \<Rightarrow> bytes \<Rightarrow> world \<Rightarrow> WgTunnel \<times> world" where
  "answer_init tun msg state decrypted_static w =
     (let peer = wg_find_peer_by_public_key (Some tun) decrypted_static;
          tun = (case peer of None \<Rightarrow> tun\<lparr>peer_public := decrypted_static\<rparr> | Some i \<Rightarrow> tun);
          (idx, w) = wg_random_index w;
          (eph, w) = randomGet 32 w;
          eph = clamp_key eph;
          (response, state) = response_message eph idx msg decrypted_static (tunnel_psk tun) state;
          tun = tun\<lparr>last_mac1 := hr_mac1 response\<rparr>;
          (now, w) = wg_time_now w
      in case peer of
           Some i \<Rightarrow>
             (let tun = start_peer_session tun i (chaining_key state) idx (hi_sender_index msg) now (hr_mac1 response);
                  (r, w) = wg_socket_send_to tun (Some (relay_hash (peers tun ! i))) (response_bytes response) w
              in (tun, w))
         | None \<Rightarrow>
             (let tun = start_own_session tun (chaining_key state) idx (hi_sender_index msg) now;
                  (r, w) = wg_socket_send tun (response_bytes response) w
              in (tun, w)))"

definition wg_handshake_init_process :: "WgTunnel \<Rightarrow> WgHandshakeInit \<Rightarrow> world \<Rightarrow> WgError \<times> WgTunnel \<times> world" where
  "wg_handshake_init_process tun msg w =
     (if hi_type msg \<noteq> WG_MSG_HANDSHAKE_INIT then (WG_ERR_HANDSHAKE, tun, w)
      else if wg_compute_mac1 (static_public tun) (take (sizeof_init - 2 * WG_MAC_LEN) (init_bytes msg)) \<noteq> hi_mac1 msg
      then (WG_ERR_HANDSHAKE, tun, w)
      else
        (let tun = tun\<lparr>last_mac1 := hi_mac1 msg\<rparr>
         in case consume_init (static_private tun) (static_public tun) msg zero_hs of
              None \<Rightarrow> (WG_ERR_DECRYPT, tun, w)
            | Some (state, decrypted_static) \<Rightarrow>
                (let (tun, w) = answer_init tun msg state decrypted_static w in (WG_OK, tun, w))))"

subsection \<open>Completion\<close>

text \<open>
  The part of the completion that both versions share: the state after the tokens, and whether the
  empty payload opens.
\<close>

definition consume_response ::
  "WgTunnel \<Rightarrow> WgHandshakeResponse \<Rightarrow> WgHandshakeState \<Rightarrow> WgHandshakeState \<times> bool" where
  "consume_response tun msg state =
     (let (state, key) = response_mix state (hr_ephemeral msg)
            (crypto_x25519 (ephemeral_private state) (hr_ephemeral msg))
            (crypto_x25519 (static_private tun) (hr_ephemeral msg)) (tunnel_psk tun)
      in case wg_aead_decrypt key 0 (hr_encrypted_nothing msg) (hs_hash state) of
           None \<Rightarrow> (state, False)
         | Some decrypted \<Rightarrow> (wg_mix_hash state (hr_encrypted_nothing msg), True))"

definition wg_handshake_response ::
  "WgTunnel \<Rightarrow> WgHandshakeResponse \<Rightarrow> WgHandshakeState \<Rightarrow> world \<Rightarrow> WgError \<times> WgTunnel \<times> WgHandshakeState \<times> world" where
  "wg_handshake_response tun msg state w =
     (if hr_type msg \<noteq> WG_MSG_HANDSHAKE_RESPONSE then (WG_ERR_HANDSHAKE, tun, state, w)
      else if hr_receiver_index msg \<noteq> local_index (session tun) then (WG_ERR_HANDSHAKE, tun, state, w)
      else
        (let tun = tun\<lparr>session := (session tun)\<lparr>remote_index := hr_sender_index msg\<rparr>\<rparr>;
             (state, opened) = consume_response tun msg state
         in if \<not> opened then (WG_ERR_DECRYPT, tun, state, w)
            else
              (let tun = (if valid (session tun)
                          then tun\<lparr>prev_session := (session tun)\<lparr>local_index := old_local_index (session tun)\<rparr>\<rparr>
                          else tun);
                   (sk, rk) = wg_kdf2 (chaining_key state) [];
                   (now, w) = wg_time_now w;
                   tun = tun\<lparr>session := (session tun)\<lparr>sending_key := sk, receiving_key := rk, sending_counter := 0,
                             receiving_counter := 0, last_handshake := now, valid := True, replay := replay_init,
                             rekey_in_progress := False\<rparr>\<rparr>
               in (WG_OK, tun, zero_hs, w))))"

definition wg_handshake_init_process_response ::
  "WgTunnel \<Rightarrow> nat \<Rightarrow> WgHandshakeResponse \<Rightarrow> world \<Rightarrow> WgError \<times> WgTunnel \<times> world" where
  "wg_handshake_init_process_response tun i msg w =
     (let peer = peers tun ! i
      in if hr_type msg \<noteq> WG_MSG_HANDSHAKE_RESPONSE then (WG_ERR_HANDSHAKE, tun, w)
         else if hr_receiver_index msg \<noteq> local_index (p_session peer) then (WG_ERR_HANDSHAKE, tun, w)
         else
           (let peer = peer\<lparr>p_session := (p_session peer)\<lparr>remote_index := hr_sender_index msg\<rparr>\<rparr>;
                (state, opened) = consume_response tun msg (pending_hs peer);
                peer = peer\<lparr>pending_hs := state\<rparr>
            in if \<not> opened then (WG_ERR_DECRYPT, set_peer tun i peer, w)
               else
                 (let (sk, rk) = wg_kdf2 (chaining_key state) [];
                      (now, w) = wg_time_now w;
                      peer = peer\<lparr>p_session := (p_session peer)\<lparr>sending_key := sk, receiving_key := rk,
                               sending_counter := 0, receiving_counter := 0, last_handshake := now, valid := True,
                               replay := replay_init\<rparr>, hs_pending := False, pending_hs := zero_hs\<rparr>
                  in (WG_OK, set_peer tun i peer, w))))"

section \<open>Lengths\<close>

lemma x25519_length [simp, bytes_len]: "length (crypto_x25519 k u) = 32"
  by (simp add: crypto_x25519_def scalarmult_def fe_tobytes_def tobytes_pack_def Let_def split: prod.splits)

lemma x25519_public_length [simp, bytes_len]: "length (crypto_x25519_public_key k) = 32"
  by (simp add: crypto_x25519_public_key_def)

lemma aead_encrypt_length [simp, bytes_len]: "length (wg_aead_encrypt k c m ad) = length m + 16"
  by (simp add: wg_aead_encrypt_def wg_chacha20_neon_available_def neon_encrypt_spec)

lemma mac1_length [simp, bytes_len]: "length (wg_compute_mac1 pub m) = 16"
  by (simp add: wg_compute_mac1_def)

section \<open>Agreement\<close>

text \<open>Two private keys whose holders compute the same shared secret.\<close>

definition dh_agree :: "bytes \<Rightarrow> bytes \<Rightarrow> bool" where
  "dh_agree x y \<longleftrightarrow> crypto_x25519 x (crypto_x25519_public_key y) = crypto_x25519 y (crypto_x25519_public_key x)"

text \<open>Both sides' states agree when hash and chaining key do.\<close>

definition hs_agree :: "WgHandshakeState \<Rightarrow> WgHandshakeState \<Rightarrow> bool" where
  "hs_agree s t \<longleftrightarrow> hs_hash s = hs_hash t \<and> chaining_key s = chaining_key t"

lemma hs_agree_mix:
  assumes "hs_agree s t"
  shows "hs_agree (wg_mix_hash s x) (wg_mix_hash t x)" and "hs_agree (mix_kdf1 s x) (mix_kdf1 t x)"
    and "hs_agree (fst (mix_kdf2 s x)) (fst (mix_kdf2 t x))" and "snd (mix_kdf2 s x) = snd (mix_kdf2 t x)"
    and "hs_hash s = hs_hash t" and "chaining_key s = chaining_key t"
  using assms by (simp_all add: hs_agree_def wg_mix_hash_def mix_kdf1_def mix_kdf2_def split_def Let_def)

lemma hs_agree_init: "hs_agree (wg_handshake_init_state s pub) (wg_handshake_init_state t pub)"
  by (simp add: hs_agree_def wg_handshake_init_state_def wg_mix_hash_def Let_def)

lemma hs_agree_ephemeral [simp]: "hs_agree (s\<lparr>ephemeral_private := e\<rparr>) t \<longleftrightarrow> hs_agree s t"
  by (simp add: hs_agree_def)

lemma ephemeral_kept:
  "ephemeral_private (wg_mix_hash s x) = ephemeral_private s" "ephemeral_private (mix_kdf1 s x) = ephemeral_private s"
  "ephemeral_private (fst (mix_kdf2 s x)) = ephemeral_private s"
  "ephemeral_private (wg_handshake_init_state s x) = ephemeral_private s"
  by (simp_all add: wg_mix_hash_def mix_kdf1_def mix_kdf2_def wg_handshake_init_state_def split_def Let_def)

lemma mix_kdf2_split: "(case mix_kdf2 s x of (s', k) \<Rightarrow> f s' k) = f (fst (mix_kdf2 s x)) (snd (mix_kdf2 s x))"
  by (simp add: split_def)

text \<open>The initiation opens for the holder of the key it was made for.\<close>

lemma init_message_ok:
  assumes "init_message pub spriv spub eph idx ts s = (msg, st)" and "length spub = 32" and "length ts = 12"
  shows "init_ok msg" and "hi_type msg = WG_MSG_HANDSHAKE_INIT" and "hi_sender_index msg = idx"
    and "hi_mac1 msg = wg_compute_mac1 pub (take 116 (init_bytes msg))" and "ephemeral_private st = eph"
    and "hi_ephemeral msg = crypto_x25519_public_key eph"
  using assms
  by (auto simp: init_message_def Let_def mix_kdf2_split init_ok_def init_bytes_def wg_consts ephemeral_kept)

lemma consume_init_message:
  assumes "init_message pub spriv spub eph idx ts s = (msg, st)"
    and "pub = crypto_x25519_public_key b" and "spub = crypto_x25519_public_key spriv"
    and "dh_agree eph b" and "dh_agree spriv b"
  shows "\<exists>t. consume_init b pub msg z = Some (t, spub) \<and> hs_agree st t"
proof -
  let ?e = "crypto_x25519_public_key eph"
  have d: "crypto_x25519 b ?e = crypto_x25519 eph pub" "crypto_x25519 b spub = crypto_x25519 spriv pub"
    using assms(2-) by (simp_all add: dh_agree_def)
  define i where "i = (wg_handshake_init_state s pub)\<lparr>ephemeral_private := eph\<rparr>"
  define j where "j = wg_handshake_init_state z pub"
  define k where "k = mix_kdf1 (wg_mix_hash i ?e) ?e"
  define l where "l = mix_kdf1 (wg_mix_hash j ?e) ?e"
  have "hs_agree i j" using hs_agree_init by (simp add: i_def j_def)
  then have kl: "hs_agree k l" unfolding k_def l_def by (intro hs_agree_mix)
  let ?k1 = "mix_kdf2 k (crypto_x25519 eph pub)" and ?l1 = "mix_kdf2 l (crypto_x25519 eph pub)"
  have k1: "hs_agree (fst ?k1) (fst ?l1)" "snd ?k1 = snd ?l1" by (rule hs_agree_mix [OF kl])+
  let ?es = "wg_aead_encrypt (snd ?k1) 0 spub (hs_hash (fst ?k1))"
  let ?k2 = "mix_kdf2 (wg_mix_hash (fst ?k1) ?es) (crypto_x25519 spriv pub)"
  let ?l2 = "mix_kdf2 (wg_mix_hash (fst ?l1) ?es) (crypto_x25519 spriv pub)"
  have k2: "hs_agree (fst ?k2) (fst ?l2)" "snd ?k2 = snd ?l2"
    by (rule hs_agree_mix [OF hs_agree_mix(1) [OF k1(1)]])+
  let ?et = "wg_aead_encrypt (snd ?k2) 0 ts (hs_hash (fst ?k2))"
  have m: "hi_ephemeral msg = ?e" "hi_encrypted_static msg = ?es" "hi_encrypted_timestamp msg = ?et"
    "st = wg_mix_hash (fst ?k2) ?et"
    using assms(1) by (auto simp: init_message_def Let_def mix_kdf2_split i_def k_def)
  have "wg_aead_decrypt (snd ?l1) 0 ?es (hs_hash (fst ?l1)) = Some spub"
    using k1 hs_agree_mix(5) [OF k1(1)] by (simp add: aead_decrypt_iff)
  moreover have "wg_aead_decrypt (snd ?l2) 0 ?et (hs_hash (fst ?l2)) = Some ts"
    using k2 hs_agree_mix(5) [OF k2(1)] by (simp add: aead_decrypt_iff)
  ultimately have "consume_init b pub msg z = Some (wg_mix_hash (fst ?l2) ?et, spub)"
    unfolding consume_init_def Let_def m(1-3) mix_kdf2_split d j_def [symmetric] l_def [symmetric] by (simp add: d mix_kdf2_split)
  then show ?thesis using hs_agree_mix(1) [OF k2(1)] m(4) by blast
qed

text \<open>The response opens for the initiator, and both chaining keys are then equal.\<close>

lemma response_mix_agree:
  assumes "hs_agree s t"
  shows "hs_agree (fst (response_mix s e d1 d2 psk)) (fst (response_mix t e d1 d2 psk))"
    and "snd (response_mix s e d1 d2 psk) = snd (response_mix t e d1 d2 psk)"
  using assms
  by (simp_all add: hs_agree_def response_mix_def wg_mix_hash_def mix_kdf1_def split_def Let_def)

lemma response_message_ok:
  assumes "response_message eph idx msg ps psk t = (resp, t')"
  shows "response_ok resp" and "hr_type resp = WG_MSG_HANDSHAKE_RESPONSE" and "hr_sender_index resp = idx"
    and "hr_receiver_index resp = hi_sender_index msg"
  using assms by (auto simp: response_message_def Let_def response_ok_def split_def)

lemma consume_response_message:
  assumes "response_message eph idx msg ps (tunnel_psk A) t = (resp, t')" and "hs_agree s t"
    and "hi_ephemeral msg = crypto_x25519_public_key (ephemeral_private s)"
    and "ps = crypto_x25519_public_key (static_private A)"
    and "dh_agree eph (ephemeral_private s)" and "dh_agree eph (static_private A)"
  shows "\<exists>s'. consume_response A resp s = (s', True) \<and> hs_agree s' t'"
proof -
  let ?e = "crypto_x25519_public_key eph"
  let ?d1 = "crypto_x25519 eph (hi_ephemeral msg)" and ?d2 = "crypto_x25519 eph ps"
  have d: "crypto_x25519 (ephemeral_private s) ?e = ?d1" "crypto_x25519 (static_private A) ?e = ?d2"
    using assms(3-) by (simp_all add: dh_agree_def)
  let ?m = "response_mix s ?e ?d1 ?d2 (tunnel_psk A)" and ?n = "response_mix t ?e ?d1 ?d2 (tunnel_psk A)"
  have mn: "hs_agree (fst ?m) (fst ?n)" "snd ?m = snd ?n" by (rule response_mix_agree [OF assms(2)])+
  let ?no = "wg_aead_encrypt (snd ?n) 0 [] (hs_hash (fst ?n))"
  have r: "hr_ephemeral resp = ?e" "hr_encrypted_nothing resp = ?no" "t' = wg_mix_hash (fst ?n) ?no"
    using assms(1) by (auto simp: response_message_def Let_def split_def)
  have "wg_aead_decrypt (snd ?m) 0 ?no (hs_hash (fst ?m)) = Some []"
    using mn hs_agree_mix(5) [OF mn(1)] by (simp add: aead_decrypt_iff)
  then have "consume_response A resp s = (wg_mix_hash (fst ?m) ?no, True)"
    unfolding consume_response_def r(1,2) d by (simp add: split_def)
  then show ?thesis using hs_agree_mix(1) [OF mn(1)] r(3) by blast
qed

text \<open>What the three handlers do in a run.\<close>

lemma init_shape:
  assumes "wg_handshake_init A s w = (err, A1, msg, st, w1)"
  shows "\<exists>idx ts m0 x. init_message (peer_public A) (static_private A) (static_public A)
      (clamp_key (fst (randomGet 32 w))) idx ts s = (m0, st) \<and>
    err = WG_OK \<and> msg = m0\<lparr>hi_mac2 := x\<rparr> \<and> length x = 16 \<and> length ts = 12 \<and>
    local_index (session A1) = idx \<and> static_private A1 = static_private A \<and> tunnel_psk A1 = tunnel_psk A \<and>
    valid (session A1) = valid (session A) \<and> last_mac1 A1 = hi_mac1 msg"
proof -
  let ?eph = "clamp_key (fst (randomGet 32 w))"
  let ?i = "wg_random_index (snd (randomGet 32 w))"
  let ?c = "clock_realtime (snd ?i)"
  let ?ts = "wg_timestamp (fst (fst ?c)) (snd (fst ?c))"
  obtain m0 st0 where im: "init_message (peer_public A) (static_private A) (static_public A) ?eph (fst ?i) ?ts s = (m0, st0)"
    by fastforce
  have mac2: "hi_mac1 (m0\<lparr>hi_mac2 := x\<rparr>) = hi_mac1 m0" for x by simp
  show ?thesis
    using assms im unfolding wg_handshake_init_def Let_def split_def
    by (intro exI [of _ "fst ?i"] exI [of _ ?ts] exI [of _ m0] exI [of _ "hi_mac2 msg"])
      (auto simp: tunnel_psk_def wg_consts split: if_splits)
qed

lemma consume_init_mac2 [simp]: "consume_init b pub (m\<lparr>hi_mac2 := x\<rparr>) z = consume_init b pub m z"
  by (simp add: consume_init_def split_def Let_def cong: option.case_cong)

lemma take_init_mac2: "init_ok m \<Longrightarrow> take 116 (init_bytes (m\<lparr>hi_mac2 := x\<rparr>)) = take 116 (init_bytes m)"
  by (simp add: init_ok_def init_bytes_def)

text \<open>The session an answer starts.\<close>

definition answered_session :: "WgTunnel \<Rightarrow> bytes \<Rightarrow> WgTunnel \<Rightarrow> WgSession" where
  "answered_session B ps B1 =
     (case wg_find_peer_by_public_key (Some B) ps of None \<Rightarrow> session B1 | Some i \<Rightarrow> p_session (peers B1 ! i))"

lemma answer_shape:
  assumes "answer_init B msg t ps u = (B1, u1)" and "relay_send u" and "table_ok B"
  shows "\<exists>idx resp t' hash now old.
    response_message (clamp_key (fst (randomGet 32 (snd (wg_random_index u))))) idx msg ps (tunnel_psk B) t = (resp, t') \<and>
    sent_log u1 = sent_log u @ [ToRelay hash (response_bytes resp)] \<and>
    answered_session B ps B1 = responder_session old (chaining_key t') idx (hi_sender_index msg) now"
proof -
  let ?i = "wg_random_index u"
  let ?w = "snd (wg_time_now (snd (randomGet 32 (snd ?i))))" and ?now = "fst (wg_time_now (snd (randomGet 32 (snd ?i))))"
  obtain resp t' where rm: "response_message (clamp_key (fst (randomGet 32 (snd ?i)))) (fst ?i) msg ps (tunnel_psk B) t = (resp, t')"
    by fastforce
  have p: "tunnel_psk (B\<lparr>peer_public := y\<rparr>) = tunnel_psk B" for y by (simp add: tunnel_psk_def)
  have w: "relay_send ?w" "sent_log ?w = sent_log u"
    using assms(2) by (simp_all add: wg_random_index_def wg_random_u32_def randomGet_def wg_time_now_def split_def Let_def)
  note unf = answer_init_def Let_def split_def p wg_socket_send_def wg_socket_send_to_def rm w answered_session_def
  show ?thesis
  proof (cases "wg_find_peer_by_public_key (Some B) ps")
    case None
    have "session B1 = responder_session (session B) (chaining_key t') (fst ?i) (hi_sender_index msg) ?now"
      "sent_log u1 = sent_log u @ [ToRelay None (response_bytes resp)]"
      using assms(1) None by (auto simp: unf start_own_session_def)
    then show ?thesis using None rm
      by (intro exI [of _ "fst ?i"] exI [of _ resp] exI [of _ t'] exI [of _ None] exI [of _ ?now] exI [of _ "session B"])
        (simp add: answered_session_def)
  next
    case (Some i)
    have "i < length (peers B)" using by_key.lookup_bound [OF assms(3) Some] .
    then have "p_session (peers B1 ! i) = responder_session (p_session (peers B ! i)) (chaining_key t') (fst ?i) (hi_sender_index msg) ?now"
      "sent_log u1 = sent_log u @ [ToRelay (Some (relay_hash (peers B1 ! i))) (response_bytes resp)]"
      using assms(1) Some by (auto simp: unf start_peer_session_def set_peer_def)
    then show ?thesis using Some rm
      by (intro exI [of _ "fst ?i"] exI [of _ resp] exI [of _ t'] exI [of _ "Some (relay_hash (peers B1 ! i))"]
            exI [of _ ?now] exI [of _ "p_session (peers B ! i)"])
        (simp add: answered_session_def)
  qed
qed

lemma process_shape:
  assumes "hi_type msg = WG_MSG_HANDSHAKE_INIT"
    and "hi_mac1 msg = wg_compute_mac1 (static_public B) (take 116 (init_bytes msg))"
    and "consume_init (static_private B) (static_public B) msg zero_hs = Some (t, ps)"
    and "wg_handshake_init_process B msg u = (err, B1, u1)"
  shows "err = WG_OK \<and> answer_init (B\<lparr>last_mac1 := hi_mac1 msg\<rparr>) msg t ps u = (B1, u1)"
  using assms by (auto simp: wg_handshake_init_process_def wg_consts split_def Let_def)

lemma complete_shape:
  assumes "hr_type r = WG_MSG_HANDSHAKE_RESPONSE" and "hr_receiver_index r = local_index (session A)"
    and "consume_response A r st = (s', True)"
    and "wg_handshake_response A r st w = (err, A2, st', w')"
  shows "err = WG_OK \<and> st' = zero_hs \<and> valid (session A2) \<and>
    (sending_key (session A2), receiving_key (session A2)) = wg_kdf2 (chaining_key s') [] \<and>
    local_index (session A2) = local_index (session A) \<and> remote_index (session A2) = hr_sender_index r \<and>
    sending_counter (session A2) = 0 \<and> replay (session A2) = replay_init \<and> \<not> rekey_in_progress (session A2)"
proof -
  have c: "consume_response (A\<lparr>session := x\<rparr>) r st = consume_response A r st" for x
    by (simp add: consume_response_def tunnel_psk_def)
  show ?thesis using assms
    by (cases "valid (session A)") (auto simp: wg_handshake_response_def c split_def Let_def)
qed

text \<open>Two sessions that belong together and have not been used.\<close>

definition paired :: "WgSession \<Rightarrow> WgSession \<Rightarrow> bool" where
  "paired s t \<longleftrightarrow> valid s \<and> valid t \<and> sending_key s = receiving_key t \<and> receiving_key s = sending_key t \<and>
     local_index s = remote_index t \<and> remote_index s = local_index t \<and>
     sending_counter s = 0 \<and> sending_counter t = 0 \<and> replay s = replay_init \<and> replay t = replay_init"

lemma initiation_read:
  assumes A: "static_public A = crypto_x25519_public_key (static_private A)"
    "peer_public A = crypto_x25519_public_key (static_private B)"
    and B: "static_public B = crypto_x25519_public_key (static_private B)"
    and dh: "dh_agree e (static_private B)" "dh_agree (static_private A) (static_private B)"
    and e: "e = clamp_key (fst (randomGet 32 w))"
    and init: "wg_handshake_init A s w = (err1, A1, msg, st, w1)"
    and answer: "wg_handshake_init_process B (init_of_bytes (init_bytes msg @ junk)) u = (err2, B1, u1)"
  shows "err1 = WG_OK \<and> err2 = WG_OK \<and> hi_ephemeral msg = crypto_x25519_public_key e \<and> ephemeral_private st = e \<and>
    hi_sender_index msg = local_index (session A1) \<and> static_private A1 = static_private A \<and> tunnel_psk A1 = tunnel_psk A \<and>
    (\<exists>t. hs_agree st t \<and> answer_init (B\<lparr>last_mac1 := hi_mac1 msg\<rparr>) msg t (static_public A) u = (B1, u1))"
proof -
  from init_shape [OF init] obtain idx ts m0 x where im: "init_message (peer_public A) (static_private A) (static_public A) e idx ts s = (m0, st)"
      and m: "err1 = WG_OK" "msg = m0\<lparr>hi_mac2 := x\<rparr>" "length x = 16" "length ts = 12"
      and A1: "local_index (session A1) = idx" "static_private A1 = static_private A" "tunnel_psk A1 = tunnel_psk A"
    unfolding e by blast
  have "length (static_public A) = 32" using A(1) by simp
  note ok = init_message_ok [OF im this m(4)]
  have "init_ok msg" using ok(1) m(2,3) by (simp add: init_ok_def)
  then have read: "init_of_bytes (init_bytes msg @ junk) = msg" by (rule init_read_back)
  have mac: "hi_mac1 msg = wg_compute_mac1 (static_public B) (take 116 (init_bytes msg))"
    using ok(4) take_init_mac2 [OF ok(1)] A(2) B(1) m(2) by simp
  obtain t where t: "consume_init (static_private B) (static_public B) msg zero_hs = Some (t, static_public A)" "hs_agree st t"
    using consume_init_message [OF im A(2,1) dh(1,2), of zero_hs] A(2) B(1) m(2) by auto
  have ty: "hi_type msg = WG_MSG_HANDSHAKE_INIT" "hi_sender_index msg = idx" "hi_ephemeral msg = crypto_x25519_public_key e"
    using ok m(2) by simp_all
  from process_shape [OF ty(1) mac t(1)] answer
  have "err2 = WG_OK" "answer_init (B\<lparr>last_mac1 := hi_mac1 msg\<rparr>) msg t (static_public A) u = (B1, u1)"
    unfolding read by blast+
  then show ?thesis using m(1) ty A1 ok(5) t(2) by auto
qed

text \<open>The three messages of a handshake, with the keys of both sides; the sessions they end with are paired.\<close>

lemma handshake_pairs:
  assumes A: "static_public A = crypto_x25519_public_key (static_private A)"
    "peer_public A = crypto_x25519_public_key (static_private B)"
    and B: "static_public B = crypto_x25519_public_key (static_private B)" "table_ok B"
    and psk: "tunnel_psk A = tunnel_psk B" and relay: "relay_send u"
    and dh: "dh_agree e (static_private B)" "dh_agree (static_private A) (static_private B)"
      "dh_agree r e" "dh_agree r (static_private A)"
    and e: "e = clamp_key (fst (randomGet 32 w))" and r: "r = clamp_key (fst (randomGet 32 (snd (wg_random_index u))))"
    and init: "wg_handshake_init A s w = (err1, A1, msg, st, w1)"
    and answer: "wg_handshake_init_process B (init_of_bytes (init_bytes msg @ junk)) u = (err2, B1, u1)"
  shows "err1 = WG_OK \<and> err2 = WG_OK \<and>
    (\<exists>hash resp. sent_log u1 = sent_log u @ [ToRelay hash (response_bytes resp)] \<and> response_ok resp \<and>
       (\<forall>w2 err3 A2 st' w3. wg_handshake_response A1 resp st w2 = (err3, A2, st', w3) \<longrightarrow>
          err3 = WG_OK \<and> paired (session A2) (answered_session B (static_public A) B1)))"
proof -
  from initiation_read [OF A B(1) dh(1,2) e init answer] obtain t where ok: "err1 = WG_OK" "err2 = WG_OK"
      and m: "hi_ephemeral msg = crypto_x25519_public_key e" "ephemeral_private st = e" "hi_sender_index msg = local_index (session A1)"
      and A1: "static_private A1 = static_private A" "tunnel_psk A1 = tunnel_psk A"
      and t: "hs_agree st t" "answer_init (B\<lparr>last_mac1 := hi_mac1 msg\<rparr>) msg t (static_public A) u = (B1, u1)" by blast
  have B': "table_ok (B\<lparr>last_mac1 := y\<rparr>)" "tunnel_psk (B\<lparr>last_mac1 := y\<rparr>) = tunnel_psk B"
    "answered_session (B\<lparr>last_mac1 := y\<rparr>) ps B1 = answered_session B ps B1" for y ps
    using B(2) by (simp_all add: table_ok_def tunnel_psk_def answered_session_def wg_find_peer_by_public_key_def)
  from answer_shape [OF t(2) relay B'(1)] obtain j resp t' hash now old where
    rm: "response_message r j msg (static_public A) (tunnel_psk B) t = (resp, t')"
    and log: "sent_log u1 = sent_log u @ [ToRelay hash (response_bytes resp)]"
    and sess: "answered_session B (static_public A) B1 = responder_session old (chaining_key t') j (hi_sender_index msg) now"
    unfolding B' r by blast
  note rok = response_message_ok [OF rm]
  have "tunnel_psk B = tunnel_psk A1" using psk A1(2) by simp
  from rm [unfolded this] consume_response_message [of r j msg "static_public A" A1 t resp t' st] t(1) m A(1) dh(3,4) A1(1)
  obtain s' where c: "consume_response A1 resp st = (s', True)" "hs_agree s' t'" by auto
  have recv: "hr_receiver_index resp = local_index (session A1)" using rok(4) m(3) by simp
  have "err3 = WG_OK \<and> paired (session A2) (answered_session B (static_public A) B1)"
    if "wg_handshake_response A1 resp st w2 = (err3, A2, st', w3)" for w2 err3 A2 st' w3
    using complete_shape [OF rok(2) recv c(1) that] hs_agree_mix(6) [OF c(2)] rok(3) m(3)
    unfolding sess responder_session_def split_def paired_def Let_def by (auto simp: prod_eq_iff)
  then show ?thesis using ok log rok(1) by blast
qed

section \<open>What an initiation is\<close>

text \<open>
  The first message of the Noise pattern \<open>IKpsk2\<close> as the protocol describes it, over the hash of RFC 7693
  and the derivation of RFC 5869: with the keys the responder can derive from its own static key, the message carries
  the static key \<open>S\<close> and the timestamp \<open>T\<close>.
\<close>

definition noise_hash :: "bytes \<Rightarrow> bytes" where
  "noise_hash x = blake2s_spec 32 x []"

definition noise_kdf :: "nat \<Rightarrow> bytes \<Rightarrow> bytes \<Rightarrow> bytes" where
  "noise_kdf i ck x = hkdf_t (hkdf_extract ck x) i"

definition sealed_init :: "bytes \<Rightarrow> bytes \<Rightarrow> WgHandshakeInit \<Rightarrow> bytes \<Rightarrow> bytes \<Rightarrow> bool" where
  "sealed_init priv pub msg S T \<longleftrightarrow>
     (let E = hi_ephemeral msg;
          c0 = noise_hash (ascii ''Noise_IKpsk2_25519_ChaChaPoly_BLAKE2s'');
          h0 = noise_hash (c0 @ ascii ''WireGuard v1 zx2c4 Jason@zx2c4.com'');
          h1 = noise_hash (h0 @ pub);
          h2 = noise_hash (h1 @ E);
          c1 = noise_kdf 1 c0 E;
          c2 = noise_kdf 1 c1 (crypto_x25519 priv E);
          k1 = noise_kdf 2 c1 (crypto_x25519 priv E);
          h3 = noise_hash (h2 @ hi_encrypted_static msg);
          k2 = noise_kdf 2 c2 (crypto_x25519 priv S)
      in hi_encrypted_static msg = wg_aead_encrypt k1 0 S h2 \<and>
         hi_encrypted_timestamp msg = wg_aead_encrypt k2 0 T h3)"

definition sealed_mac1 :: "bytes \<Rightarrow> WgHandshakeInit \<Rightarrow> bool" where
  "sealed_mac1 pub msg \<longleftrightarrow>
     hi_mac1 msg = blake2s_spec 16 (take 116 (init_bytes msg)) (noise_hash (ascii ''mac1----'' @ pub))"

lemma noise_hash_code: "wg_hash x = noise_hash x" "wg_hash2 x y = noise_hash (x @ y)"
  by (simp_all add: noise_hash_def wg_hash_spec wg_hash2_spec)

lemma noise_kdf_code:
  "length ck \<le> 64 \<Longrightarrow> wg_kdf1 ck x = noise_kdf 1 ck x"
  "length ck \<le> 64 \<Longrightarrow> wg_kdf2 ck x = (noise_kdf 1 ck x, noise_kdf 2 ck x)"
  using kdf_hkdf [of ck x] by (simp_all add: noise_kdf_def Let_def)

lemma noise_length [simp]: "length (noise_hash x) = 32" "length ck \<le> 64 \<Longrightarrow> length (noise_kdf (Suc 0) ck x) = 32"
  using wg_hash_length [of x] wg_kdf1_length [of ck x] by (simp_all add: noise_hash_code noise_kdf_code)

lemma sealed_mac1_code:
  "sealed_mac1 pub msg \<longleftrightarrow> hi_mac1 msg = wg_compute_mac1 pub (take 116 (init_bytes msg))"
  by (simp add: sealed_mac1_def wg_compute_mac1_def wg_mac_spec noise_hash_code WG_LABEL_MAC1_def)

text \<open>The responder's state when it opens the static key, and the key it opens the timestamp with.\<close>

lemma mix_code:
  "hs_hash (wg_mix_hash s x) = noise_hash (hs_hash s @ x)" "chaining_key (wg_mix_hash s x) = chaining_key s"
  "hs_hash (mix_kdf1 s x) = hs_hash s" "hs_hash (fst (mix_kdf2 s x)) = hs_hash s"
  "length (chaining_key s) = 32 \<Longrightarrow> chaining_key (mix_kdf1 s x) = noise_kdf 1 (chaining_key s) x"
  "length (chaining_key s) = 32 \<Longrightarrow> chaining_key (fst (mix_kdf2 s x)) = noise_kdf 1 (chaining_key s) x"
  "length (chaining_key s) = 32 \<Longrightarrow> snd (mix_kdf2 s x) = noise_kdf 2 (chaining_key s) x"
  "hs_hash (wg_handshake_init_state s pub) = noise_hash (noise_hash (noise_hash WG_CONSTRUCTION @ WG_IDENTIFIER) @ pub)"
  "chaining_key (wg_handshake_init_state s pub) = noise_hash WG_CONSTRUCTION"
  by (simp_all add: wg_mix_hash_def mix_kdf1_def mix_kdf2_def wg_handshake_init_state_def noise_hash_code noise_kdf_code split_def Let_def)

lemma consume_init_sealed:
  "(\<exists>st. consume_init priv pub msg z = Some (st, S)) \<longleftrightarrow> (\<exists>T. sealed_init priv pub msg S T)"
proof -
  let ?E = "hi_ephemeral msg"
  let ?s = "fst (mix_kdf2 (mix_kdf1 (wg_mix_hash (wg_handshake_init_state z pub) ?E) ?E) (crypto_x25519 priv ?E))"
    and ?k = "snd (mix_kdf2 (mix_kdf1 (wg_mix_hash (wg_handshake_init_state z pub) ?E) ?E) (crypto_x25519 priv ?E))"
  let ?t = "wg_mix_hash ?s (hi_encrypted_static msg)"
  let ?l = "\<lambda>S. snd (mix_kdf2 ?t (crypto_x25519 priv S))"
  have c: "(\<exists>st. consume_init priv pub msg z = Some (st, S)) \<longleftrightarrow>
      wg_aead_decrypt ?k 0 (hi_encrypted_static msg) (hs_hash ?s) = Some S \<and>
      (\<exists>T. wg_aead_decrypt (?l S) 0 (hi_encrypted_timestamp msg) (hs_hash (fst (mix_kdf2 ?t (crypto_x25519 priv S)))) = Some T)"
    unfolding consume_init_def Let_def mix_kdf2_split
    by (cases "wg_aead_decrypt ?k 0 (hi_encrypted_static msg) (hs_hash ?s)")
      (auto simp only: option.case option.simps prod.inject split: option.splits)
  show ?thesis
    unfolding c aead_decrypt_iff sealed_init_def Let_def WG_CONSTRUCTION_def [symmetric] WG_IDENTIFIER_def [symmetric]
    by (simp add: mix_code)
qed

section \<open>Properties\<close>

text \<open>
  C2: The handshake. An initiator that knows the responder's public key sends an initiation; the responder
  reads it and answers; the initiator completes with the answer. If the four Diffie-Hellman pairs
  agree and both sides have the same pre-shared key, then both succeed, each side's sending key is
  the other's receiving key, each side's local index is the other's remote index, and counters and replay windows are
  fresh, whether the responder knows the peer or not.
\<close>

theorem handshake_agrees:
  assumes A: "static_public A = crypto_x25519_public_key (static_private A)"
    "peer_public A = crypto_x25519_public_key (static_private B)"
    and B: "static_public B = crypto_x25519_public_key (static_private B)" "table_ok B"
    and psk: "tunnel_psk A = tunnel_psk B" and relay: "relay_send u"
    and dh: "dh_agree e (static_private B)" "dh_agree (static_private A) (static_private B)"
      "dh_agree r e" "dh_agree r (static_private A)"
    and e: "e = clamp_key (fst (randomGet 32 w))" and r: "r = clamp_key (fst (randomGet 32 (snd (wg_random_index u))))"
    and init: "wg_handshake_init A s w = (err1, A1, msg, st, w1)"
    and answer: "wg_handshake_init_process B (init_of_bytes (init_bytes msg @ junk)) u = (err2, B1, u1)"
  shows "err1 = WG_OK \<and> err2 = WG_OK \<and>
    (\<exists>hash packet. sent_log u1 = sent_log u @ [ToRelay hash packet] \<and>
       (\<forall>junk w2. let (err3, A2, st', w3) = wg_handshake_response A1 (response_of_bytes (packet @ junk)) st w2;
                     sA = session A2; sB = answered_session B (static_public A) B1
         in err3 = WG_OK \<and> valid sA \<and> valid sB \<and>
            sending_key sA = receiving_key sB \<and> receiving_key sA = sending_key sB \<and>
            local_index sA = remote_index sB \<and> remote_index sA = local_index sB \<and>
            sending_counter sA = 0 \<and> sending_counter sB = 0 \<and> replay sA = replay_init \<and> replay sB = replay_init))"
proof -
  from handshake_pairs [OF assms] obtain hash resp where ok: "err1 = WG_OK" "err2 = WG_OK" "response_ok resp"
      and l: "sent_log u1 = sent_log u @ [ToRelay hash (response_bytes resp)]"
      and p: "\<And>w2 err3 A2 st' w3. wg_handshake_response A1 resp st w2 = (err3, A2, st', w3) \<Longrightarrow>
        err3 = WG_OK \<and> paired (session A2) (answered_session B (static_public A) B1)" by blast
  show ?thesis
    unfolding l using ok p by (auto simp: response_read_back Let_def paired_def split: prod.splits)
qed

theorem handshake_agrees_witness:
  "let k = clamp_key (replicate 32 0);
       A = zero_tunnel\<lparr>static_private := k, static_public := crypto_x25519_public_key k,
             peer_public := crypto_x25519_public_key k\<rparr>;
       (err1, A1, msg, st, w1) = wg_handshake_init A zero_hs quiet_world;
       (err2, B1, u1) = wg_handshake_init_process A (init_of_bytes (init_bytes msg @ [])) quiet_world
   in err1 = WG_OK \<and> err2 = WG_OK \<and>
      (\<exists>hash packet. sent_log u1 = [ToRelay hash packet] \<and>
         (let (err3, A2, st', w3) = wg_handshake_response A1 (response_of_bytes (packet @ [])) st quiet_world;
              sA = session A2; sB = answered_session A (static_public A) B1
          in err3 = WG_OK \<and> valid sA \<and> valid sB \<and>
             sending_key sA = receiving_key sB \<and> receiving_key sA = sending_key sB \<and>
             local_index sA = remote_index sB \<and> remote_index sA = local_index sB))"
proof -
  define k where "k = clamp_key (replicate 32 0)"
  define A where "A = zero_tunnel\<lparr>static_private := k, static_public := crypto_x25519_public_key k,
    peer_public := crypto_x25519_public_key k\<rparr>"
  obtain err1 A1 msg st w1 where i: "wg_handshake_init A zero_hs quiet_world = (err1, A1, msg, st, w1)"
    by (metis prod_cases5)
  obtain err2 B1 u1 where a: "wg_handshake_init_process A (init_of_bytes (init_bytes msg @ [])) quiet_world = (err2, B1, u1)"
    by (metis prod_cases3)
  have rnd: "fst (randomGet 32 quiet_world) = replicate 32 0"
    "fst (randomGet 32 (snd (wg_random_index quiet_world))) = replicate 32 0"
    by (simp_all add: randomGet_def quiet_world_def wg_random_index_def wg_random_u32_def map_replicate_const)
  have h: "static_public A = crypto_x25519_public_key (static_private A)"
      "peer_public A = crypto_x25519_public_key (static_private A)" "table_ok A" "relay_send quiet_world"
      "static_private A = k" "dh_agree k k" "sent_log quiet_world = []"
    by (simp_all add: A_def table_ok_def zero_tunnel_def quiet_world_def dh_agree_def)
  from handshake_agrees [OF h(1,2,1,3) refl h(4), of k k quiet_world zero_hs err1 A1 msg st w1 "[]" err2 B1 u1] i a h
  obtain hash packet where ok: "err1 = WG_OK" "err2 = WG_OK" "sent_log u1 = [ToRelay hash packet]"
    and run: "\<forall>junk w2. let (err3, A2, st', w3) = wg_handshake_response A1 (response_of_bytes (packet @ junk)) st w2;
            sA = session A2; sB = answered_session A (static_public A) B1
         in err3 = WG_OK \<and> valid sA \<and> valid sB \<and>
            sending_key sA = receiving_key sB \<and> receiving_key sA = sending_key sB \<and>
            local_index sA = remote_index sB \<and> remote_index sA = local_index sB \<and>
            sending_counter sA = 0 \<and> sending_counter sB = 0 \<and> replay sA = replay_init \<and> replay sB = replay_init"
    unfolding rnd k_def [symmetric] by auto
  have "wg_handshake_init_process A (init_of_bytes (init_bytes msg)) quiet_world = (err2, B1, u1)" using a by simp
  with ok run [rule_format, of "[]" quiet_world] show ?thesis
    unfolding Let_def k_def [symmetric] A_def [symmetric] i by (auto simp: Let_def)
qed

text \<open>
  C26: A refused initiation. The responder accepts exactly the messages of type 1 whose first MAC is the keyed
  BLAKE2s of the message under the hash of its public key, and whose two ciphertexts are, for some static key and some
  timestamp, the encryptions under the keys and hashes of the Noise transcript: the transcript is written out over
  RFC 7693 and RFC 5869. With every other message it draws no random numbers, sends nothing and leaves every session
  as it was: it stores the MAC if that was right, and changes nothing else.
\<close>

theorem init_refused:
  assumes "wg_handshake_init_process tun msg w = (err, tun', w')"
  shows "(err = WG_OK \<longleftrightarrow> hi_type msg = 1 \<and> sealed_mac1 (static_public tun) msg \<and>
      (\<exists>S T. sealed_init (static_private tun) (static_public tun) msg S T)) \<and>
    (err \<noteq> WG_OK \<longrightarrow> w' = w \<and>
      tun' = (if hi_type msg = 1 \<and> sealed_mac1 (static_public tun) msg then tun\<lparr>last_mac1 := hi_mac1 msg\<rparr> else tun))"
proof -
  let ?c = "consume_init (static_private tun) (static_public tun) msg zero_hs"
  have c: "?c = None \<longleftrightarrow> \<not> (\<exists>S T. sealed_init (static_private tun) (static_public tun) msg S T)"
    unfolding consume_init_sealed [where z = zero_hs, symmetric] by (metis not_Some_eq option.distinct(1) surj_pair)
  show ?thesis
  proof (cases "hi_type msg = 1 \<and> sealed_mac1 (static_public tun) msg")
    case early: False
    then have "wg_handshake_init_process tun msg w = (WG_ERR_HANDSHAKE, tun, w)"
      by (auto simp: wg_handshake_init_process_def sealed_mac1_code wg_consts sizeof_init_def)
    then have "err = WG_ERR_HANDSHAKE" "tun' = tun" "w' = w" using assms by simp_all
    then show ?thesis unfolding if_not_P [OF early] using early by blast
  next
    case late: True
    then have ok: "hi_type msg = WG_MSG_HANDSHAKE_INIT"
      "hi_mac1 msg = wg_compute_mac1 (static_public tun) (take 116 (init_bytes msg))"
      by (simp_all add: sealed_mac1_code wg_consts)
    show ?thesis
    proof (cases ?c)
      case None
      then have "wg_handshake_init_process tun msg w = (WG_ERR_DECRYPT, tun\<lparr>last_mac1 := hi_mac1 msg\<rparr>, w)"
        using ok by (simp add: wg_handshake_init_process_def wg_consts sizeof_init_def)
      then have "err = WG_ERR_DECRYPT" "tun' = tun\<lparr>last_mac1 := hi_mac1 msg\<rparr>" "w' = w" using assms by simp_all
      then show ?thesis unfolding if_P [OF late] using late c None by blast
    next
      case (Some r)
      then obtain st S where "?c = Some (st, S)" by (cases r) simp
      from process_shape [OF ok this assms] have "err = WG_OK" by blast
      moreover have "\<exists>S T. sealed_init (static_private tun) (static_public tun) msg S T" using c Some by force
      ultimately show ?thesis using late by blast
    qed
  qed
qed

theorem init_refused_witness:
  "let k = clamp_key (replicate 32 0);
       A = zero_tunnel\<lparr>static_private := k, static_public := crypto_x25519_public_key k,
             peer_public := crypto_x25519_public_key k\<rparr>;
       (_, _, msg, _, _) = wg_handshake_init A zero_hs quiet_world;
       (err, tun', w') = wg_handshake_init_process A (msg\<lparr>hi_type := 2\<rparr>) quiet_world
   in err \<noteq> WG_OK \<and> w' = quiet_world \<and> tun' = A \<and> fst (wg_handshake_init_process A msg quiet_world) = WG_OK \<and>
      (\<exists>S T. sealed_init k (crypto_x25519_public_key k) msg S T)"
proof -
  define k where "k = clamp_key (replicate 32 0)"
  define A where "A = zero_tunnel\<lparr>static_private := k, static_public := crypto_x25519_public_key k,
    peer_public := crypto_x25519_public_key k\<rparr>"
  obtain err1 A1 msg st w1 where i: "wg_handshake_init A zero_hs quiet_world = (err1, A1, msg, st, w1)"
    by (metis prod_cases5)
  obtain err tun' w' where a: "wg_handshake_init_process A (msg\<lparr>hi_type := 2\<rparr>) quiet_world = (err, tun', w')"
    by (metis prod_cases3)
  obtain err2 B1 u1 where b: "wg_handshake_init_process A msg quiet_world = (err2, B1, u1)" by (metis prod_cases3)
  have r: "err \<noteq> WG_OK" "w' = quiet_world" "tun' = A" using init_refused [OF a] by auto
  have h: "static_public A = crypto_x25519_public_key (static_private A)"
      "peer_public A = crypto_x25519_public_key (static_private A)" "static_private A = k"
      "static_public A = crypto_x25519_public_key k" "dh_agree k k" "k = clamp_key (fst (randomGet 32 quiet_world))"
    by (simp_all add: A_def dh_agree_def k_def randomGet_def quiet_world_def map_replicate_const)
  obtain err3 B2 u2 where c: "wg_handshake_init_process A (init_of_bytes (init_bytes msg @ [])) quiet_world = (err3, B2, u2)"
    by (metis prod_cases3)
  from init_shape [OF i] obtain idx ts m0 x where m: "init_message (peer_public A) (static_private A) (static_public A)
      (clamp_key (fst (randomGet 32 quiet_world))) idx ts zero_hs = (m0, st)" "msg = m0\<lparr>hi_mac2 := x\<rparr>" "length x = 16" "length ts = 12"
    by blast
  have "init_ok m0" using init_message_ok [OF m(1) _ m(4)] h by simp
  then have "init_ok msg" using m(2,3) by (simp add: init_ok_def)
  then have "init_of_bytes (init_bytes msg @ []) = msg" by (rule init_read_back)
  moreover have "err3 = WG_OK"
    using initiation_read [OF h(1,2,1) _ _ h(6) i c] h by simp
  ultimately have "err2 = WG_OK" using b c by simp
  then show ?thesis using init_refused [OF b] r h
    unfolding k_def [symmetric] A_def [symmetric] Let_def i by (simp add: a b)
qed

text \<open>
  C35: A response that does not authenticate. It is refused with \<open>WG_ERR_DECRYPT\<close>, and keys,
  counters, validity and the previous session stay as they were; but the remote index of the
  running session has already been replaced by the index the message claims, so that whoever
  knows the receiver index can redirect what the session sends from then on.
\<close>

theorem response_unauthenticated:
  assumes "hr_type msg = WG_MSG_HANDSHAKE_RESPONSE" and "hr_receiver_index msg = local_index (session tun)"
    and "\<not> snd (consume_response tun msg state)"
  shows "\<exists>state'. wg_handshake_response tun msg state w =
    (WG_ERR_DECRYPT, tun\<lparr>session := (session tun)\<lparr>remote_index := hr_sender_index msg\<rparr>\<rparr>, state', w)"
proof -
  have c: "consume_response (tun\<lparr>session := x\<rparr>) msg state = consume_response tun msg state" for x
    by (simp add: consume_response_def tunnel_psk_def)
  show ?thesis using assms by (simp add: wg_handshake_response_def c split_def Let_def)
qed

theorem response_unauthenticated_witness:
  "let msg = \<lparr>hr_type = 2, hr_reserved = [0, 0, 0], hr_sender_index = 99, hr_receiver_index = 0,
               hr_ephemeral = replicate 32 9, hr_encrypted_nothing = [], hr_mac1 = replicate 16 0, hr_mac2 = replicate 16 0\<rparr>
   in \<not> snd (consume_response zero_tunnel msg zero_hs) \<and>
      (\<exists>state'. wg_handshake_response zero_tunnel msg zero_hs quiet_world =
         (WG_ERR_DECRYPT, zero_tunnel\<lparr>session := zero_session\<lparr>remote_index := 99\<rparr>\<rparr>, state', quiet_world))"
proof -
  define msg where "msg = \<lparr>hr_type = 2, hr_reserved = [0, 0, 0], hr_sender_index = 99, hr_receiver_index = 0,
    hr_ephemeral = replicate 32 9, hr_encrypted_nothing = [], hr_mac1 = replicate 16 0, hr_mac2 = replicate 16 0\<rparr>"
  have n: "\<not> snd (consume_response zero_tunnel msg zero_hs)"
    by (simp add: consume_response_def msg_def wg_aead_decrypt_def WG_AEAD_TAG_LEN_def split_def)
  have "hr_type msg = WG_MSG_HANDSHAKE_RESPONSE" "hr_receiver_index msg = local_index (session zero_tunnel)"
    by (simp_all add: msg_def wg_consts zero_tunnel_def zero_session_def)
  from response_unauthenticated [OF this n, of quiet_world] n show ?thesis
    unfolding msg_def [symmetric] Let_def by (simp add: zero_tunnel_def) (simp add: msg_def)
qed

text \<open>
  C27: Cookie replies. A reply for the current session is accepted exactly when it is the
  encryption of the cookie under the key of the peer, bound to the MAC last sent; the cookie is
  then stored with its time, and in every other case the tunnel does not change.
\<close>

theorem cookie_reply_exact:
  assumes "wg_process_cookie_reply tun msg w = (err, tun', w')" and "length (ck_encrypted_cookie msg) = 32"
  defines "sealed \<equiv> (\<lambda>c. \<exists>ct mac. ck_encrypted_cookie msg = ct @ mac \<and>
    crypto_aead_lock (wg_hash2 WG_LABEL_COOKIE (peer_public tun)) (ck_nonce msg) (last_mac1 tun) c = (ct, mac))"
  shows "if ck_type msg = WG_MSG_COOKIE_REPLY \<and> ck_receiver_index msg = local_index (session tun) \<and> (\<exists>c. sealed c)
    then err = WG_OK \<and>
      (\<exists>c. sealed c \<and> tun' = tun\<lparr>cookie := c, has_cookie := True, cookie_timestamp := fst (wg_time_now w)\<rparr>)
    else err \<noteq> WG_OK \<and> tun' = tun \<and> w' = w"
proof -
  let ?k = "wg_hash2 WG_LABEL_COOKIE (peer_public tun)" and ?e = "ck_encrypted_cookie msg"
  have x: "wg_xaead_decrypt ?k (ck_nonce msg) ?e (last_mac1 tun) = Some c \<longleftrightarrow>
      crypto_aead_lock ?k (ck_nonce msg) (last_mac1 tun) c = (take 16 ?e, drop 16 ?e)" for c
    using assms(2) aead_read_iff [of "drop 16 ?e" "crypto_aead_init_x ?k (ck_nonce msg)" "last_mac1 tun" "take 16 ?e"]
    by (fastforce simp: wg_xaead_decrypt_def crypto_aead_lock_def WG_AEAD_TAG_LEN_def prod_eq_iff)
  have len: "crypto_aead_lock ?k (ck_nonce msg) (last_mac1 tun) c = (ct, mac) \<Longrightarrow> length mac = 16" for c ct mac
    by (auto simp: crypto_aead_lock_def crypto_aead_write_def Let_def lock_auth_spec djb_any_counter)
  have split: "ct = take 16 ?e \<and> mac = drop 16 ?e" if "?e = ct @ mac" "length mac = 16" for ct mac
    using that assms(2) by (auto simp: append_eq_conv_conj)
  show ?thesis
  proof (cases "ck_type msg = WG_MSG_COOKIE_REPLY \<and> ck_receiver_index msg = local_index (session tun)")
    case False
    then have "wg_process_cookie_reply tun msg w = (WG_ERR_HANDSHAKE, tun, w)"
      by (auto simp: wg_process_cookie_reply_def)
    then have "err = WG_ERR_HANDSHAKE" "tun' = tun" "w' = w" using assms(1) by simp_all
    then show ?thesis using False by (subst if_not_P) (blast, simp)
  next
    case True
    show ?thesis
    proof (cases "wg_xaead_decrypt ?k (ck_nonce msg) ?e (last_mac1 tun)")
      case None
      then have "\<nexists>c. sealed c" unfolding sealed_def using x len split by (metis option.distinct(1))
      moreover have "err = WG_ERR_DECRYPT" "tun' = tun" "w' = w"
        using True None assms(1) by (simp_all add: wg_process_cookie_reply_def)
      ultimately show ?thesis by (subst if_not_P) (blast, simp)
    next
      case (Some c)
      then have l: "crypto_aead_lock ?k (ck_nonce msg) (last_mac1 tun) c = (take 16 ?e, drop 16 ?e)" using x by blast
      moreover have "?e = take 16 ?e @ drop 16 ?e" by simp
      ultimately have "sealed c" unfolding sealed_def by blast
      moreover have "err = WG_OK" and "tun' = tun\<lparr>cookie := c, has_cookie := True, cookie_timestamp := fst (wg_time_now w)\<rparr>"
        using True Some assms(1) by (simp_all add: wg_process_cookie_reply_def split_def Let_def prod_eq_iff)
      ultimately show ?thesis using True by (subst if_P) blast+
    qed
  qed
qed

theorem cookie_reply_exact_witness:
  "let (ct, mac) = crypto_aead_lock (wg_hash2 WG_LABEL_COOKIE (peer_public zero_tunnel)) (replicate 24 3)
         (last_mac1 zero_tunnel) (replicate 16 7);
       msg = \<lparr>ck_type = 3, ck_reserved = [0, 0, 0], ck_receiver_index = 0, ck_nonce = replicate 24 3,
              ck_encrypted_cookie = ct @ mac\<rparr>;
       (err, tun', w') = wg_process_cookie_reply zero_tunnel msg quiet_world
   in length (ct @ mac) = 32 \<and> err = WG_OK \<and> has_cookie tun'"
proof -
  let ?k = "wg_hash2 WG_LABEL_COOKIE (peer_public zero_tunnel)"
  obtain ct mac where l: "crypto_aead_lock ?k (replicate 24 3) (last_mac1 zero_tunnel) (replicate 16 7) = (ct, mac)"
    by fastforce
  define msg where "msg = \<lparr>ck_type = 3, ck_reserved = [0, 0, 0], ck_receiver_index = 0, ck_nonce = replicate 24 3,
    ck_encrypted_cookie = ct @ mac\<rparr>"
  obtain err tun' w' where p: "wg_process_cookie_reply zero_tunnel msg quiet_world = (err, tun', w')" by (metis prod_cases3)
  have len: "length (ct @ mac) = 32"
    using l djb_length [of "replicate 16 7"]
    by (auto simp: crypto_aead_lock_def crypto_aead_write_def Let_def lock_auth_spec djb_any_counter)
  have m: "ck_type msg = WG_MSG_COOKIE_REPLY" "ck_receiver_index msg = local_index (session zero_tunnel)"
    "ck_nonce msg = replicate 24 3" "ck_encrypted_cookie msg = ct @ mac"
    by (simp_all add: msg_def wg_consts zero_tunnel_def zero_session_def)
  have "err = WG_OK \<and> has_cookie tun'"
    using cookie_reply_exact [OF p] len l m by (auto split: if_splits)
  then show ?thesis unfolding l Let_def split msg_def [symmetric] p using len by simp
qed

end
