(* ===== verification/Transport.thy ===== *)
theory Transport
  imports Noise
begin

text \<open>
  Data packets of \<open>src/wireguard.c\<close>: sending over the tunnel's own session or to a peer of the
  table, keepalives, the age checks and the blocking receive. The send buffer is the one of the
  tunnel; the sections under \<open>send_mutex\<close> are single steps.
\<close>

section \<open>Model\<close>

definition wg_session_expired :: "WgTunnel \<Rightarrow> world \<Rightarrow> bool \<times> world" where
  "wg_session_expired tun w =
     (if \<not> valid (session tun) then (False, w)
      else
        (let (now, w) = wg_time_now w;
             elapsed = now - last_handshake (session tun)
         in (WG_REJECT_AFTER_TIME * NS \<le> elapsed \<or>
             WG_REJECT_AFTER_MESSAGES \<le> sending_counter (session tun), w)))"

definition wg_needs_rekey :: "WgTunnel \<Rightarrow> world \<Rightarrow> bool \<times> world" where
  "wg_needs_rekey tun w =
     (if \<not> valid (session tun) then (False, w)
      else if rekey_in_progress (session tun) then (False, w)
      else
        (let (now, w) = wg_time_now w;
             elapsed = now - last_handshake (session tun)
         in if WG_REKEY_AFTER_TIME * NS \<le> elapsed then (True, w)
            else if WG_REKEY_AFTER_MESSAGES \<le> sending_counter (session tun) then (True, w)
            else (False, w)))"

text \<open>The packet every sender builds from a session, and the session after \<open>sending_counter++\<close>.\<close>

definition transport_packet :: "WgSession \<Rightarrow> bytes \<Rightarrow> bytes" where
  "transport_packet sess data =
     transport_bytes
       \<lparr>tr_type = WG_MSG_TRANSPORT, tr_reserved = [0, 0, 0], tr_receiver_index = remote_index sess,
        tr_counter = sending_counter sess,
        tr_encrypted_data = wg_aead_encrypt (sending_key sess) (sending_counter sess) data []\<rparr>"

definition count_sent :: "WgSession \<Rightarrow> WgSession" where
  "count_sent sess = sess\<lparr>sending_counter := sending_counter sess + 1\<rparr>"

text \<open>
  A length is that of a buffer in memory, so the size of the packet does not wrap around.
\<close>

definition wg_send :: "WgTunnel option \<Rightarrow> bytes \<Rightarrow> world \<Rightarrow> (WgError + nat) \<times> WgTunnel option \<times> world" where
  "wg_send t data w =
     (case t of
        None \<Rightarrow> (Inl WG_ERR_NOT_CONNECTED, None, w)
      | Some tun \<Rightarrow>
          if \<not> valid (session tun) then (Inl WG_ERR_NOT_CONNECTED, Some tun, w)
          else
            (let (expired, w) = wg_session_expired tun w
             in if expired then (Inl WG_ERR_NOT_CONNECTED, Some tun, w)
                else
                  (let packet_size = sizeof_transport + length data + WG_AEAD_TAG_LEN
                   in if WG_MAX_PACKET_SIZE < packet_size then (Inl WG_ERR_BUFFER_TOO_SMALL, Some tun, w)
                      else
                        (let tun = tun\<lparr>send_buffer := memcpy_at (send_buffer tun) 0 (transport_packet (session tun) data),
                                       session := count_sent (session tun)\<rparr>;
                             (sent, w) = wg_socket_send tun (take packet_size (send_buffer tun)) w;
                             (tun, w) = (if 0 \<le> sent then let (now, w) = wg_time_now w in (tun\<lparr>last_sent := now\<rparr>, w)
                                         else (tun, w))
                         in (if sent < 0 then Inl WG_ERR_SOCKET else Inr (length data), Some tun, w)))))"

definition wg_send_to_peer ::
  "WgTunnel option \<Rightarrow> nat option \<Rightarrow> bytes \<Rightarrow> world \<Rightarrow> (WgError + nat) \<times> WgTunnel option \<times> world" where
  "wg_send_to_peer t peer data w =
     (case (t, peer) of
        (Some tun, Some i) \<Rightarrow>
          (let p = peers tun ! i
           in if \<not> connected p \<or> \<not> valid (p_session p) then (Inl WG_ERR_NOT_CONNECTED, Some tun, w)
              else
                (let packet_size = sizeof_transport + length data + WG_AEAD_TAG_LEN
                 in if WG_MAX_PACKET_SIZE < packet_size then (Inl WG_ERR_BUFFER_TOO_SMALL, Some tun, w)
                    else
                      (let tun = tun\<lparr>send_buffer := memcpy_at (send_buffer tun) 0 (transport_packet (p_session p) data)\<rparr>;
                           p = p\<lparr>p_session := count_sent (p_session p)\<rparr>;
                           (sent, w) = wg_socket_send_to tun (Some (relay_hash p)) (take packet_size (send_buffer tun)) w;
                           (p, w) = (if 0 \<le> sent then let (now, w) = wg_time_now w in (p\<lparr>p_last_sent := now\<rparr>, w)
                                     else (p, w))
                       in (if sent < 0 then Inl WG_ERR_SOCKET else Inr (length data), Some (set_peer tun i p), w))))
      | _ \<Rightarrow> (Inl WG_ERR_NOT_CONNECTED, t, w))"

definition wg_send_keepalive_to_peer :: "WgTunnel \<Rightarrow> nat \<Rightarrow> world \<Rightarrow> WgTunnel \<times> world" where
  "wg_send_keepalive_to_peer tun i w =
     (let p = peers tun ! i;
          keepalive = transport_packet (p_session p) [];
          p = p\<lparr>p_session := count_sent (p_session p)\<rparr>;
          (sent, w) = wg_socket_send_to tun (Some (relay_hash p)) keepalive w;
          (now, w) = wg_time_now w
      in (set_peer tun i (p\<lparr>p_last_sent := now\<rparr>), w))"

definition wg_send_keepalive :: "WgTunnel \<Rightarrow> world \<Rightarrow> WgTunnel \<times> world" where
  "wg_send_keepalive tun w =
     (let keepalive = transport_packet (session tun) [];
          tun = tun\<lparr>session := count_sent (session tun)\<rparr>;
          (sent, w) = wg_socket_send tun keepalive w;
          (now, w) = wg_time_now w
      in (tun\<lparr>last_sent := now\<rparr>, w))"

text \<open>
  The blocking receive into a buffer \<open>buf\<close> of \<open>len\<close> bytes. The local packet buffer is not
  initialised by the code; only the bytes received are read from it. \<open>None\<close> as in
  \<open>wg_socket_recv\<close>.
\<close>

definition wg_recv ::
  "WgTunnel option \<Rightarrow> bytes \<Rightarrow> nat \<Rightarrow> int \<Rightarrow> world \<Rightarrow> ((WgError + nat) \<times> bytes \<times> WgTunnel option \<times> world) option" where
  "wg_recv t buf len timeout_ms w =
     (case t of
        None \<Rightarrow> Some (Inl WG_ERR_NOT_CONNECTED, buf, None, w)
      | Some tun \<Rightarrow>
          if \<not> valid (session tun) then Some (Inl WG_ERR_NOT_CONNECTED, buf, Some tun, w)
          else
            (case wg_socket_recv tun (replicate WG_MAX_PACKET_SIZE 0) WG_MAX_PACKET_SIZE timeout_ms w of
               None \<Rightarrow> None
             | Some (Inl e, packet, tun, w) \<Rightarrow> Some (Inl e, buf, Some tun, w)
             | Some (Inr received, packet, tun, w) \<Rightarrow>
                 if received < sizeof_transport + WG_AEAD_TAG_LEN then Some (Inl WG_ERR_DECRYPT, buf, Some tun, w)
                 else
                   (let transport = transport_of_bytes (take received packet);
                        sess = session tun;
                        ciphertext_len = received - sizeof_transport;
                        plaintext_len = ciphertext_len - WG_AEAD_TAG_LEN
                    in if tr_type transport \<noteq> WG_MSG_TRANSPORT then Some (Inl WG_ERR_DECRYPT, buf, Some tun, w)
                       else if tr_receiver_index transport \<noteq> local_index sess then Some (Inl WG_ERR_DECRYPT, buf, Some tun, w)
                       else if len < plaintext_len then Some (Inl WG_ERR_BUFFER_TOO_SMALL, buf, Some tun, w)
                       else if plaintext_len = 0
                       then
                         (let (now, w) = wg_time_now w
                          in Some (Inr 0, buf, Some (tun\<lparr>session := sess\<lparr>last_received := now\<rparr>\<rparr>), w))
                       else
                         (case wg_aead_decrypt (receiving_key sess) (tr_counter transport) (tr_encrypted_data transport) [] of
                            None \<Rightarrow> Some (Inl WG_ERR_DECRYPT, buf, Some tun, w)
                          | Some plaintext \<Rightarrow>
                              (let buf = memcpy_at buf 0 plaintext;
                                   (fresh, rc) = wg_counter_validate (replay sess) (tr_counter transport);
                                   sess = sess\<lparr>replay := rc\<rparr>
                               in if \<not> fresh then Some (Inl WG_ERR_DECRYPT, buf, Some (tun\<lparr>session := sess\<rparr>), w)
                                  else
                                    (let (now, w) = wg_time_now w;
                                         sess = sess\<lparr>last_received := now, receiving_counter := tr_counter transport + 1\<rparr>
                                     in Some (Inr plaintext_len, buf, Some (tun\<lparr>session := sess\<rparr>), w)))))))"

definition wg_get_ip :: "WgTunnel option \<Rightarrow> bool \<Rightarrow> WgError + u32" where
  "wg_get_ip t has_addr =
     (case t of None \<Rightarrow> Inl WG_ERR_INVALID_CONFIG
      | Some tun \<Rightarrow> if \<not> has_addr then Inl WG_ERR_INVALID_CONFIG else Inr (tunnel_ip tun))"

definition wg_get_session_index :: "WgTunnel option \<Rightarrow> u32" where
  "wg_get_session_index t =
     (case t of None \<Rightarrow> 0 | Some tun \<Rightarrow> if \<not> valid (session tun) then 0 else local_index (session tun))"

definition wg_canary_check :: "WgTunnel option \<Rightarrow> int" where
  "wg_canary_check t =
     (case t of None \<Rightarrow> 1
      | Some tun \<Rightarrow>
          if canary_begin tun \<noteq> WG_CANARY_MAGIC then 0
          else if canary_end tun \<noteq> WG_CANARY_MAGIC then 0 else 1)"

definition wg_set_recv_callback :: "WgTunnel option \<Rightarrow> bool \<Rightarrow> WgTunnel option" where
  "wg_set_recv_callback t cb = map_option (\<lambda>tun. tun\<lparr>has_recv_cb := cb\<rparr>) t"

section \<open>Facts\<close>

lemma packet_fields:
  "transport_of_bytes (transport_packet sess data) =
     \<lparr>tr_type = WG_MSG_TRANSPORT, tr_reserved = [0, 0, 0], tr_receiver_index = remote_index sess,
      tr_counter = sending_counter sess,
      tr_encrypted_data = wg_aead_encrypt (sending_key sess) (sending_counter sess) data []\<rparr>"
  unfolding transport_packet_def by (rule transport_read_back) (simp add: transport_ok_def)

lemma packet_length [simp, bytes_len]: "length (transport_packet sess data) = 32 + length data"
  by (simp add: transport_packet_def transport_bytes_def bytes_len)

lemma memcpy_start: "memcpy_at buf 0 x = x @ drop (length x) buf"
  by (simp add: memcpy_at_def)

lemma count_sent_simps [simp]:
  "sending_counter (count_sent s) = sending_counter s + 1" "valid (count_sent s) = valid s"
  "sending_key (count_sent s) = sending_key s" "last_handshake (count_sent s) = last_handshake s"
  "remote_index (count_sent s) = remote_index s"
  by (simp_all add: count_sent_def)

text \<open>The next receive call finds this packet in the ring.\<close>

definition arrives :: "world \<Rightarrow> int \<Rightarrow> bytes \<Rightarrow> bool" where
  "arrives w timeout_ms p \<longleftrightarrow> relay_send w \<and>
     (case relay_recv (fst (wg_time_now w) + of_int timeout_ms * 1000000) WG_MAX_PACKET_SIZE (rseq w)
             (ring_views w (view_pos w)) of
        Some (Inr q, _) \<Rightarrow> q = p | _ \<Rightarrow> False)"

lemma arrives_recv:
  assumes "arrives w timeout_ms p"
  obtains w' where "wg_socket_recv tun buf WG_MAX_PACKET_SIZE timeout_ms w = Some (Inr (length p), memcpy_at buf 0 p, tun, w')"
  using assms
  by (auto simp: arrives_def wg_socket_recv_def wg_time_now_def Let_def split: option.splits prod.splits sum.splits)

lemma send_relay:
  assumes "valid (session tun)" "\<not> fst (wg_session_expired tun w)" "relay_send w" "length data \<le> 2016"
  obtains tun' w' where "wg_send (Some tun) data w = (Inr (length data), Some tun', w')"
    "session tun' = count_sent (session tun)"
    "sent_log w' = sent_log w @ [ToRelay None (transport_packet (session tun) data)]"
proof -
  obtain w1 where e: "wg_session_expired tun w = (False, w1)" "relay_send w1" "sent_log w1 = sent_log w"
    using assms by (auto simp: wg_session_expired_def wg_time_now_def Let_def)
  then show thesis
    using that assms
    by (simp add: wg_send_def wg_socket_send_def wg_time_now_def wg_consts WG_AEAD_TAG_LEN_def memcpy_start Let_def)
qed

definition took :: "WgTunnel \<Rightarrow> bytes \<Rightarrow> WgTunnel \<Rightarrow> bool" where
  "took tun p tun' \<longleftrightarrow>
     (let t = transport_of_bytes p; s = session tun
      in fst (wg_counter_validate (replay s) (tr_counter t)) \<and>
         replay (session tun') = snd (wg_counter_validate (replay s) (tr_counter t)) \<and>
         receiving_counter (session tun') = tr_counter t + 1 \<and>
         valid (session tun') = valid s \<and> local_index (session tun') = local_index s \<and>
         receiving_key (session tun') = receiving_key s \<and> sending_key (session tun') = sending_key s \<and>
         sending_counter (session tun') = sending_counter s \<and> remote_index (session tun') = remote_index s)"

lemma recv_sealed:
  fixes data :: bytes
  assumes "valid (session tun)" and p: "tr_type (transport_of_bytes p) = WG_MSG_TRANSPORT"
    "tr_receiver_index (transport_of_bytes p) = local_index (session tun)"
    "tr_encrypted_data (transport_of_bytes p) =
       wg_aead_encrypt (receiving_key (session tun)) (tr_counter (transport_of_bytes p)) data []"
    and "length p = 32 + length data" "0 < length data" "length data \<le> len"
    and "arrives u timeout_ms p"
  shows "\<exists>tun' u'. wg_recv (Some tun) buf len timeout_ms u =
      Some (if fst (wg_counter_validate (replay (session tun)) (tr_counter (transport_of_bytes p))) then Inr (length data)
            else Inl WG_ERR_DECRYPT, memcpy_at buf 0 data, Some tun', u') \<and>
    (fst (wg_counter_validate (replay (session tun)) (tr_counter (transport_of_bytes p))) \<longrightarrow> took tun p tun')"
proof -
  obtain w' where "wg_socket_recv tun (replicate WG_MAX_PACKET_SIZE 0) WG_MAX_PACKET_SIZE timeout_ms u =
      Some (Inr (length p), memcpy_at (replicate WG_MAX_PACKET_SIZE 0) 0 p, tun, w')"
    using assms(8) by (rule arrives_recv)
  moreover have "wg_aead_decrypt (receiving_key (session tun)) (tr_counter (transport_of_bytes p))
      (wg_aead_encrypt (receiving_key (session tun)) (tr_counter (transport_of_bytes p)) data []) [] = Some data"
    by (simp add: aead_decrypt_iff)
  ultimately show ?thesis
    using assms(1-7)
    by (simp add: wg_recv_def memcpy_start took_def sizeof_transport_def WG_AEAD_TAG_LEN_def Let_def split_def)
qed

subsection \<open>Sequences of operations\<close>

datatype tunnel_op = OpSend bytes | OpRecv bytes int

text \<open>One call by a user of the tunnel; a receive that never returns changes nothing.\<close>

fun run_op :: "tunnel_op \<Rightarrow> WgTunnel \<times> world \<Rightarrow> WgTunnel \<times> world" where
  "run_op (OpSend data) (tun, w) =
     (case wg_send (Some tun) data w of (_, Some tun', w') \<Rightarrow> (tun', w') | (_, None, w') \<Rightarrow> (tun, w'))"
| "run_op (OpRecv buf timeout_ms) (tun, w) =
     (case wg_recv (Some tun) buf (length buf) timeout_ms w of
        Some (_, _, Some tun', w') \<Rightarrow> (tun', w') | _ \<Rightarrow> (tun, w))"

fun packet_of :: "sent_packet \<Rightarrow> bytes" where
  "packet_of (ToRelay h p) = p"
| "packet_of (ToEndpoint a p) = p"

lemma send_retry_log:
  "send_retry n addr p w = (r, w') \<Longrightarrow> sent_log w' = sent_log w \<or> sent_log w' = sent_log w @ [ToEndpoint addr p]"
  by (induction n arbitrary: w) (fastforce simp: Let_def split: sendto_outcome.splits)+

lemma socket_send_log:
  assumes "wg_socket_send tun p w = (r, w')"
  shows "sent_log w' = sent_log w \<or> (\<exists>x. sent_log w' = sent_log w @ [x] \<and> packet_of x = p)"
  using assms send_retry_log [of 10 "endpoint tun" p w r w']
  by (auto simp: wg_socket_send_def split: if_splits)

lemma expired_world: "wg_session_expired tun w = (e, w') \<Longrightarrow> sent_log w' = sent_log w"
  by (auto simp: wg_session_expired_def wg_time_now_def Let_def split: if_splits)

lemma send_cases:
  assumes "wg_send (Some tun) data w = (r, t', w')"
  obtains (refused) "t' = Some tun" "sent_log w' = sent_log w"
    | (sent) tun' where "t' = Some tun'" "session tun' = count_sent (session tun)"
      "sending_counter (session tun) < WG_REJECT_AFTER_MESSAGES"
      "sent_log w' = sent_log w \<or>
       (\<exists>x. sent_log w' = sent_log w @ [x] \<and> packet_of x = transport_packet (session tun) data)"
proof (cases "valid (session tun) \<and> \<not> fst (wg_session_expired tun w) \<and> length data \<le> 2016")
  case False
  then show thesis using assms expired_world [of tun w]
    by (intro refused) (auto simp: wg_send_def wg_consts WG_AEAD_TAG_LEN_def Let_def split: if_splits prod.splits)
next
  case True
  define tun1 where "tun1 = tun\<lparr>send_buffer := memcpy_at (send_buffer tun) 0 (transport_packet (session tun) data),
    session := count_sent (session tun)\<rparr>"
  have lim: "sending_counter (session tun) < WG_REJECT_AFTER_MESSAGES"
    using True by (auto simp: wg_session_expired_def Let_def split_def)
  obtain w1 where e: "wg_session_expired tun w = (False, w1)" using True by (metis prod.collapse)
  have l: "sent_log w1 = sent_log w" using e by (rule expired_world)
  obtain s w2 where s: "wg_socket_send tun1 (transport_packet (session tun) data) w1 = (s, w2)" by fastforce
  have tk: "take (32 + length data) (send_buffer tun1) = transport_packet (session tun) data"
    by (simp add: tun1_def memcpy_start)
  have "wg_send (Some tun) data w =
      (if s < 0 then (Inl WG_ERR_SOCKET, Some tun1, w2)
       else (Inr (length data), Some (tun1\<lparr>last_sent := fst (wg_time_now w2)\<rparr>), snd (wg_time_now w2)))"
    using True by (simp add: wg_send_def e wg_consts WG_AEAD_TAG_LEN_def tun1_def [symmetric] tk s Let_def split_def)
  then have "t' = Some tun1 \<and> w' = w2 \<or> t' = Some (tun1\<lparr>last_sent := fst (wg_time_now w2)\<rparr>) \<and> w' = snd (wg_time_now w2)"
    using assms by (auto split: if_splits)
  then show thesis using socket_send_log [OF s] lim l sent
    by (auto simp: tun1_def wg_time_now_def)
qed

lemma relay_recv_length: "relay_recv d len r views = Some (Inr p, r') \<Longrightarrow> length p \<le> len"
proof (induction views arbitrary: r)
  case (Cons v views)
  obtain now rg where v: "v = (now, rg)" by fastforce
  have "recv_iter rg r len = Got r'' q \<Longrightarrow> length q \<le> len" for r'' q
    by (auto simp: recv_iter_def Let_def split: if_splits)
  then show ?case using Cons by (auto simp: v split: if_splits recv_round.splits)
qed simp

lemma socket_recv_keeps:
  assumes "wg_socket_recv tun buf len timeout_ms w = Some (r, buf', tun', w')"
  shows "session tun' = session tun" "sent_log w' = sent_log w" "\<And>n. r = Inr n \<Longrightarrow> n \<le> len"
    "\<And>n. r = Inr n \<Longrightarrow> length (take n buf') = n"
  using assms relay_recv_length [of "fst (wg_time_now w) + of_int timeout_ms * 1000000" len "rseq w"]
  by (auto simp: wg_socket_recv_def wg_time_now_def Let_def memcpy_start
    split: if_splits option.splits prod.splits sum.splits)

text \<open>What a return of the receive means, with the bytes the socket layer gave.\<close>

definition recv_outcome :: "WgTunnel \<Rightarrow> bytes \<Rightarrow> nat \<Rightarrow> bytes \<Rightarrow> WgError + nat \<Rightarrow> bytes \<Rightarrow> WgSession \<Rightarrow> bool" where
  "recv_outcome tun buf len p r buf' s' \<longleftrightarrow>
     (let t = transport_of_bytes p; s = session tun; m = take (length p - 32) buf'
      in case r of
           Inl e \<Rightarrow> (\<exists>rc. s' = s\<lparr>replay := rc\<rparr>)
         | Inr n \<Rightarrow>
             length p = 32 + n \<and> n \<le> len \<and> tr_type t = WG_MSG_TRANSPORT \<and> tr_receiver_index t = local_index s \<and>
             (if n = 0 then buf' = buf \<and> (\<exists>now. s' = s\<lparr>last_received := now\<rparr>)
              else
                tr_encrypted_data t = wg_aead_encrypt (receiving_key s) (tr_counter t) m [] \<and>
                buf' = memcpy_at buf 0 m \<and> fst (wg_counter_validate (replay s) (tr_counter t)) \<and>
                (\<exists>now. s' = s\<lparr>replay := snd (wg_counter_validate (replay s) (tr_counter t)),
                              last_received := now, receiving_counter := tr_counter t + 1\<rparr>)))"

lemma recv_outcome_sending:
  assumes "recv_outcome tun buf len p r buf' s'"
  shows "sending_key s' = sending_key (session tun) \<and> sending_counter s' = sending_counter (session tun)"
  using assms by (auto simp: recv_outcome_def Let_def split: sum.splits if_splits)

lemma recv_means:
  assumes "wg_recv (Some tun) buf len timeout_ms w = Some (r, buf', t', w')"
  shows "\<exists>tun'. t' = Some tun' \<and> sent_log w' = sent_log w \<and>
    ((\<exists>e. r = Inl e \<and> buf' = buf \<and> session tun' = session tun) \<or>
     (\<exists>n packet tun1 w1. wg_socket_recv tun (replicate 2048 0) 2048 timeout_ms w = Some (Inr n, packet, tun1, w1) \<and>
        recv_outcome tun buf len (take n packet) r buf' (session tun')))"
proof (cases "valid (session tun)")
  case False
  then show ?thesis using assms by (auto simp: wg_recv_def)
next
  case True
  let ?s = "session tun"
  obtain q packet tun1 w1 where sr:
      "wg_socket_recv tun (replicate WG_MAX_PACKET_SIZE 0) WG_MAX_PACKET_SIZE timeout_ms w = Some (q, packet, tun1, w1)"
    using assms True by (auto simp: wg_recv_def split: option.splits)
  note k = socket_recv_keeps [OF sr]
  show ?thesis
  proof (cases q)
    case (Inl e)
    then show ?thesis using assms True k by (auto simp: wg_recv_def sr)
  next
    case (Inr n)
    let ?p = "take n packet" and ?t = "transport_of_bytes (take n packet)"
    have n: "length ?p = n" using k(4) Inr by blast
    define ok where "ok = (32 \<le> n \<and> tr_type ?t = WG_MSG_TRANSPORT \<and> tr_receiver_index ?t = local_index ?s \<and> n - 32 \<le> len)"
    note d = wg_recv_def sr Inr k(1) sizeof_transport_def WG_AEAD_TAG_LEN_def Let_def
    consider (bad) "\<not> ok" | (empty) "ok" "n = 32"
      | (forged) "ok" "n \<noteq> 32" "wg_aead_decrypt (receiving_key ?s) (tr_counter ?t) (tr_encrypted_data ?t) [] = None"
      | (sealed) m where "ok" "n \<noteq> 32" "wg_aead_decrypt (receiving_key ?s) (tr_counter ?t) (tr_encrypted_data ?t) [] = Some m"
      by blast
    then show ?thesis
    proof cases
      case bad
      then have "\<exists>e. wg_recv (Some tun) buf len timeout_ms w = Some (Inl e, buf, Some tun1, w1)"
        using True by (auto simp: d ok_def)
      then show ?thesis using assms k by auto
    next
      case empty
      then have "wg_recv (Some tun) buf len timeout_ms w =
          Some (Inr 0, buf, Some (tun1\<lparr>session := ?s\<lparr>last_received := fst (wg_time_now w1)\<rparr>\<rparr>), snd (wg_time_now w1))"
        using True by (simp add: d ok_def split_def)
      then have "recv_outcome tun buf len ?p r buf' (?s\<lparr>last_received := fst (wg_time_now w1)\<rparr>)"
          "t' = Some (tun1\<lparr>session := ?s\<lparr>last_received := fst (wg_time_now w1)\<rparr>\<rparr>)" "sent_log w' = sent_log w"
        using assms empty n k(2) by (auto simp: recv_outcome_def ok_def Let_def wg_time_now_def)
      then show ?thesis using sr Inr by (auto simp: WG_MAX_PACKET_SIZE_def)
    next
      case forged
      then have "wg_recv (Some tun) buf len timeout_ms w = Some (Inl WG_ERR_DECRYPT, buf, Some tun1, w1)"
        using True by (simp add: d ok_def)
      then show ?thesis using assms k by auto
    next
      case (sealed m)
      then have e: "tr_encrypted_data ?t = wg_aead_encrypt (receiving_key ?s) (tr_counter ?t) m []"
        by (simp add: aead_decrypt_iff)
      have "length (tr_encrypted_data ?t) = n - 16" using n by (simp add: transport_of_bytes_def)
      then have lm: "length m = n - 32" using e by simp
      obtain fresh rc where v: "wg_counter_validate (replay ?s) (tr_counter ?t) = (fresh, rc)" by fastforce
      let ?s' = "if fresh then ?s\<lparr>replay := rc, last_received := fst (wg_time_now w1), receiving_counter := tr_counter ?t + 1\<rparr>
        else ?s\<lparr>replay := rc\<rparr>"
      have r: "wg_recv (Some tun) buf len timeout_ms w =
          Some (if fresh then Inr (n - 32) else Inl WG_ERR_DECRYPT, memcpy_at buf 0 m, Some (tun1\<lparr>session := ?s'\<rparr>),
            if fresh then snd (wg_time_now w1) else w1)"
        using True sealed by (simp add: d v ok_def split_def)
      then have "recv_outcome tun buf len ?p r buf' ?s'"
        using assms sealed n lm e v by (auto simp: recv_outcome_def ok_def Let_def memcpy_start)
      moreover have "t' = Some (tun1\<lparr>session := ?s'\<rparr>)" "sent_log w' = sent_log w"
        using assms r k(2) by (auto simp: wg_time_now_def)
      ultimately show ?thesis using sr Inr by (auto simp: WG_MAX_PACKET_SIZE_def simp del: if_split)
    qed
  qed
qed

lemma counter_next: "(c :: u64) < WG_REJECT_AFTER_MESSAGES \<Longrightarrow> c < c + 1"
  by (simp add: word_less_nat_alt unat_word_ariths wg_consts)

lemma op_cases:
  assumes "run_op op (tun, w) = (tun1, w1)"
  shows "(\<exists>x m. sent_log w1 = sent_log w @ [x] \<and> session tun1 = count_sent (session tun) \<and>
           sending_counter (session tun) < WG_REJECT_AFTER_MESSAGES \<and> packet_of x = transport_packet (session tun) m) \<or>
    sent_log w1 = sent_log w \<and> sending_key (session tun1) = sending_key (session tun) \<and>
      sending_counter (session tun) \<le> sending_counter (session tun1)"
proof (cases op)
  case (OpSend data)
  obtain r t' w' where s: "wg_send (Some tun) data w = (r, t', w')" by (metis prod_cases3)
  from s show ?thesis
  proof (cases rule: send_cases)
    case refused
    then show ?thesis using assms s OpSend by simp
  next
    case (sent tun')
    then have "tun1 = tun'" "w1 = w'" using assms s OpSend by simp_all
    then show ?thesis using sent counter_next [of "sending_counter (session tun)"] by auto
  qed
next
  case (OpRecv buf t)
  show ?thesis
  proof (cases "wg_recv (Some tun) buf (length buf) t w")
    case None
    then show ?thesis using assms OpRecv by simp
  next
    case (Some x)
    then obtain r buf' t' w' where x: "wg_recv (Some tun) buf (length buf) t w = Some (r, buf', t', w')" by (cases x) auto
    from recv_means [OF x] obtain tun' where k: "t' = Some tun'" "sent_log w' = sent_log w"
        "sending_key (session tun') = sending_key (session tun)" "sending_counter (session tun') = sending_counter (session tun)"
      by (metis recv_outcome_sending)
    then show ?thesis using assms OpRecv x by simp
  qed
qed

text \<open>A world in which one packet has just been written to the ring.\<close>

definition world_with :: "bytes \<Rightarrow> world" where
  "world_with p = quiet_world\<lparr>ring_views := (\<lambda>_. [(0, wg_relay_commit (ring_put ring_init p))])\<rparr>"

lemma arrives_world_with:
  assumes "p \<noteq> []" and "length p \<le> 2044"
  shows "arrives (world_with p) 100 p"
proof -
  let ?r = "wg_relay_commit (ring_put ring_init p)"
  have "ring_holds [p] 1 ?r"
    using assms ring_holds_commit [OF ring_holds_put [OF ring_holds_init, of p]] by (simp add: RING_DATA_MAX_def)
  then have "recv_iter ?r 0 WG_MAX_PACKET_SIZE = round_at 0 WG_MAX_PACKET_SIZE p"
    using recv_iter_near [of "[p]" 1 ?r 0] by simp
  also have "\<dots> = Got 1 p" using assms by (simp add: round_at_def WG_MAX_PACKET_SIZE_def)
  finally show ?thesis
    by (simp add: arrives_def world_with_def quiet_world_def wg_time_now_def)
qed

lemma validate_twice:
  assumes "wf_replay rc" and "fst (wg_counter_validate rc c)"
  shows "\<not> fst (wg_counter_validate (snd (wg_counter_validate rc c)) c)"
proof -
  let ?a = "advance_window rc c"
  have v: "wg_counter_validate rc c = (True, set_mark ?a c)" using assms by (auto simp: validate_eq split: if_splits)
  have wf: "wf_replay (set_mark ?a c)" using assms(1) by simp
  have "unat c div 64 \<le> rc_top (set_mark ?a c) div 64" by (simp add: div_le_mono)
  then have "marked (advance_window (set_mark ?a c) c) (unat c)"
    using assms(1) unfolding advance_marked [OF wf] by (auto simp: set_mark_marked)
  then show ?thesis unfolding v snd_conv validate_eq [of "set_mark ?a c"] by simp
qed

section \<open>Properties\<close>

text \<open>
  C3: Sent data arrive, once. When the sending session of one side is the receiving session of
  the other, data of up to 2016 bytes given to \<open>wg_send\<close> leave as one packet; whenever the other
  side's \<open>wg_recv\<close> finds that packet in the ring and the counter is new to its window, it returns
  exactly these data, and a second copy of the packet is refused.
\<close>

theorem send_recv_once:
  assumes A: "valid (session A)" "\<not> fst (wg_session_expired A w)" "relay_send w"
    and B: "valid (session B)" "receiving_key (session B) = sending_key (session A)"
      "local_index (session B) = remote_index (session A)" "wf_replay (replay (session B))"
      "fst (wg_counter_validate (replay (session B)) (sending_counter (session A)))"
    and data: "0 < length data" "length data \<le> 2016" "length data \<le> len"
    and send: "wg_send (Some A) data w = (r, A', w')"
  shows "r = Inr (length data) \<and> (\<exists>packet. sent_log w' = sent_log w @ [ToRelay None packet] \<and>
    (\<forall>buf u t. arrives u t packet \<longrightarrow>
      (\<exists>B' u'. wg_recv (Some B) buf len t u = Some (Inr (length data), memcpy_at buf 0 data, Some B', u') \<and>
        (\<forall>buf u t. arrives u t packet \<longrightarrow>
          (\<exists>buf' B'' u'. wg_recv (Some B') buf len t u = Some (Inl WG_ERR_DECRYPT, buf', Some B'', u'))))))"
proof -
  define p where "p = transport_packet (session A) data"
  have f: "tr_type (transport_of_bytes p) = WG_MSG_TRANSPORT" "tr_receiver_index (transport_of_bytes p) = remote_index (session A)"
    "tr_counter (transport_of_bytes p) = sending_counter (session A)" "length p = 32 + length data"
    "tr_encrypted_data (transport_of_bytes p) = wg_aead_encrypt (sending_key (session A)) (sending_counter (session A)) data []"
    by (simp_all add: p_def packet_fields)
  have twice: "\<exists>B' u'. wg_recv (Some B) buf len t u = Some (Inr (length data), memcpy_at buf 0 data, Some B', u') \<and>
      (\<forall>buf u t. arrives u t p \<longrightarrow>
        (\<exists>buf' B'' u'. wg_recv (Some B') buf len t u = Some (Inl WG_ERR_DECRYPT, buf', Some B'', u')))"
    if a: "arrives u t p" for buf u t
  proof -
    obtain B' u' where b: "wg_recv (Some B) buf len t u = Some (Inr (length data), memcpy_at buf 0 data, Some B', u')" "took B p B'"
      using recv_sealed [of B p data len u t buf] a B data f by auto
    have "\<not> fst (wg_counter_validate (replay (session B')) (sending_counter (session A)))"
      using validate_twice [OF B(4,5)] b(2) by (simp add: took_def f Let_def)
    then have "\<exists>B'' u'. wg_recv (Some B') buf len t u = Some (Inl WG_ERR_DECRYPT, memcpy_at buf 0 data, Some B'', u')"
      if "arrives u t p" for buf u t
      using recv_sealed [of B' p data len u t buf] that B data f b by (simp add: took_def Let_def)
    then show ?thesis using b(1) by blast
  qed
  obtain A1 w1 where "wg_send (Some A) data w = (Inr (length data), Some A1, w1)"
      "sent_log w1 = sent_log w @ [ToRelay None p]"
    unfolding p_def by (rule send_relay [OF A data(2)])
  then have "r = Inr (length data)" "sent_log w' = sent_log w @ [ToRelay None p]" using send by simp_all
  then show ?thesis using twice by blast
qed

theorem send_recv_once_witness:
  "let T = zero_tunnel\<lparr>session := zero_session\<lparr>valid := True\<rparr>\<rparr>; (r, T', w') = wg_send (Some T) [1, 2, 3] quiet_world;
       packet = packet_of (last (sent_log w')); buf = replicate 100 0
   in r = Inr 3 \<and>
      (case wg_recv (Some T) buf 100 100 (world_with packet) of
         Some (r, buf', _, _) \<Rightarrow> r = Inr 3 \<and> buf' = [1, 2, 3] @ replicate 97 0 | None \<Rightarrow> False)"
proof -
  define T where "T = zero_tunnel\<lparr>session := zero_session\<lparr>valid := True\<rparr>\<rparr>"
  obtain r T' w' where s: "wg_send (Some T) [1, 2, 3] quiet_world = (r, T', w')" by (metis prod_cases3)
  have v: "fst (wg_counter_validate replay_init 0)"
    using validate_refines [OF ring_rel_init, of 0] by (simp add: aliased_def live_def out_of_range_def)
  have T: "session T = zero_session\<lparr>valid := True\<rparr>" by (simp add: T_def)
  have ok: "valid (session T)" "\<not> fst (wg_session_expired T quiet_world)" "relay_send quiet_world"
    by (simp_all add: T zero_session_def quiet_world_def wg_session_expired_def wg_time_now_def wg_consts)
  have B: "receiving_key (session T) = sending_key (session T)" "local_index (session T) = remote_index (session T)"
    "wf_replay (replay (session T))" "fst (wg_counter_validate (replay (session T)) (sending_counter (session T)))"
    by (simp_all add: T zero_session_def v)
  have len3: "length [1, 2, 3 :: u8] = 3" by simp
  note once = send_recv_once [OF ok ok(1) B _ _ _ s, of 100, unfolded len3, simplified]
  have r: "r = Inr 3" using once by (rule conjunct1)
  from conjunct2 [OF once] obtain packet where l: "sent_log w' = sent_log quiet_world @ [ToRelay None packet]"
    and d: "\<And>buf u t. arrives u t packet \<Longrightarrow>
      \<exists>B' u'. wg_recv (Some T) buf 100 t u = Some (Inr 3, memcpy_at buf 0 [1, 2, 3], Some B', u')"
    by (elim exE conjE) (rule that, assumption, blast)
  obtain T1 w1 where p: "wg_send (Some T) [1, 2, 3] quiet_world = (Inr (length [1, 2, 3 :: u8]), Some T1, w1)"
      "sent_log w1 = sent_log quiet_world @ [ToRelay None (transport_packet (session T) [1, 2, 3])]"
    by (rule send_relay [OF ok, of "[1, 2, 3]"]) simp
  have "packet = transport_packet (session T) [1, 2, 3]" using p s l by (simp add: quiet_world_def)
  then have "arrives (world_with packet) 100 packet"
    by (intro arrives_world_with) (simp_all flip: length_0_conv)
  from d [OF this, of "replicate 100 0"] show ?thesis
    unfolding Let_def T_def [symmetric] s using r l by (auto simp: memcpy_start)
qed

text \<open>
  C5: No nonce is used twice. In every sequence of sends and receives over one session, whatever
  the network does, the packets that leave carry strictly increasing counters, all of them at
  least the counter of the start and below \<open>WG_REJECT_AFTER_MESSAGES\<close>, and each is sealed with the
  session's key under its own counter.
\<close>

theorem nonces_increase:
  assumes "fold run_op ops (tun, w) = (tun', w')"
  defines "ctr \<equiv> \<lambda>x. tr_counter (transport_of_bytes (packet_of x))"
  shows "\<exists>xs. sent_log w' = sent_log w @ xs \<and> sorted_wrt (\<lambda>x y. ctr x < ctr y) xs \<and>
    (\<forall>x\<in>set xs. sending_counter (session tun) \<le> ctr x \<and> ctr x < WG_REJECT_AFTER_MESSAGES \<and>
       (\<exists>m. tr_encrypted_data (transport_of_bytes (packet_of x)) = wg_aead_encrypt (sending_key (session tun)) (ctr x) m []))"
  using assms(1)
proof (induction ops arbitrary: tun w)
  case Nil
  then show ?case by simp
next
  case (Cons op ops)
  obtain tun1 w1 where step: "run_op op (tun, w) = (tun1, w1)" by fastforce
  then have rest: "fold run_op ops (tun1, w1) = (tun', w')" using Cons.prems by simp
  note IH = Cons.IH [OF rest]
  let ?s = "session tun"
  have "(\<exists>x. sent_log w1 = sent_log w @ [x] \<and> session tun1 = count_sent ?s \<and>
         sending_counter ?s < WG_REJECT_AFTER_MESSAGES \<and> (\<exists>m. packet_of x = transport_packet ?s m)) \<or>
      sent_log w1 = sent_log w \<and> sending_key (session tun1) = sending_key ?s \<and>
         sending_counter ?s \<le> sending_counter (session tun1)"
    using op_cases [OF step] by blast
  then show ?case
  proof
    assume "\<exists>x. sent_log w1 = sent_log w @ [x] \<and> session tun1 = count_sent ?s \<and>
      sending_counter ?s < WG_REJECT_AFTER_MESSAGES \<and> (\<exists>m. packet_of x = transport_packet ?s m)"
    then obtain x m where x: "sent_log w1 = sent_log w @ [x]" "session tun1 = count_sent ?s"
      "sending_counter ?s < WG_REJECT_AFTER_MESSAGES" "packet_of x = transport_packet ?s m" by blast
    have "ctr x = sending_counter ?s" "sending_counter ?s < sending_counter (session tun1)"
      using x counter_next by (simp_all add: ctr_def packet_fields)
    moreover have "tr_encrypted_data (transport_of_bytes (packet_of x)) = wg_aead_encrypt (sending_key ?s) (ctr x) m []"
      using x by (simp add: ctr_def packet_fields)
    ultimately show ?thesis using IH x by (fastforce intro: exI [of _ "x # _"])
  next
    assume "sent_log w1 = sent_log w \<and> sending_key (session tun1) = sending_key ?s \<and>
      sending_counter ?s \<le> sending_counter (session tun1)"
    then show ?thesis using IH by fastforce
  qed
qed

theorem nonces_increase_witness:
  "let tun = zero_tunnel\<lparr>session := zero_session\<lparr>valid := True\<rparr>\<rparr>;
       (tun', w') = fold run_op [OpSend [1], OpRecv [0, 0] 5, OpSend [2]] (tun, quiet_world)
   in \<exists>xs. sent_log w' = xs \<and>
        sorted_wrt (\<lambda>x y. tr_counter (transport_of_bytes (packet_of x)) < tr_counter (transport_of_bytes (packet_of y))) xs"
proof -
  define tun where "tun = zero_tunnel\<lparr>session := zero_session\<lparr>valid := True\<rparr>\<rparr>"
  obtain tun' w' where f: "fold run_op [OpSend [1], OpRecv [0, 0] 5, OpSend [2]] (tun, quiet_world) = (tun', w')" by fastforce
  from nonces_increase [OF f] show ?thesis
    unfolding tun_def [symmetric] Let_def f split by (auto simp: quiet_world_def)
qed



end
