(* ===== verification/RecvLoop.thy ===== *)
theory RecvLoop
  imports Transport
begin

text \<open>
  The receive thread of \<open>src/wireguard.c\<close>: one round takes a slot of the pool, receives a packet into
  it, gives handshake messages to the handshake and data to the session they are addressed to, and
  hands the plain text to the consumer's callback. The callback is a function on its own user
  state; it says whether it keeps the slot.
\<close>

section \<open>Model\<close>

definition wg_recv_slot_release :: "WgTunnel option \<Rightarrow> nat option \<Rightarrow> WgTunnel option" where
  "wg_recv_slot_release t slot =
     (case t of None \<Rightarrow> None | Some tun \<Rightarrow> Some (tun\<lparr>recv_pool := wg_recv_pool_release (recv_pool tun) slot\<rparr>))"

text \<open>A pointer to a session: current or previous, of a peer or of the tunnel.\<close>

datatype sess_ref = PeerCur nat | PeerPrev nat | OwnCur | OwnPrev

fun get_sess :: "WgTunnel \<Rightarrow> sess_ref \<Rightarrow> WgSession" where
  "get_sess tun (PeerCur i) = p_session (peers tun ! i)"
| "get_sess tun (PeerPrev i) = p_prev_session (peers tun ! i)"
| "get_sess tun OwnCur = session tun"
| "get_sess tun OwnPrev = prev_session tun"

fun put_sess :: "WgTunnel \<Rightarrow> sess_ref \<Rightarrow> WgSession \<Rightarrow> WgTunnel" where
  "put_sess tun (PeerCur i) s = set_peer tun i ((peers tun ! i)\<lparr>p_session := s\<rparr>)"
| "put_sess tun (PeerPrev i) s = set_peer tun i ((peers tun ! i)\<lparr>p_prev_session := s\<rparr>)"
| "put_sess tun OwnCur s = tun\<lparr>session := s\<rparr>"
| "put_sess tun OwnPrev s = tun\<lparr>prev_session := s\<rparr>"

subsection \<open>Handshake messages\<close>

text \<open>
  The buffer is the whole slot: a response is read from it without a check of the length
  received, so that its end may come from an earlier packet.
\<close>

definition recv_response :: "WgTunnel \<Rightarrow> nat \<Rightarrow> bytes \<Rightarrow> world \<Rightarrow> WgTunnel \<times> world" where
  "recv_response tun received packet w =
     (let resp = response_of_bytes packet
      in if rekey_in_progress (session tun)
         then
           (if received \<le> length (pending_response tun)
            then (tun\<lparr>pending_response := memcpy_at (pending_response tun) 0 (take received packet),
                      pending_response_len := received\<rparr>, w)
            else (tun, w))
         else
           (case find (\<lambda>pi. let peer = peers tun ! pi
                            in connected peer \<and> \<not> valid (p_session peer) \<and>
                               local_index (p_session peer) = hr_receiver_index resp) [0..<peer_count tun] of
              None \<Rightarrow> (tun, w)
            | Some pi \<Rightarrow> (let (perr, tun, w) = wg_handshake_init_process_response tun pi resp w in (tun, w))))"

definition recv_cookie :: "WgTunnel \<Rightarrow> nat \<Rightarrow> bytes \<Rightarrow> world \<Rightarrow> WgTunnel \<times> world" where
  "recv_cookie tun received packet w =
     (if sizeof_cookie \<le> received
      then (let (err, tun, w) = wg_process_cookie_reply tun (cookie_of_bytes packet) w
            in (tun\<lparr>pending_cookie := True\<rparr>, w))
      else (tun, w))"

definition recv_init :: "WgTunnel \<Rightarrow> nat \<Rightarrow> bytes \<Rightarrow> world \<Rightarrow> WgTunnel \<times> world" where
  "recv_init tun received packet w =
     (if sizeof_init \<le> received
      then
        (let (passive_err, tun, w) = wg_handshake_init_process tun (init_of_bytes packet) w
         in if passive_err = WG_OK
            then
              (case find (\<lambda>pi. connected (peers tun ! pi) \<and> valid (p_session (peers tun ! pi))) [0..<peer_count tun] of
                 None \<Rightarrow> (tun, w)
               | Some pi \<Rightarrow> wg_send_keepalive_to_peer tun pi w)
            else (tun, w))
      else (tun, w))"

definition recv_control :: "WgTunnel \<Rightarrow> nat \<Rightarrow> bytes \<Rightarrow> world \<Rightarrow> WgTunnel \<times> world" where
  "recv_control tun received packet w =
     (let ty = tr_type (transport_of_bytes packet)
      in if ty = WG_MSG_HANDSHAKE_RESPONSE then recv_response tun received packet w
         else if ty = WG_MSG_COOKIE_REPLY then recv_cookie tun received packet w
         else if ty = WG_MSG_HANDSHAKE_INIT then recv_init tun received packet w
         else (tun, w))"

subsection \<open>Data\<close>

definition find_session :: "WgTunnel \<Rightarrow> u32 \<Rightarrow> nat option \<times> sess_ref option" where
  "find_session tun idx =
     (let cur_idx = local_index (session tun);
          peer = wg_find_peer_by_local_index (Some tun) idx;
          sess = (case peer of
                    None \<Rightarrow> None
                  | Some i \<Rightarrow>
                      if idx = local_index (p_session (peers tun ! i)) then Some (PeerCur i)
                      else if valid (p_prev_session (peers tun ! i)) \<and> idx = local_index (p_prev_session (peers tun ! i))
                      then Some (PeerPrev i) else None);
          sess = (case sess of
                    Some r \<Rightarrow> Some r
                  | None \<Rightarrow>
                      if idx = cur_idx then Some OwnCur
                      else if idx = old_local_index (session tun) then Some OwnCur
                      else if valid (prev_session tun) \<and> idx = local_index (prev_session tun) then Some OwnPrev
                      else None)
      in (peer, sess))"

text \<open>A previous session that is too old is wiped.\<close>

definition drop_expired :: "WgTunnel \<Rightarrow> nat option \<Rightarrow> sess_ref \<Rightarrow> WgTunnel" where
  "drop_expired tun peer r =
     (let tun = (case peer of None \<Rightarrow> tun | Some i \<Rightarrow> if r = PeerPrev i then put_sess tun r zero_session else tun)
      in if r = OwnPrev then put_sess tun r zero_session else tun)"

text \<open>
  One data packet of \<open>received\<close> bytes in the buffer: the tunnel, the buffer, in which the text is
  decrypted in place, the world, and whether the text goes to the consumer.
\<close>

definition recv_data :: "WgTunnel \<Rightarrow> nat \<Rightarrow> bytes \<Rightarrow> world \<Rightarrow> WgTunnel \<times> bytes \<times> world \<times> bool" where
  "recv_data tun received packet w =
     (let transport = transport_of_bytes (take received packet);
          (peer, sess) = find_session tun (tr_receiver_index transport)
      in case sess of
           None \<Rightarrow> (tun, packet, w, False)
         | Some r \<Rightarrow>
             (let (now, w) = wg_time_now w;
                  sess_elapsed = now - last_handshake (get_sess tun r)
              in if WG_REJECT_AFTER_TIME * NS \<le> sess_elapsed then (drop_expired tun peer r, packet, w, False)
                 else
                   (let ciphertext_len = received - sizeof_transport;
                        plaintext_len = ciphertext_len - WG_AEAD_TAG_LEN
                    in if plaintext_len = 0
                       then
                         (let (now, w) = wg_time_now w;
                              tun = put_sess tun r ((get_sess tun r)\<lparr>last_received := now\<rparr>)
                          in case peer of
                               None \<Rightarrow> (tun, packet, w, False)
                             | Some i \<Rightarrow>
                                 (let (now, w) = wg_time_now w
                                  in (set_peer tun i ((peers tun ! i)\<lparr>p_last_sent := now, connected := True\<rparr>), packet, w, False)))
                       else
                         (case wg_aead_decrypt (receiving_key (get_sess tun r)) (tr_counter transport)
                                 (tr_encrypted_data transport) [] of
                            None \<Rightarrow> (tun, packet, w, False)
                          | Some plaintext \<Rightarrow>
                              (let packet = memcpy_at packet sizeof_transport plaintext;
                                   (fresh, rc) = wg_counter_validate (replay (get_sess tun r)) (tr_counter transport);
                                   tun = put_sess tun r ((get_sess tun r)\<lparr>replay := rc\<rparr>)
                               in if \<not> fresh then (tun, packet, w, False)
                                  else
                                    (let (now, w) = wg_time_now w;
                                         tun = put_sess tun r ((get_sess tun r)\<lparr>last_received := now,
                                                 receiving_counter := tr_counter transport + 1\<rparr>);
                                         tun = (case peer of None \<Rightarrow> tun
                                                | Some i \<Rightarrow> set_peer tun i ((peers tun ! i)\<lparr>connected := True\<rparr>));
                                         tun = wg_update_endpoint_from_recv tun
                                     in (tun, packet, w, True)))))))"

subsection \<open>The thread\<close>

text \<open>The local variables of the thread and its static fallback buffer.\<close>

record recv_vars =
  total_recv :: u64
  last_log :: u64
  fallback_packet :: bytes

definition packet_buf :: "WgTunnel \<Rightarrow> recv_vars \<Rightarrow> nat option \<Rightarrow> bytes" where
  "packet_buf tun rv slot =
     (case slot of None \<Rightarrow> fallback_packet rv | Some i \<Rightarrow> slot_data (pool_slots (recv_pool tun) ! i))"

definition store_packet :: "WgTunnel \<Rightarrow> recv_vars \<Rightarrow> nat option \<Rightarrow> bytes \<Rightarrow> WgTunnel \<times> recv_vars" where
  "store_packet tun rv slot packet =
     (case slot of
        None \<Rightarrow> (tun, rv\<lparr>fallback_packet := packet\<rparr>)
      | Some i \<Rightarrow>
          (let ss = pool_slots (recv_pool tun)
           in (tun\<lparr>recv_pool := (recv_pool tun)\<lparr>slots := Some (ss[i := (ss ! i)\<lparr>slot_data := packet\<rparr>])\<rparr>\<rparr>, rv)))"

definition release_slot :: "WgTunnel \<Rightarrow> nat option \<Rightarrow> WgTunnel" where
  "release_slot tun slot = tun\<lparr>recv_pool := wg_recv_pool_release (recv_pool tun) slot\<rparr>"

text \<open>Handing the text to the callback, if there is one and the packet is in a slot of the pool.\<close>

definition hand_over ::
  "(nat \<Rightarrow> bytes \<Rightarrow> 'u \<Rightarrow> bool \<times> 'u) \<Rightarrow> WgTunnel \<Rightarrow> nat option \<Rightarrow> bytes \<Rightarrow> 'u \<Rightarrow> WgTunnel \<times> 'u" where
  "hand_over recv_cb tun slot plaintext u =
     (case slot of
        None \<Rightarrow> (tun, u)
      | Some i \<Rightarrow>
          if has_recv_cb tun
          then (let (retained, u) = recv_cb i plaintext u in (if retained then tun else release_slot tun slot, u))
          else (release_slot tun slot, u))"

definition recv_thread_round ::
  "(nat \<Rightarrow> bytes \<Rightarrow> 'u \<Rightarrow> bool \<times> 'u) \<Rightarrow> WgTunnel \<times> recv_vars \<times> 'u \<times> world \<Rightarrow>
   (WgTunnel \<times> recv_vars \<times> 'u \<times> world) option" where
  "recv_thread_round recv_cb st =
     (let (tun, rv, u, w) = st;
          (slot, pool) = wg_recv_pool_acquire (recv_pool tun);
          tun = tun\<lparr>recv_pool := pool\<rparr>
      in case wg_socket_recv tun (packet_buf tun rv slot) WG_MAX_PACKET_SIZE 100 w of
           None \<Rightarrow> None
         | Some (Inl e, packet, tun, w) \<Rightarrow>
             (let tun = release_slot tun slot
              in if e = WG_ERR_TIMEOUT
                 then
                   (let (now, w) = wg_time_now w
                    in Some (tun, if 5000000000 < now - last_log rv then rv\<lparr>last_log := now\<rparr> else rv, u, w))
                 else Some (tun, rv, u, w))
         | Some (Inr received, packet, tun, w) \<Rightarrow>
             (let (tun, rv) = store_packet tun rv slot packet;
                  rv = rv\<lparr>total_recv := total_recv rv + 1\<rparr>
              in if received < sizeof_transport + WG_AEAD_TAG_LEN then Some (release_slot tun slot, rv, u, w)
                 else if tr_type (transport_of_bytes packet) \<noteq> WG_MSG_TRANSPORT
                 then (let (tun, w) = recv_control tun received packet w in Some (release_slot tun slot, rv, u, w))
                 else
                   (let (tun, packet, w, deliver) = recv_data tun received packet w;
                        (tun, rv) = store_packet tun rv slot packet
                    in if \<not> deliver then Some (release_slot tun slot, rv, u, w)
                       else
                         (let plaintext_len = received - sizeof_transport - WG_AEAD_TAG_LEN;
                              (tun, u) = hand_over recv_cb tun slot (take plaintext_len (drop sizeof_transport packet)) u
                          in Some (tun, rv, u, w)))))"

text \<open>
  The loop, with the results of \<open>wg_stop_cond_check\<close> in the order it is called; at the end of the
  list the thread is still running.
\<close>

fun recv_thread_func ::
  "(nat \<Rightarrow> bytes \<Rightarrow> 'u \<Rightarrow> bool \<times> 'u) \<Rightarrow> bool list \<Rightarrow> WgTunnel \<times> recv_vars \<times> 'u \<times> world \<Rightarrow>
   (WgTunnel \<times> recv_vars \<times> 'u \<times> world) option" where
  "recv_thread_func recv_cb [] st = Some st"
| "recv_thread_func recv_cb (stop # stops) st =
     (if stop then Some st
      else
        (case recv_thread_round recv_cb st of
           None \<Rightarrow> None
         | Some st \<Rightarrow> recv_thread_func recv_cb stops st))"

section \<open>What a round leaves alone\<close>

text \<open>The slot pool and the callback of the tunnel.\<close>

definition rx :: "WgTunnel \<Rightarrow> WgRecvPool \<times> bool" where
  "rx tun = (recv_pool tun, has_recv_cb tun)"

named_theorems rx_keeps \<open>operations that leave the slot pool and the callback alone\<close>

lemma rx_updates [rx_keeps]:
  "rx (set_peer tun i p) = rx tun" "rx (tun\<lparr>session := s\<rparr>) = rx tun" "rx (tun\<lparr>prev_session := s\<rparr>) = rx tun"
  "rx (tun\<lparr>last_mac1 := m\<rparr>) = rx tun" "rx (tun\<lparr>peer_public := k\<rparr>) = rx tun" "rx (tun\<lparr>pending_cookie := b\<rparr>) = rx tun"
  "rx (tun\<lparr>pending_response := x, pending_response_len := n\<rparr>) = rx tun"
  "rx (tun\<lparr>cookie := x, has_cookie := b, cookie_timestamp := now\<rparr>) = rx tun"
  by (simp_all add: rx_def set_peer_def)

lemma rx_put_sess [rx_keeps]: "rx (put_sess tun r s) = rx tun"
  by (cases r) (simp_all add: rx_keeps)

lemma rx_drop_expired [rx_keeps]: "rx (drop_expired tun peer r) = rx tun"
  by (simp add: drop_expired_def rx_keeps split: option.split)

lemma rx_endpoint [rx_keeps]: "rx (wg_update_endpoint_from_recv tun) = rx tun"
  by (simp add: wg_update_endpoint_from_recv_def rx_def)

lemma rx_init_process [rx_keeps]:
  "rx (fst (snd (wg_handshake_init_process tun msg w))) = rx tun"
  by (simp add: wg_handshake_init_process_def answer_init_def start_peer_session_def start_own_session_def
    rx_keeps split_def Let_def split: option.split)

lemma rx_response [rx_keeps]:
  "rx (fst (snd (wg_handshake_init_process_response tun i msg w))) = rx tun"
  by (simp add: wg_handshake_init_process_response_def rx_keeps split_def Let_def)

lemma rx_cookie [rx_keeps]: "rx (fst (snd (wg_process_cookie_reply tun msg w))) = rx tun"
  by (simp add: wg_process_cookie_reply_def rx_keeps split_def Let_def split: option.split)

lemma rx_keepalive [rx_keeps]: "rx (fst (wg_send_keepalive_to_peer tun i w)) = rx tun"
  by (simp add: wg_send_keepalive_to_peer_def rx_keeps split_def Let_def)

lemma rx_control [rx_keeps]: "rx (fst (recv_control tun n packet w)) = rx tun"
  by (simp add: recv_control_def recv_response_def recv_cookie_def recv_init_def
    rx_keeps split_def Let_def split: option.split)

lemma rx_data [rx_keeps]: "rx (fst (recv_data tun n packet w)) = rx tun"
  by (simp add: recv_data_def rx_keeps split_def Let_def split: option.split)

lemma rx_socket_recv:
  "wg_socket_recv tun buf len timeout_ms w = Some (r, buf', tun', w') \<Longrightarrow> rx tun' = rx tun"
  by (auto simp: wg_socket_recv_def rx_def wg_time_now_def Let_def
    split: if_splits option.splits prod.splits sum.splits)

section \<open>Slots\<close>

lemma next_slot_data: "next_slot (ss[i := (ss ! i)\<lparr>slot_data := d\<rparr>] ! j) = next_slot (ss ! j)"
  by (cases "i = j"; cases "i < length ss") (simp_all add: list_update_beyond)

lemma chain_slot_data: "chain (ss[i := (ss ! i)\<lparr>slot_data := d\<rparr>]) h xs = chain ss h xs"
  by (induction xs arbitrary: h) (simp_all add: next_slot_data)

lemma pool_free_store:
  assumes "pool_free (recv_pool tun) xs" and "store_packet tun rv slot packet = (tun', rv')"
  shows "pool_free (recv_pool tun') xs" "has_recv_cb tun' = has_recv_cb tun"
  using assms by (cases slot; auto simp: store_packet_def pool_free_def pool_slots_def chain_slot_data Let_def)+

lemma pool_free_rx: "rx tun' = rx tun \<Longrightarrow> pool_free (recv_pool tun) ys \<Longrightarrow> pool_free (recv_pool tun') ys"
  by (simp add: rx_def)

text \<open>
  A round either gives its slot back without calling the consumer, or hands over the text of a data
  packet. \<open>ys\<close> are the slots that stay free during the round.
\<close>

definition handed ::
  "(nat \<Rightarrow> bytes \<Rightarrow> 'u \<Rightarrow> bool \<times> 'u) \<Rightarrow> nat option \<Rightarrow> nat list \<Rightarrow> WgTunnel \<Rightarrow> recv_vars \<Rightarrow> 'u \<Rightarrow> world \<Rightarrow> WgTunnel \<Rightarrow> 'u \<Rightarrow> bool" where
  "handed recv_cb slot ys tun rv u w tun' u' \<longleftrightarrow>
     (\<exists>n packet tun1 w1 tun2 rv2 tun3 packet' w3 tun4.
        wg_socket_recv tun (packet_buf tun rv slot) 2048 100 w = Some (Inr n, packet, tun1, w1) \<and> 32 \<le> n \<and>
        tr_type (transport_of_bytes packet) = WG_MSG_TRANSPORT \<and> store_packet tun1 rv slot packet = (tun2, rv2) \<and>
        recv_data tun2 n packet w1 = (tun3, packet', w3, True) \<and> pool_free (recv_pool tun4) ys \<and>
        hand_over recv_cb tun4 slot (take (n - 32) (drop 16 packet')) u = (tun', u'))"

lemma round_shape:
  assumes "recv_thread_round recv_cb (tun, rv, u, w) = Some (tun', rv', u', w')"
    and acq: "wg_recv_pool_acquire (recv_pool tun) = (slot, pool)" and ys: "pool_free pool ys"
  shows "(\<exists>t. pool_free (recv_pool t) ys \<and> tun' = release_slot t slot \<and> u' = u) \<or>
    handed recv_cb slot ys (tun\<lparr>recv_pool := pool\<rparr>) rv u w tun' u'"
proof -
  define tun0 where "tun0 = tun\<lparr>recv_pool := pool\<rparr>"
  note d = recv_thread_round_def acq tun0_def [symmetric] Let_def split
  obtain q packet tun1 w1 where sr: "wg_socket_recv tun0 (packet_buf tun0 rv slot) WG_MAX_PACKET_SIZE 100 w = Some (q, packet, tun1, w1)"
    using assms(1) by (auto simp: d split: option.splits)
  have p1: "pool_free (recv_pool tun1) ys"
    using pool_free_rx [OF rx_socket_recv [OF sr]] ys by (simp add: tun0_def)
  show ?thesis
  proof (cases q)
    case (Inl e)
    then have "tun' = release_slot tun1 slot \<and> u' = u"
      using assms(1) by (auto simp: d sr split: if_splits prod.splits)
    then show ?thesis using p1 by blast
  next
    case (Inr n)
    obtain tun2 rv2 where st: "store_packet tun1 rv slot packet = (tun2, rv2)" by fastforce
    note p2 = pool_free_store(1) [OF p1 st]
    define ok where "ok = (32 \<le> n \<and> tr_type (transport_of_bytes packet) = WG_MSG_TRANSPORT)"
    note e = d sr Inr st sizeof_transport_def WG_AEAD_TAG_LEN_def
    obtain tun3 packet' w3 del where rd: "recv_data tun2 n packet w1 = (tun3, packet', w3, del)" by (metis prod_cases4)
    have p3: "pool_free (recv_pool tun3) ys" using pool_free_rx [OF _ p2, of tun3] rx_data [of tun2 n packet w1] by (simp add: rd)
    obtain tun4 rv4 where st': "store_packet tun3 (rv2\<lparr>total_recv := total_recv rv2 + 1\<rparr>) slot packet' = (tun4, rv4)" by fastforce
    note p4 = pool_free_store(1) [OF p3 st']
    show ?thesis
    proof (cases "ok \<and> del")
      case True
      then obtain tunh uh where h: "hand_over recv_cb tun4 slot (take (n - 32) (drop 16 packet')) u = (tunh, uh)" by fastforce
      have "tun' = tunh" "u' = uh" using assms(1) True by (simp_all add: e ok_def rd st' h)
      then have "handed recv_cb slot ys tun0 rv u w tun' u'"
        unfolding handed_def using True sr Inr st rd p4 h by (fastforce simp: ok_def WG_MAX_PACKET_SIZE_def)
      then show ?thesis by (simp add: tun0_def)
    next
      case False
      consider "n < 32" | "32 \<le> n" "tr_type (transport_of_bytes packet) \<noteq> WG_MSG_TRANSPORT" | "ok" "\<not> del"
        using False unfolding ok_def by linarith
      then have "\<exists>t. pool_free (recv_pool t) ys \<and> tun' = release_slot t slot \<and> u' = u"
      proof cases
        case 1
        then show ?thesis using assms(1) p2 by (auto simp: e)
      next
        case 2
        have "pool_free (recv_pool (fst (recv_control tun2 n packet w1))) ys" by (rule pool_free_rx [OF rx_control p2])
        then show ?thesis using assms(1) 2 by (auto simp: e split_def)
      next
        case 3
        then show ?thesis using assms(1) p4 by (auto simp: e ok_def rd st')
      qed
      then show ?thesis ..
    qed
  qed
qed

text \<open>A callback together with the list of its calls: slot, text, and whether the slot was kept.\<close>

definition watch ::
  "(nat \<Rightarrow> bytes \<Rightarrow> 'v \<Rightarrow> bool \<times> 'v) \<Rightarrow> nat \<Rightarrow> bytes \<Rightarrow> (nat \<times> bytes \<times> bool) list \<times> 'v \<Rightarrow>
   bool \<times> (nat \<times> bytes \<times> bool) list \<times> 'v" where
  "watch recv_cb i d = (\<lambda>(calls, v). let (retained, v') = recv_cb i d v in (retained, calls @ [(i, d, retained)], v'))"

definition kept :: "(nat \<times> bytes \<times> bool) list \<Rightarrow> nat list" where
  "kept calls = map fst (filter (\<lambda>(i, d, retained). retained) calls)"

lemma kept_append [simp]: "kept (xs @ ys) = kept xs @ kept ys" "kept [] = []"
  by (simp_all add: kept_def)

lemma release_back:
  assumes "pool_free (recv_pool t) ys" and "\<And>i. slot = Some i \<Longrightarrow> i < WG_RECV_POOL_SIZE \<and> i \<notin> set ys"
  shows "pool_free (recv_pool (release_slot t slot)) (case slot of None \<Rightarrow> ys | Some i \<Rightarrow> i # ys)"
proof (cases slot)
  case None
  then show ?thesis using assms(1) by (simp add: release_slot_def wg_recv_pool_release_def)
next
  case (Some i)
  then show ?thesis using pool_free_release [OF assms(1)] assms(2) by (simp add: release_slot_def)
qed

text \<open>
  With \<open>xs\<close> the free list before it, a round calls the consumer at most once, with the first of \<open>xs\<close>, and
  leaves \<open>xs\<close> free but for this slot if the consumer keeps it.
\<close>

lemma round_pool:
  assumes pf: "pool_free (recv_pool tun) xs"
    and "recv_thread_round recv_cb (tun, rv, u, w) = Some (tun', rv', u', w')"
  shows "u' = u \<and> pool_free (recv_pool tun') xs \<or>
    (\<exists>i ys d ret. xs = i # ys \<and> recv_cb i d u = (ret, u') \<and> pool_free (recv_pool tun') (if ret then ys else xs))"
proof -
  obtain slot pool where acq: "wg_recv_pool_acquire (recv_pool tun) = (slot, pool)" by fastforce
  define ys where "ys = tl xs"
  have pool: "pool_free pool ys" and slot: "slot = (case xs of [] \<Rightarrow> None | x # _ \<Rightarrow> Some x)"
    using pool_free_acquire [OF pf] acq pf by (cases xs; simp add: ys_def)+
  have xs: "xs = (case slot of None \<Rightarrow> ys | Some i \<Rightarrow> i # ys)" by (cases xs) (simp_all add: slot ys_def)
  have s: "i < WG_RECV_POOL_SIZE \<and> i \<notin> set ys" if "slot = Some i" for i
    using pf that xs chain_bound by (fastforce simp: pool_free_def)
  note given = release_back [of _ ys slot, OF _ s, folded xs]
  from round_shape [OF assms(2) acq pool] show ?thesis
  proof
    assume "\<exists>t. pool_free (recv_pool t) ys \<and> tun' = release_slot t slot \<and> u' = u"
    then show ?thesis using given by blast
  next
    assume "handed recv_cb slot ys (tun\<lparr>recv_pool := pool\<rparr>) rv u w tun' u'"
    then obtain t d where t: "pool_free (recv_pool t) ys" and h: "hand_over recv_cb t slot d u = (tun', u')"
      unfolding handed_def by blast
    show ?thesis
    proof (cases slot)
      case None
      then show ?thesis using h t xs by (simp add: hand_over_def)
    next
      case (Some i)
      obtain ret u1 where c: "recv_cb i d u = (ret, u1)" by fastforce
      show ?thesis
      proof (cases "has_recv_cb t")
        case True
        then have "recv_cb i d u = (ret, u') \<and> pool_free (recv_pool tun') (if ret then ys else xs)"
          using h t c Some given [OF t] by (auto simp: hand_over_def)
        moreover have "xs = i # ys" using xs by (simp add: Some)
        ultimately show ?thesis by blast
      next
        case False
        then show ?thesis using h Some given [OF t] by (simp add: hand_over_def)
      qed
    qed
  qed
qed

lemma round_slots:
  assumes pf: "pool_free (recv_pool tun) xs"
    and "recv_thread_round (watch recv_cb) (tun, rv, (calls, v), w) = Some (tun', rv', (calls', v'), w')"
  shows "\<exists>new zs. calls' = calls @ new \<and> xs = kept new @ zs \<and> pool_free (recv_pool tun') zs"
  using round_pool [OF assms]
proof
  assume "(calls', v') = (calls, v) \<and> pool_free (recv_pool tun') xs"
  then show ?thesis by (intro exI [of _ "[]"] exI [of _ xs]) simp
next
  assume "\<exists>i ys d ret. xs = i # ys \<and> watch recv_cb i d (calls, v) = (ret, calls', v') \<and>
    pool_free (recv_pool tun') (if ret then ys else xs)"
  then obtain i ys d ret where "xs = i # ys" "watch recv_cb i d (calls, v) = (ret, calls', v')"
      "pool_free (recv_pool tun') (if ret then ys else xs)" by blast
  then show ?thesis
    by (intro exI [of _ "[(i, d, ret)]"] exI [of _ "if ret then ys else xs"]) (auto simp: watch_def kept_def split_def Let_def)
qed

section \<open>Properties\<close>

text \<open>
  C24: Slots are neither lost nor used twice. From a pool whose free list is \<open>xs\<close>, after any number of
  rounds of the receive thread, whatever arrives and whatever the consumer does, the slots the
  consumer kept, in the order of its calls, are the first of \<open>xs\<close> and the others are the free list;
  every other slot taken, on every error path, has been given back.
\<close>

theorem recv_slots_conserved:
  assumes "pool_free (recv_pool tun) xs"
    and "recv_thread_func (watch recv_cb) stops (tun, rv, ([], v), w) = Some (tun', rv', (calls, v'), w')"
  shows "\<exists>zs. xs = kept calls @ zs \<and> pool_free (recv_pool tun') zs"
proof -
  have "\<exists>new zs. calls = pre @ new \<and> xs = kept new @ zs \<and> pool_free (recv_pool tun') zs"
    if "recv_thread_func (watch recv_cb) stops (tun, rv, (pre, v), w) = Some (tun', rv', (calls, v'), w')"
      and "pool_free (recv_pool tun) xs" for pre
    using that
  proof (induction stops arbitrary: tun rv pre v w xs)
    case Nil
    then show ?case by auto
  next
    case (Cons stop stops)
    show ?case
    proof (cases stop)
      case True
      then show ?thesis using Cons.prems by auto
    next
      case False
      then obtain tun1 rv1 calls1 v1 w1 where r: "recv_thread_round (watch recv_cb) (tun, rv, (pre, v), w) = Some (tun1, rv1, (calls1, v1), w1)"
        using Cons.prems(1) by (auto split: option.splits)
      obtain new zs where n: "calls1 = pre @ new" "xs = kept new @ zs" "pool_free (recv_pool tun1) zs"
        using round_slots [OF Cons.prems(2) r] by blast
      have "recv_thread_func (watch recv_cb) stops (tun1, rv1, (calls1, v1), w1) = Some (tun', rv', (calls, v'), w')"
        using Cons.prems(1) False r by simp
      from Cons.IH [OF this n(3)] n(1,2) show ?thesis by fastforce
    qed
  qed
  from this [OF assms(2,1)] show ?thesis by simp
qed

theorem recv_slots_conserved_witness:
  "\<exists>pool tun' rv' calls w' zs.
     wg_recv_pool_init True True (Some \<lparr>slots = None, free_head = None, initialized = False\<rparr>) = (0, Some pool) \<and>
     recv_thread_func (watch (\<lambda>i d v. (True, v))) [False, False, True]
       (zero_tunnel\<lparr>recv_pool := pool\<rparr>, \<lparr>total_recv = 0, last_log = 0, fallback_packet = replicate 2048 0\<rparr>, ([], ()),
        quiet_world\<lparr>relay_send := False\<rparr>) = Some (tun', rv', (calls, ()), w') \<and>
     rev [0..<256] = kept calls @ zs \<and> pool_free (recv_pool tun') zs"
proof -
  obtain pool where i: "wg_recv_pool_init True True (Some \<lparr>slots = None, free_head = None, initialized = False\<rparr>) = (0, Some pool)"
    by (simp add: wg_recv_pool_init_def split_def Let_def)
  define tun where "tun = zero_tunnel\<lparr>recv_pool := pool\<rparr>"
  have p: "pool_free (recv_pool tun) (rev [0..<256])" using pool_free_init [OF i] by (simp add: tun_def WG_RECV_POOL_SIZE_def)
  have idle: "\<exists>st'. recv_thread_round (watch (\<lambda>i d v. (True, v))) (t, rv, (c, ()), w) = Some st' \<and>
      relay_send (snd (snd (snd st'))) = relay_send w \<and> udp_outcomes (snd (snd (snd st'))) = udp_outcomes w"
    if "\<not> relay_send w" "udp_outcomes w = udp_outcomes quiet_world" for t rv c w
    using that by (simp add: recv_thread_round_def wg_socket_recv_def quiet_world_def wg_time_now_def Let_def split_def)
  have "\<exists>st'. recv_thread_func (watch (\<lambda>i d v. (True, v))) stops (t, rv, (c, ()), w) = Some st'"
    if "\<not> relay_send w" "udp_outcomes w = udp_outcomes quiet_world" for stops t rv c w
    using that
  proof (induction stops arbitrary: t rv c w)
    case (Cons s stops)
    obtain t1 rv1 c1 u1 w1 where "recv_thread_round (watch (\<lambda>i d v. (True, v))) (t, rv, (c, ()), w) = Some (t1, rv1, (c1, u1), w1)"
        "\<not> relay_send w1" "udp_outcomes w1 = udp_outcomes quiet_world"
      using idle [OF Cons.prems, of t rv c] Cons.prems by (metis prod_cases5 snd_conv)
    then show ?case using Cons.IH [of w1 t1 rv1 c1] by simp
  qed simp
  from this [of "quiet_world\<lparr>relay_send := False\<rparr>" "[False, False, True]" tun
      "\<lparr>total_recv = 0, last_log = 0, fallback_packet = replicate 2048 0\<rparr>" "[]"]
  obtain st where st: "recv_thread_func (watch (\<lambda>i d v. (True, v))) [False, False, True]
      (tun, \<lparr>total_recv = 0, last_log = 0, fallback_packet = replicate 2048 0\<rparr>, ([], ()), quiet_world\<lparr>relay_send := False\<rparr>) =
      Some st" by (auto simp del: recv_thread_func.simps)
  obtain tun' rv' calls u' w' where "st = (tun', rv', (calls, u'), w')" by (cases st) auto
  then have r: "recv_thread_func (watch (\<lambda>i d v. (True, v))) [False, False, True]
      (tun, \<lparr>total_recv = 0, last_log = 0, fallback_packet = replicate 2048 0\<rparr>, ([], ()), quiet_world\<lparr>relay_send := False\<rparr>) =
      Some (tun', rv', (calls, ()), w')" using st by simp
  from recv_slots_conserved [OF p r] i r show ?thesis unfolding tun_def by blast
qed

text \<open>
  The session a receiver index stands for. A peer answers to the indices of its valid sessions, and the first peer
  that does goes before the tunnel's own sessions. Of these the current one has two indices, its own and the one
  before its last handshake.
\<close>

definition peer_answers :: "WgTunnel \<Rightarrow> u32 \<Rightarrow> nat \<Rightarrow> bool" where
  "peer_answers tun idx i \<longleftrightarrow> i < peer_count tun \<and> configured (peers tun ! i) \<and>
     (valid (p_session (peers tun ! i)) \<and> local_index (p_session (peers tun ! i)) = idx \<or>
      valid (p_prev_session (peers tun ! i)) \<and> local_index (p_prev_session (peers tun ! i)) = idx)"

fun addressed :: "WgTunnel \<Rightarrow> u32 \<Rightarrow> sess_ref \<Rightarrow> bool" where
  "addressed tun idx (PeerCur i) \<longleftrightarrow> peer_answers tun idx i \<and> (\<forall>j<i. \<not> peer_answers tun idx j) \<and>
     local_index (p_session (peers tun ! i)) = idx"
| "addressed tun idx (PeerPrev i) \<longleftrightarrow> peer_answers tun idx i \<and> (\<forall>j<i. \<not> peer_answers tun idx j) \<and>
     local_index (p_session (peers tun ! i)) \<noteq> idx"
| "addressed tun idx OwnCur \<longleftrightarrow> (\<forall>i. \<not> peer_answers tun idx i) \<and>
     (local_index (session tun) = idx \<or> old_local_index (session tun) = idx)"
| "addressed tun idx OwnPrev \<longleftrightarrow> (\<forall>i. \<not> peer_answers tun idx i) \<and> local_index (session tun) \<noteq> idx \<and>
     old_local_index (session tun) \<noteq> idx \<and> valid (prev_session tun) \<and> local_index (prev_session tun) = idx"

lemma find_peer_answers:
  "wg_find_peer_by_local_index (Some tun) idx = Some i \<longleftrightarrow> peer_answers tun idx i \<and> (\<forall>j<i. \<not> peer_answers tun idx j)"
  "wg_find_peer_by_local_index (Some tun) idx = None \<longleftrightarrow> (\<forall>i. \<not> peer_answers tun idx i)"
  by (auto simp: wg_find_peer_by_local_index_def find_Some_iff find_None_iff peer_answers_def Let_def)

lemma find_session_addressed: "snd (find_session tun idx) = Some r \<longleftrightarrow> addressed tun idx r"
proof (cases "wg_find_peer_by_local_index (Some tun) idx")
  case None
  then have "\<not> peer_answers tun idx i" for i by (simp add: find_peer_answers)
  with None show ?thesis by (cases r) (auto simp: find_session_def)
next
  case (Some i)
  then have i: "peer_answers tun idx i" "\<And>j. j < i \<Longrightarrow> \<not> peer_answers tun idx j" by (simp_all add: find_peer_answers)
  then have u: "peer_answers tun idx j \<and> (\<forall>k<j. \<not> peer_answers tun idx k) \<and> Q \<longleftrightarrow> j = i \<and> Q" for j Q
    by (metis linorder_neqE_nat)
  have o: "\<not> (\<forall>i. \<not> peer_answers tun idx i)" using i(1) by blast
  have "snd (find_session tun idx) = Some (if local_index (p_session (peers tun ! i)) = idx then PeerCur i else PeerPrev i)"
    using Some i(1) by (cases "local_index (p_session (peers tun ! i)) = idx") (auto simp: find_session_def peer_answers_def)
  then show ?thesis by (cases r) (simp_all only: addressed.simps u o option.inject, auto)
qed

text \<open>What makes a packet acceptable to the sessions of a tunnel, with its text.\<close>

definition authentic :: "WgTunnel \<Rightarrow> bytes \<Rightarrow> bytes \<Rightarrow> u64 \<Rightarrow> bool" where
  "authentic tun p m now \<longleftrightarrow>
     (let t = transport_of_bytes p
      in tr_type t = WG_MSG_TRANSPORT \<and>
         (\<exists>r. addressed tun (tr_receiver_index t) r \<and>
            tr_encrypted_data t = wg_aead_encrypt (receiving_key (get_sess tun r)) (tr_counter t) m [] \<and>
            fst (wg_counter_validate (replay (get_sess tun r)) (tr_counter t)) \<and>
            now - last_handshake (get_sess tun r) < WG_REJECT_AFTER_TIME * NS))"

lemma recv_data_deliver:
  assumes "recv_data tun n packet w = (tun', packet', w', True)" and "tr_type (transport_of_bytes (take n packet)) = WG_MSG_TRANSPORT"
    and "32 \<le> n" "n \<le> length packet"
  shows "authentic tun (take n packet) (take (n - 32) (drop 16 packet')) (fst (wg_time_now w))"
proof -
  let ?t = "transport_of_bytes (take n packet)"
  obtain peer sess where f: "find_session tun (tr_receiver_index ?t) = (peer, sess)" by fastforce
  note d = assms(1) [unfolded recv_data_def Let_def split_def f fst_conv snd_conv sizeof_transport_def WG_AEAD_TAG_LEN_def]
  obtain r where r: "sess = Some r" using d by (cases sess) simp_all
  note d = d [unfolded r option.case]
  let ?d = "wg_aead_decrypt (receiving_key (get_sess tun r)) (tr_counter ?t) (tr_encrypted_data ?t) []"
  have young: "\<not> WG_REJECT_AFTER_TIME * NS \<le> fst (wg_time_now w) - last_handshake (get_sess tun r)"
    using d by (rule contrapos_pn) simp
  note d = d [unfolded if_not_P [OF young]]
  have more: "n - 16 - 16 \<noteq> 0"
    using d by (rule contrapos_pn) (cases peer; simp)
  note d = d [unfolded if_not_P [OF more]]
  obtain m where m: "?d = Some m" using d by (cases ?d) simp_all
  note d = d [unfolded m option.case]
  have fresh: "fst (wg_counter_validate (replay (get_sess tun r)) (tr_counter ?t))"
    by (rule ccontr) (use d in simp)
  have p: "packet' = memcpy_at packet 16 m" using d fresh by simp
  have e: "tr_encrypted_data ?t = wg_aead_encrypt (receiving_key (get_sess tun r)) (tr_counter ?t) m []"
    using m by (simp add: aead_decrypt_iff)
  moreover have "length (tr_encrypted_data ?t) = n - 16" using assms(4) by (simp add: transport_of_bytes_def)
  ultimately have "length m = n - 32" by simp
  then have "take (n - 32) (drop 16 packet') = m" using assms(3,4) by (simp add: p memcpy_at_def)
  moreover have "addressed tun (tr_receiver_index ?t) r" using f r by (simp flip: find_session_addressed)
  ultimately show ?thesis using assms(2) e fresh young
    unfolding authentic_def Let_def by (intro conjI exI [of _ r]) (simp_all add: not_le)
qed

definition sessions :: "WgTunnel \<Rightarrow> WgSession \<times> WgSession \<times> WgPeer list \<times> nat" where
  "sessions tun = (session tun, prev_session tun, peers tun, peer_count tun)"

lemma get_sess_cong: "sessions tun' = sessions tun \<Longrightarrow> get_sess tun' r = get_sess tun r"
  by (cases r) (simp_all add: sessions_def)

lemma find_session_cong: "sessions tun' = sessions tun \<Longrightarrow> find_session tun' i = find_session tun i"
  unfolding sessions_def find_session_def wg_find_peer_by_local_index_def Let_def option.case by (simp only: prod.inject)

lemma authentic_cong: "sessions tun' = sessions tun \<Longrightarrow> authentic tun' p m now = authentic tun p m now"
  unfolding authentic_def Let_def find_session_addressed [symmetric] using find_session_cong [of tun' tun] get_sess_cong [of tun' tun] by presburger

lemma sessions_socket_recv:
  "wg_socket_recv tun buf len timeout_ms w = Some (r, buf', tun', w') \<Longrightarrow> sessions tun' = sessions tun"
  by (auto simp: wg_socket_recv_def sessions_def wg_time_now_def Let_def
    split: if_splits option.splits prod.splits sum.splits)

lemma sessions_store: "store_packet tun rv slot packet = (tun', rv') \<Longrightarrow> sessions tun' = sessions tun"
  by (auto simp: store_packet_def sessions_def Let_def split: option.splits)

lemma handed_authentic:
  assumes "handed recv_cb slot ys tun rv u w tun' u'"
  shows "\<exists>n packet tun1 w1 tun4 d. wg_socket_recv tun (packet_buf tun rv slot) 2048 100 w = Some (Inr n, packet, tun1, w1) \<and>
    authentic tun (take n packet) d (fst (wg_time_now w1)) \<and> hand_over recv_cb tun4 slot d u = (tun', u')"
proof -
  from assms obtain n packet tun1 w1 tun2 rv2 tun3 packet' w3 tun4 where
      s: "wg_socket_recv tun (packet_buf tun rv slot) 2048 100 w = Some (Inr n, packet, tun1, w1)" and n: "32 \<le> n"
    and t: "tr_type (transport_of_bytes packet) = WG_MSG_TRANSPORT" and st: "store_packet tun1 rv slot packet = (tun2, rv2)"
    and rd: "recv_data tun2 n packet w1 = (tun3, packet', w3, True)"
    and h: "hand_over recv_cb tun4 slot (take (n - 32) (drop 16 packet')) u = (tun', u')"
    unfolding handed_def by blast
  have len: "n \<le> length packet" using socket_recv_keeps(4) [OF s] by fastforce
  have "tr_type (transport_of_bytes (take n packet)) = WG_MSG_TRANSPORT"
    using t n by (simp add: transport_of_bytes_def)
  note a = recv_data_deliver [OF rd this n len]
  have "sessions tun2 = sessions tun" using sessions_socket_recv [OF s] sessions_store [OF st] by (rule trans [rotated])
  from authentic_cong [OF this] a
  have "authentic tun (take n packet) (take (n - 32) (drop 16 packet')) (fst (wg_time_now w1))" by (rule iffD1)
  then show ?thesis using s h by blast
qed

text \<open>
  C4: What the consumer is given. A round of the receive thread calls the consumer at most once. If it
  does, the text is the one sealed in the packet just received, under the receiving key and the
  packet's counter of the session the packet is addressed to, the counter is new to the session's
  window, the session is younger than 180 seconds, and the slot is the first of the free list. Addressed is the
  session of the first peer with a valid session of that index, its current one if the index is that one's; if no
  peer has one, the tunnel's own session, for its index and, whether or not a rekey is in progress, for the index it
  had before; and else the tunnel's valid previous session of that index.
\<close>

theorem delivery_authentic:
  assumes "pool_free (recv_pool tun) xs"
    and "recv_thread_round (watch recv_cb) (tun, rv, (calls, v), w) = Some (tun', rv', (calls', v'), w')"
  shows "calls' = calls \<or>
    (\<exists>i zs d retained buf n packet tun1 w1. xs = i # zs \<and> calls' = calls @ [(i, d, retained)] \<and>
       wg_socket_recv (tun\<lparr>recv_pool := snd (wg_recv_pool_acquire (recv_pool tun))\<rparr>) buf 2048 100 w = Some (Inr n, packet, tun1, w1) \<and>
       authentic tun (take n packet) d (fst (wg_time_now w1)))"
proof -
  obtain slot pool where acq: "wg_recv_pool_acquire (recv_pool tun) = (slot, pool)" by fastforce
  have pool: "pool_free pool (tl xs)" and slot: "slot = (case xs of [] \<Rightarrow> None | x # _ \<Rightarrow> Some x)"
    using pool_free_acquire [OF assms(1)] acq assms(1) by (cases xs; simp)+
  from round_shape [OF assms(2) acq pool] show ?thesis
  proof
    assume "handed (watch recv_cb) slot (tl xs) (tun\<lparr>recv_pool := pool\<rparr>) rv (calls, v) w tun' (calls', v')"
    from handed_authentic [OF this] obtain buf n packet tun1 w1 tun4 d where
        s: "wg_socket_recv (tun\<lparr>recv_pool := pool\<rparr>) buf 2048 100 w = Some (Inr n, packet, tun1, w1)"
      and a: "authentic (tun\<lparr>recv_pool := pool\<rparr>) (take n packet) d (fst (wg_time_now w1))"
      and h: "hand_over (watch recv_cb) tun4 slot d (calls, v) = (tun', calls', v')" by blast
    have "authentic tun (take n packet) d (fst (wg_time_now w1))"
      using a authentic_cong [of "tun\<lparr>recv_pool := pool\<rparr>" tun] by (simp add: sessions_def)
    moreover have "calls' = calls \<or> (\<exists>i zs retained. xs = i # zs \<and> calls' = calls @ [(i, d, retained)])"
      using h slot by (cases xs) (auto simp: hand_over_def watch_def split: if_splits prod.splits)
    ultimately show ?thesis using s acq by (metis snd_conv)
  qed auto
qed

lemma validate_first: "fst (wg_counter_validate replay_init 0)"
  using validate_refines [OF ring_rel_init, of 0] by (simp add: aliased_def live_def out_of_range_def)

lemma take_packet [simp]: "take (32 + length m) (transport_packet s m @ junk) = transport_packet s m"
  by simp

lemma zero_session_delivers:
  assumes "session tun = zero_session" and "wg_find_peer_by_local_index (Some tun) 0 = None"
    and "fst (wg_time_now w) < WG_REJECT_AFTER_TIME * NS" and "m \<noteq> []"
  shows "\<exists>tun' w'. recv_data tun (32 + length m) (transport_packet zero_session m @ junk) w =
    (tun', take 16 (transport_packet zero_session m) @ m @ drop (16 + length m) (transport_packet zero_session m @ junk), w', True)"
proof -
  let ?p = "transport_packet zero_session m"
  have z: "remote_index zero_session = 0" "sending_counter zero_session = 0" "local_index zero_session = 0"
    "last_handshake zero_session = 0" "replay zero_session = replay_init" "sending_key zero_session = receiving_key zero_session"
    by (simp_all add: zero_session_def)
  have f: "find_session tun 0 = (None, Some OwnCur)"
    using assms(1,2) by (simp add: find_session_def z)
  have d: "wg_aead_decrypt (receiving_key zero_session) 0 (wg_aead_encrypt (receiving_key zero_session) 0 m []) [] = Some m"
    by (simp add: aead_decrypt_iff)
  have "\<not> WG_REJECT_AFTER_TIME * NS \<le> fst (wg_time_now w)" using assms(3) by simp
  moreover have "memcpy_at (?p @ junk) 16 m = take 16 ?p @ m @ drop (16 + length m) (?p @ junk)"
    by (simp add: memcpy_at_def)
  ultimately show ?thesis
    using assms(1,4) unfolding recv_data_def take_packet packet_fields
    by (simp add: f z d validate_first sizeof_transport_def WG_AEAD_TAG_LEN_def split_def Let_def)
qed

lemma arrives_recv_ticks:
  assumes "arrives w timeout_ms p"
  shows "\<exists>w'. wg_socket_recv tun buf WG_MAX_PACKET_SIZE timeout_ms w = Some (Inr (length p), memcpy_at buf 0 p, tun, w') \<and> ticks w' = ticks w"
  using assms
  by (auto simp: arrives_def wg_socket_recv_def wg_time_now_def Let_def split: option.splits prod.splits sum.splits)

lemma zero_key_round:
  assumes pool: "pool_free (recv_pool tun) (i # xs)" and cb: "has_recv_cb tun"
    and tun: "session tun = zero_session" "wg_find_peer_by_local_index (Some tun) 0 = None"
    and p: "arrives w 100 (transport_packet zero_session m)" "m \<noteq> []" and t: "\<And>n. ticks w n < WG_REJECT_AFTER_TIME * NS"
  shows "\<exists>tun' rv' w'. recv_thread_round recv_cb (tun, rv, u, w) = Some (tun', rv', snd (recv_cb i m u), w')"
proof -
  let ?p = "transport_packet zero_session m"
  obtain pool where a: "wg_recv_pool_acquire (recv_pool tun) = (Some i, pool)"
    using pool_free_acquire [OF pool] by (simp add: prod_eq_iff)
  define tun0 where "tun0 = tun\<lparr>recv_pool := pool\<rparr>"
  define junk where "junk = drop (length ?p) (packet_buf tun0 rv (Some i))"
  obtain w1 where s: "wg_socket_recv tun0 (packet_buf tun0 rv (Some i)) WG_MAX_PACKET_SIZE 100 w =
      Some (Inr (32 + length m), ?p @ junk, tun0, w1)" and w1: "ticks w1 = ticks w"
    using arrives_recv_ticks [OF p(1), of tun0 "packet_buf tun0 rv (Some i)"] unfolding memcpy_start junk_def packet_length by blast
  obtain tun1 rv1 where st: "store_packet tun0 rv (Some i) (?p @ junk) = (tun1, rv1)" by fastforce
  have tun1: "session tun1 = zero_session" "wg_find_peer_by_local_index (Some tun1) 0 = None" "has_recv_cb tun1"
    using st tun cb by (auto simp: store_packet_def tun0_def wg_find_peer_by_local_index_def Let_def)
  define packet where "packet = take 16 ?p @ m @ drop (16 + length m) (?p @ junk)"
  obtain tun2 w2 where d: "recv_data tun1 (32 + length m) (?p @ junk) w1 = (tun2, packet, w2, True)"
    using zero_session_delivers [OF tun1(1,2) _ p(2), of w1 junk] t w1 unfolding packet_def by (auto simp: wg_time_now_def)
  obtain tun3 rv3 where st': "store_packet tun2 (rv1\<lparr>total_recv := total_recv rv1 + 1\<rparr>) (Some i) packet = (tun3, rv3)" by fastforce
  have "has_recv_cb tun2" using rx_data [of tun1 "32 + length m" "?p @ junk" w1] tun1(3) by (simp add: d rx_def)
  then have cb3: "has_recv_cb tun3" using st' by (auto simp: store_packet_def Let_def)
  have m: "take (length m) (drop 16 packet) = m" by (simp add: packet_def)
  have ty: "tr_type (transport_of_bytes (?p @ junk)) = WG_MSG_TRANSPORT"
    by (simp add: transport_packet_def transport_bytes_def transport_of_bytes_def)
  obtain retained u1 where c: "recv_cb i m u = (retained, u1)" by fastforce
  show ?thesis
    unfolding recv_thread_round_def
    by (simp add: a tun0_def [symmetric] s st ty d st' hand_over_def cb3 c m sizeof_transport_def WG_AEAD_TAG_LEN_def)
qed

lemma fresh_pool:
  obtains pool where "wg_recv_pool_init True True (Some \<lparr>slots = None, free_head = None, initialized = False\<rparr>) = (0, Some pool)"
    "pool_free pool (255 # rev [0..<255])"
proof -
  obtain pool where i: "wg_recv_pool_init True True (Some \<lparr>slots = None, free_head = None, initialized = False\<rparr>) = (0, Some pool)"
    by (simp add: wg_recv_pool_init_def split_def Let_def)
  have "[0..<Suc 255] = [0..<255] @ [255]" by (rule upt_Suc_append) simp
  moreover have "Suc 255 = WG_RECV_POOL_SIZE" by (simp add: WG_RECV_POOL_SIZE_def)
  ultimately have "rev [0..<WG_RECV_POOL_SIZE] = 255 # rev [0..<255]" by simp
  with pool_free_init [OF i] i show thesis using that by simp
qed

theorem delivery_authentic_witness:
  "\<exists>pool tun' rv' retained v' w'. let T = zero_tunnel\<lparr>recv_pool := pool, has_recv_cb := True\<rparr> in
     wg_recv_pool_init True True (Some \<lparr>slots = None, free_head = None, initialized = False\<rparr>) = (0, Some pool) \<and>
     recv_thread_round (watch (\<lambda>i d v. (True, v)))
       (T, \<lparr>total_recv = 0, last_log = 0, fallback_packet = replicate 2048 0\<rparr>,
        ([], ()), world_with (transport_packet zero_session [1, 2, 3])) = Some (tun', rv', ([(255, [1, 2, 3], retained)], v'), w') \<and>
     (\<exists>n packet now. authentic T (take n packet) [1, 2, 3] now)"
proof -
  let ?p = "transport_packet zero_session [1, 2, 3]"
  obtain pool where i: "wg_recv_pool_init True True (Some \<lparr>slots = None, free_head = None, initialized = False\<rparr>) = (0, Some pool)"
    and p: "pool_free pool (255 # rev [0..<255])" by (rule fresh_pool)
  define T where "T = zero_tunnel\<lparr>recv_pool := pool, has_recv_cb := True\<rparr>"
  have pf: "pool_free (recv_pool T) (255 # rev [0..<255])" unfolding T_def using p by simp
  have T: "has_recv_cb T" "session T = zero_session" "wg_find_peer_by_local_index (Some T) 0 = None"
    by (simp_all add: T_def zero_tunnel_def wg_find_peer_by_local_index_def)
  have "?p \<noteq> []" by (simp flip: length_0_conv)
  then have a: "arrives (world_with ?p) 100 ?p" by (rule arrives_world_with) simp
  have t: "ticks (world_with ?p) n < WG_REJECT_AFTER_TIME * NS" for n
    by (simp add: world_with_def quiet_world_def wg_consts)
  obtain tun' rv' v' w' ret where r: "recv_thread_round (watch (\<lambda>i d v. (True, v)))
       (T, \<lparr>total_recv = 0, last_log = 0, fallback_packet = replicate 2048 0\<rparr>, ([], ()), world_with ?p) =
      Some (tun', rv', ([(255, [1, 2, 3], ret)], v'), w')"
    using zero_key_round [OF pf T a _ t, of "watch (\<lambda>i d v. (True, v))" _ "([], ())"] by (simp add: watch_def) blast
  from delivery_authentic [OF pf r] have "\<exists>n packet now. authentic T (take n packet) [1, 2, 3] now" by auto
  with i r show ?thesis unfolding Let_def T_def by blast
qed

text \<open>
  C36: A completed rekey strands the packets of the previous session. The previous session is kept, with its keys and
  its replay window, under the index it had; but that index is also the old index of the new session, which is looked at
  first, so that no receiver index ever leads to the previous session. A packet still sent under the previous keys is
  tried under the new key, and unless it opens under that one too it does not reach the consumer.
\<close>

theorem rekey_strands_packets:
  assumes "wg_handshake_response tun msg st w = (WG_OK, tun', st', w')" and "valid (session tun)"
  shows "valid (prev_session tun') \<and> receiving_key (prev_session tun') = receiving_key (session tun) \<and>
    replay (prev_session tun') = replay (session tun) \<and> local_index (prev_session tun') = old_local_index (session tun) \<and>
    (\<forall>idx. snd (find_session tun' idx) \<noteq> Some OwnPrev) \<and>
    (\<forall>n packet u. let t = transport_of_bytes (take n packet) in
       tr_receiver_index t = local_index (prev_session tun') \<and> (\<forall>i. \<not> peer_answers tun' (tr_receiver_index t) i) \<and>
       wg_aead_decrypt (receiving_key (session tun')) (tr_counter t) (tr_encrypted_data t) [] = None \<longrightarrow>
       \<not> snd (snd (snd (recv_data tun' n packet u))))"
proof -
  have k: "valid (prev_session tun')" "receiving_key (prev_session tun') = receiving_key (session tun)"
    "replay (prev_session tun') = replay (session tun)" "local_index (prev_session tun') = old_local_index (session tun)"
    "old_local_index (session tun') = old_local_index (session tun)"
    using assms by (auto simp: wg_handshake_response_def split_def Let_def split: if_splits)
  have "snd (find_session tun' idx) \<noteq> Some OwnPrev" for idx
    using k(4,5) by (simp add: find_session_addressed)
  moreover have "\<not> snd (snd (snd (recv_data tun' n packet u)))"
    if i: "tr_receiver_index (transport_of_bytes (take n packet)) = local_index (prev_session tun')"
      "\<forall>i. \<not> peer_answers tun' (tr_receiver_index (transport_of_bytes (take n packet))) i"
      and d: "wg_aead_decrypt (receiving_key (session tun')) (tr_counter (transport_of_bytes (take n packet)))
        (tr_encrypted_data (transport_of_bytes (take n packet))) [] = None" for n packet u
  proof -
    have "snd (find_session tun' (tr_receiver_index (transport_of_bytes (take n packet)))) = Some OwnCur"
      unfolding find_session_addressed addressed.simps using i k(4,5) by simp
    then obtain peer where f: "find_session tun' (tr_receiver_index (transport_of_bytes (take n packet))) = (peer, Some OwnCur)"
      by (metis prod.collapse)
    show ?thesis unfolding recv_data_def Let_def split_def f by (simp add: d split: option.splits)
  qed
  ultimately show ?thesis using k unfolding Let_def by blast
qed

theorem rekey_strands_packets_witness:
  "let k = clamp_key (replicate 32 0);
       A = zero_tunnel\<lparr>static_private := k, static_public := crypto_x25519_public_key k,
             peer_public := crypto_x25519_public_key k, session := zero_session\<lparr>valid := True, local_index := 7\<rparr>\<rparr>;
       (_, A1, msg, st, _) = wg_handshake_init A zero_hs quiet_world
   in \<exists>resp A2 st' w3. wg_handshake_response A1 resp st quiet_world = (WG_OK, A2, st', w3) \<and>
        valid (prev_session A2) \<and> local_index (prev_session A2) = 7 \<and> snd (find_session A2 7) \<noteq> Some OwnPrev"
proof -
  define k where "k = clamp_key (replicate 32 0)"
  define A where "A = zero_tunnel\<lparr>static_private := k, static_public := crypto_x25519_public_key k,
    peer_public := crypto_x25519_public_key k, session := zero_session\<lparr>valid := True, local_index := 7\<rparr>\<rparr>"
  obtain err1 A1 msg st w1 where i: "wg_handshake_init A zero_hs quiet_world = (err1, A1, msg, st, w1)"
    by (metis prod_cases5)
  obtain err2 B1 u1 where a: "wg_handshake_init_process A (init_of_bytes (init_bytes msg @ [])) quiet_world = (err2, B1, u1)"
    by (metis prod_cases3)
  have rnd: "fst (randomGet 32 quiet_world) = replicate 32 0"
    "fst (randomGet 32 (snd (wg_random_index quiet_world))) = replicate 32 0"
    by (simp_all add: randomGet_def quiet_world_def wg_random_index_def wg_random_u32_def map_replicate_const)
  have h: "static_public A = crypto_x25519_public_key (static_private A)"
      "peer_public A = crypto_x25519_public_key (static_private A)" "table_ok A" "relay_send quiet_world"
      "static_private A = k" "dh_agree k k"
    by (simp_all add: A_def table_ok_def zero_tunnel_def quiet_world_def dh_agree_def)
  note pairs = handshake_pairs [OF h(1,2,1,3) refl h(4), of k k, unfolded rnd k_def [symmetric] h(5),
    OF h(6) h(6) h(6) h(6) _ refl i a]
  obtain resp where run: "\<And>w2 err3 A2 st' w3. wg_handshake_response A1 resp st w2 = (err3, A2, st', w3) \<Longrightarrow> err3 = WG_OK"
    using pairs unfolding rnd k_def [symmetric] by blast
  obtain err3 A2 st' w3 where "wg_handshake_response A1 resp st quiet_world = (err3, A2, st', w3)" by (metis prod_cases4)
  then have r: "wg_handshake_response A1 resp st quiet_world = (WG_OK, A2, st', w3)" using run by blast
  have "valid (session A1)" "old_local_index (session A1) = 7"
    using i by (auto simp: wg_handshake_init_def A_def split_def Let_def split: if_splits)
  then show ?thesis using rekey_strands_packets [OF r] r
    unfolding k_def [symmetric] A_def [symmetric] Let_def i by auto
qed

text \<open>
  C37: The wiped session accepts packets. While the tunnel has no session with anybody, in the passive mode of
  \<open>wg_start\<close>, a packet for index 0 sealed with the all-zero key is decrypted and handed to the consumer, as long
  as the system clock has not passed 180 seconds: the thread does not check that the tunnel's own
  session is valid.
\<close>

theorem zero_key_accepted:
  assumes "pool_free (recv_pool tun) (i # xs)" and "has_recv_cb tun" and "table_ok tun"
    and "session tun = zero_session" and "\<forall>p\<in>set (peers tun). \<not> valid (p_session p) \<and> \<not> valid (p_prev_session p)"
    and "arrives w 100 (transport_packet zero_session m)" "m \<noteq> []" and "\<forall>n. ticks w n < 180 * NS"
  shows "\<exists>tun' rv' v' w' retained. recv_thread_round (watch recv_cb) (tun, rv, ([], v), w) =
    Some (tun', rv', ([(i, m, retained)], v'), w')"
proof -
  have "wg_find_peer_by_local_index (Some tun) 0 = None"
    using assms(3,5) by (auto simp: wg_find_peer_by_local_index_def table_ok_def find_None_iff Let_def)
  moreover have "\<And>n. ticks w n < WG_REJECT_AFTER_TIME * NS" using assms(8) by (simp add: WG_REJECT_AFTER_TIME_def)
  ultimately show ?thesis using zero_key_round [OF assms(1,2,4) _ assms(6,7), of "watch recv_cb" rv "([], v)"]
    by (simp add: watch_def split_def Let_def) blast
qed

theorem zero_key_accepted_witness:
  "\<exists>pool tun' rv' retained w'.
     wg_recv_pool_init True True (Some \<lparr>slots = None, free_head = None, initialized = False\<rparr>) = (0, Some pool) \<and>
     recv_thread_round (watch (\<lambda>i d v. (False, v)))
       (zero_tunnel\<lparr>recv_pool := pool, has_recv_cb := True\<rparr>, \<lparr>total_recv = 0, last_log = 0, fallback_packet = []\<rparr>,
        ([], ()), world_with (transport_packet zero_session [7])) = Some (tun', rv', ([(255, [7], retained)], ()), w')"
proof -
  let ?p = "transport_packet zero_session [7]"
  obtain pool where i: "wg_recv_pool_init True True (Some \<lparr>slots = None, free_head = None, initialized = False\<rparr>) = (0, Some pool)"
    and p: "pool_free pool (255 # rev [0..<255])" by (rule fresh_pool)
  define T where "T = zero_tunnel\<lparr>recv_pool := pool, has_recv_cb := True\<rparr>"
  have pf: "pool_free (recv_pool T) (255 # rev [0..<255])" unfolding T_def using p by simp
  have T: "has_recv_cb T" "table_ok T" "session T = zero_session" "\<forall>p\<in>set (peers T). \<not> valid (p_session p) \<and> \<not> valid (p_prev_session p)"
    by (auto simp: T_def zero_tunnel_def table_ok_def zero_peer_def zero_session_def)
  have "?p \<noteq> []" by (simp flip: length_0_conv)
  then have a: "arrives (world_with ?p) 100 ?p" by (rule arrives_world_with) simp
  have t: "\<forall>n. ticks (world_with ?p) n < 180 * NS" by (simp add: world_with_def quiet_world_def wg_consts)
  from zero_key_accepted [OF pf T a _ t, of "\<lambda>i d v. (False, v)" "\<lparr>total_recv = 0, last_log = 0, fallback_packet = []\<rparr>" "()"]
  obtain tun' rv' w' ret where "recv_thread_round (watch (\<lambda>i d v. (False, v)))
      (T, \<lparr>total_recv = 0, last_log = 0, fallback_packet = []\<rparr>, ([], ()), world_with ?p) =
      Some (tun', rv', ([(255, [7], ret)], ()), w')" by (auto simp del: split_paired_Ex)
  with i show ?thesis unfolding T_def by blast
qed

text \<open>
  C38: Keepalives are not authenticated. An empty packet addressed to the current session of a peer, if
  that session is younger than 180 seconds,
  whatever its 16 bytes of authentication tag and its counter, marks the peer as connected and renews the
  time of the last reception, which decides about keepalives. It does not reach the consumer.
\<close>

theorem forged_keepalive:
  assumes "find_session tun (tr_receiver_index (transport_of_bytes (take 32 packet))) = (Some i, Some (PeerCur i))"
    and "i < length (peers tun)"
    and "ticks w (tick_pos w) - last_handshake (p_session (peers tun ! i)) < 180 * NS"
  shows "let (tun', packet', w', deliver) = recv_data tun 32 packet w; p = peers tun' ! i
    in \<not> deliver \<and> connected p \<and> last_received (p_session p) = ticks w (tick_pos w + 1) \<and>
       p_last_sent p = ticks w (tick_pos w + 2)"
proof -
  have "\<not> WG_REJECT_AFTER_TIME * NS \<le> ticks w (tick_pos w) - last_handshake (p_session (peers tun ! i))"
    using assms(3) by (simp add: WG_REJECT_AFTER_TIME_def)
  then show ?thesis using assms(1,2)
    by (simp add: recv_data_def wg_time_now_def set_peer_def sizeof_transport_def WG_AEAD_TAG_LEN_def)
qed

theorem forged_keepalive_witness:
  "let p = zero_peer\<lparr>configured := True, p_session := zero_session\<lparr>valid := True, local_index := 5\<rparr>\<rparr>;
       tun = zero_tunnel\<lparr>peers := [p], peer_count := 1\<rparr>;
       (tun', packet', w', deliver) = recv_data tun 32 ([4, 0, 0, 0, 5, 0, 0, 0] @ replicate 24 0xff) quiet_world
   in \<not> connected p \<and> connected (peers tun' ! 0)"
proof -
  define p where "p = zero_peer\<lparr>configured := True, p_session := zero_session\<lparr>valid := True, local_index := 5\<rparr>\<rparr>"
  define tun where "tun = zero_tunnel\<lparr>peers := [p], peer_count := 1\<rparr>"
  let ?k = "[4, 0, 0, 0, 5, 0, 0, 0] @ replicate 24 0xff :: bytes"
  have "tr_receiver_index (transport_of_bytes (take 32 ?k)) = 5"
    by (simp add: transport_of_bytes_def load32_le_def)
  moreover have "find_session tun 5 = (Some 0, Some (PeerCur 0))"
    by (simp add: find_session_def wg_find_peer_by_local_index_def tun_def p_def)
  ultimately have f: "find_session tun (tr_receiver_index (transport_of_bytes (take 32 ?k))) = (Some 0, Some (PeerCur 0))" by simp
  have "0 < length (peers tun)"
    "ticks quiet_world (tick_pos quiet_world) - last_handshake (p_session (peers tun ! 0)) < 180 * NS"
    by (simp_all add: tun_def p_def quiet_world_def zero_session_def wg_consts)
  note k = forged_keepalive [OF f this]
  have "\<not> connected p" by (simp add: p_def zero_peer_def)
  with k show ?thesis unfolding p_def [symmetric] tun_def [symmetric] Let_def by (auto simp: Let_def)
qed

end
