(* ===== verification/Threads.thy ===== *)
theory Threads
  imports Prelude
begin

text \<open>
  The thread layer of \<open>src/wg_thread.c\<close>: results of the POSIX calls mapped to those of the program, the
  deadline of a timed wait, and the stop condition the threads wait on. What a POSIX call returns
  is an argument; a lock and its unlock around one access are one atomic step.
\<close>

section \<open>Model\<close>

definition wg_get_thread_limit :: "int \<Rightarrow> int \<Rightarrow> int" where
  "wg_get_thread_limit thread_cur thread_lim = thread_lim - thread_cur"

text \<open>\<open>limit\<close> is what \<open>wg_get_thread_limit\<close> returns, \<open>r\<close> the result of \<open>pthread_create\<close>.\<close>

definition wg_thread_create :: "int \<Rightarrow> int \<Rightarrow> int" where
  "wg_thread_create limit r = (if limit \<le> 1 then -1 else if r = 0 then 0 else -1)"

definition wg_thread_join :: "int \<Rightarrow> int" where
  "wg_thread_join r = (if r = 0 then 0 else -1)"

datatype WgThreadName = WG_THREAD_NAME_RELAY | WG_THREAD_NAME_RECV | WG_THREAD_NAME_SEND

text \<open>The core mask a thread asks for, if any, and the call of the installed callback.\<close>

definition wg_thread_set_affinity :: "WgThreadName \<Rightarrow> bool \<Rightarrow> nat option \<times> WgThreadName option" where
  "wg_thread_set_affinity name has_cb =
     (case name of WG_THREAD_NAME_RECV \<Rightarrow> Some 4 | _ \<Rightarrow> None, if has_cb then Some name else None)"

definition wg_mutex_init :: "int \<Rightarrow> int \<Rightarrow> int" where
  "wg_mutex_init attr_init mutex_init =
     (let r = attr_init in if r \<noteq> 0 then -1 else let r = mutex_init in if r = 0 then 0 else -1)"

definition EBUSY :: int where "EBUSY = 16"
definition ETIMEDOUT :: int where "ETIMEDOUT = 116"

definition wg_mutex_trylock :: "int \<Rightarrow> int" where
  "wg_mutex_trylock r = (if r = EBUSY then 1 else if r = 0 then 0 else -1)"

definition wg_cond_init :: "int \<Rightarrow> int \<Rightarrow> int \<Rightarrow> int" where
  "wg_cond_init attr_init setclock cond_init =
     (if attr_init \<noteq> 0 then -1 else if setclock \<noteq> 0 then -1 else if cond_init = 0 then 0 else -1)"

record timespec =
  tv_sec :: u64
  tv_nsec :: u64

definition deadline_after :: "timespec \<Rightarrow> u64 \<Rightarrow> timespec" where
  "deadline_after ts timeout_ms =
     (let ts = ts\<lparr>tv_sec := tv_sec ts + timeout_ms div 1000\<rparr>;
          ts = ts\<lparr>tv_nsec := tv_nsec ts + (timeout_ms mod 1000) * 1000000\<rparr>
      in if 1000000000 \<le> tv_nsec ts
         then ts\<lparr>tv_sec := tv_sec ts + tv_nsec ts div 1000000000, tv_nsec := tv_nsec ts mod 1000000000\<rparr>
         else ts)"

text \<open>\<open>wait\<close> is \<open>pthread_cond_timedwait\<close>, given the absolute deadline.\<close>

definition wg_cond_timedwait :: "timespec \<Rightarrow> (timespec \<Rightarrow> int) \<Rightarrow> u64 \<Rightarrow> int" where
  "wg_cond_timedwait now wait timeout_ms =
     (let r = wait (deadline_after now timeout_ms) in if r = ETIMEDOUT then 1 else if r = 0 then 0 else -1)"

record WgStopCond =
  pred :: bool

definition wg_stop_cond_init :: "int \<Rightarrow> int \<Rightarrow> WgStopCond \<Rightarrow> int \<times> WgStopCond" where
  "wg_stop_cond_init mutex_r cond_r c =
     (let c = c\<lparr>pred := False\<rparr>
      in if mutex_r \<noteq> 0 then (-1, c) else if cond_r \<noteq> 0 then (-1, c) else (0, c))"

definition wg_stop_cond_signal :: "WgStopCond \<Rightarrow> WgStopCond" where
  "wg_stop_cond_signal c = c\<lparr>pred := True\<rparr>"

definition wg_stop_cond_check :: "WgStopCond \<Rightarrow> bool" where
  "wg_stop_cond_check c = pred c"

text \<open>
  The timed wait: each element of \<open>obs\<close> is the result of one \<open>wg_cond_timedwait\<close> and the condition found
  after it, which other threads may have signalled. \<open>None\<close>: still waiting after these wake-ups.
\<close>

fun wg_stop_cond_timedwait :: "WgStopCond \<Rightarrow> (int \<times> WgStopCond) list \<Rightarrow> int option" where
  "wg_stop_cond_timedwait c obs =
     (if pred c then Some 0
      else
        (case obs of
           [] \<Rightarrow> None
         | (r, c') # obs \<Rightarrow>
             if r = 1 then Some 1 else if r \<noteq> 0 then Some (-1) else wg_stop_cond_timedwait c' obs))"

declare wg_stop_cond_timedwait.simps [simp del]

section \<open>Facts\<close>

text \<open>A deadline is normalised and exactly the timeout after the time it is computed from.\<close>

definition ns_of :: "timespec \<Rightarrow> nat" where
  "ns_of ts = unat (tv_sec ts) * 10 ^ 9 + unat (tv_nsec ts)"

lemma deadline_after_ns:
  assumes "unat (tv_nsec ts) < 10 ^ 9" and "unat (tv_sec ts) + unat timeout_ms < 2 ^ 63"
  shows "ns_of (deadline_after ts timeout_ms) = ns_of ts + unat timeout_ms * 10 ^ 6 \<and>
    unat (tv_nsec (deadline_after ts timeout_ms)) < 10 ^ 9"
proof -
  define s n t where "s = unat (tv_sec ts)" and "n = unat (tv_nsec ts)" and "t = unat timeout_ms"
  have b: "n < 10 ^ 9" "s + t < 2 ^ 63" using assms by (simp_all add: s_def n_def t_def)
  have tn: "(t mod 1000) * 1000000 < 10 ^ 9" using pos_mod_bound [of 1000 "int t"] by (simp add: nat_mod_as_int)
  have u1: "unat (tv_sec ts + timeout_ms div 1000) = s + t div 1000"
    using b by (simp add: s_def t_def unat_word_ariths unat_div)
  have u2: "unat (timeout_ms mod 1000 * 1000000) = (t mod 1000) * 1000000"
    using tn by (simp add: t_def unat_word_ariths unat_mod)
  have u3: "unat (tv_nsec ts + timeout_ms mod 1000 * 1000000) = n + (t mod 1000) * 1000000"
    using b tn u2 by (simp add: n_def unat_word_ariths)
  define m where "m = n + (t mod 1000) * 1000000"
  have m: "m < 2 * 10 ^ 9" using b tn by (simp add: m_def)
  have split: "t * 10 ^ 6 = t div 1000 * 10 ^ 9 + (t mod 1000) * 1000000"
  proof -
    have "t * 1000000 = (t div 1000 * 1000 + t mod 1000) * 1000000" by (simp only: div_mult_mod_eq)
    also have "\<dots> = t div 1000 * 1000000000 + (t mod 1000) * 1000000" by (simp only: add_mult_distrib mult.assoc)
    finally show ?thesis by simp
  qed
  show ?thesis
  proof (cases "m < 10 ^ 9")
    case True
    then have "\<not> 1000000000 \<le> tv_nsec ts + timeout_ms mod 1000 * 1000000"
      using u3 by (simp add: word_le_nat_alt m_def)
    then show ?thesis using True u1 u3 split
      by (simp add: deadline_after_def Let_def ns_of_def m_def s_def n_def t_def algebra_simps)
  next
    case False
    then have c: "1000000000 \<le> tv_nsec ts + timeout_ms mod 1000 * 1000000"
      using u3 by (simp add: word_le_nat_alt m_def)
    have u4: "unat (tv_sec ts + timeout_ms div 1000 + (tv_nsec ts + timeout_ms mod 1000 * 1000000) div 1000000000) =
        s + t div 1000 + m div 10 ^ 9"
    proof -
      have z: "unat ((tv_nsec ts + timeout_ms mod 1000 * 1000000) div 1000000000) = m div 10 ^ 9"
        using u3 by (simp add: unat_div m_def)
      have "m div 10 ^ 9 < 2" using m by (simp add: less_mult_imp_div_less)
      moreover have "t div 1000 \<le> t" by simp
      moreover have "(2 :: nat) ^ 63 + 2 < 2 ^ 64" by simp
      ultimately have "s + t div 1000 + m div 10 ^ 9 < 2 ^ 64" using b by linarith
      then show ?thesis by (subst unat_word_ariths(1)) (simp only: u1 z len_bit0 len_num1, simp)
    qed
    have u5: "unat ((tv_nsec ts + timeout_ms mod 1000 * 1000000) mod 1000000000) = m mod 10 ^ 9"
      using u3 by (simp add: unat_mod m_def)
    have "m = m div 10 ^ 9 * 10 ^ 9 + m mod 10 ^ 9" by simp
    then show ?thesis using c u4 u5 split m_def
      by (simp add: deadline_after_def Let_def ns_of_def s_def n_def t_def algebra_simps)
  qed
qed

text \<open>Once signalled, a wait returns at once; it returns 0 only when the condition has been signalled.\<close>

lemma timedwait_signalled: "wg_stop_cond_timedwait (wg_stop_cond_signal c) obs = Some 0"
  by (simp add: wg_stop_cond_timedwait.simps wg_stop_cond_signal_def)

lemma timedwait_zero:
  "wg_stop_cond_timedwait c obs = Some 0 \<Longrightarrow> pred c \<or> (\<exists>(r, c')\<in>set obs. r = 0 \<and> pred c')"
proof (induction obs arbitrary: c)
  case Nil
  then show ?case by (simp add: wg_stop_cond_timedwait.simps split: if_splits)
next
  case (Cons a obs)
  then show ?case
    by (auto simp: wg_stop_cond_timedwait.simps [of c] split: if_splits prod.splits)
qed

end
