(* ===== verification/Keepalive.thy ===== *)
theory Keepalive
  imports RecvLoop Threads
begin

text \<open>
  The keepalive thread of \<open>src/wireguard.c\<close>: after every timed wait on the stop condition it goes
  through the peers, wipes the keys of sessions that are too old and sends the keepalives that are due,
  and wipes the tunnel's own session when it is too old.
\<close>

section \<open>Model\<close>

definition WG_REKEY_CHECK_INTERVAL_MS :: u64 where [wg_consts]: "WG_REKEY_CHECK_INTERVAL_MS = 10000"
definition WG_KEEPALIVE_TIMEOUT_NS :: u64 where [wg_consts]: "WG_KEEPALIVE_TIMEOUT_NS = WG_KEEPALIVE_TIMEOUT * 1000000000"
definition WG_ZERO_KEY_TIMEOUT_NS :: u64 where [wg_consts]: "WG_ZERO_KEY_TIMEOUT_NS = WG_REJECT_AFTER_TIME * 3 * 1000000000"

definition check_interval :: "WgTunnel \<Rightarrow> u64" where
  "check_interval tun =
     (let keepalive_interval_ms = ucast (keepalive_interval tun) * 1000
      in if 0 < keepalive_interval_ms \<and> keepalive_interval_ms < WG_REKEY_CHECK_INTERVAL_MS
         then keepalive_interval_ms else WG_REKEY_CHECK_INTERVAL_MS)"

text \<open>The body of the loop over the peers, for peer \<open>i\<close> at the time \<open>now\<close>.\<close>

definition keepalive_peer :: "u64 \<Rightarrow> nat \<Rightarrow> WgTunnel \<times> world \<Rightarrow> WgTunnel \<times> world" where
  "keepalive_peer now i st =
     (let (tun, w) = st; p = peers tun ! i
      in if \<not> configured p then (tun, w)
         else if valid (p_session p) \<and> WG_ZERO_KEY_TIMEOUT_NS \<le> now - last_handshake (p_session p)
         then (set_peer tun i (p\<lparr>p_session := zero_session, connected := False, p_prev_session := zero_session\<rparr>), w)
         else if \<not> valid (p_session p) then (tun, w)
         else if 0 < last_received (p_session p) \<and> WG_KEEPALIVE_TIMEOUT_NS \<le> now - p_last_sent p
         then wg_send_keepalive_to_peer tun i w
         else if 0 < keepalive_interval tun \<and>
                 ucast (keepalive_interval tun) * 1000000000 \<le> now - p_last_sent p
         then wg_send_keepalive_to_peer tun i w
         else (tun, w))"

definition keepalive_own :: "u64 \<Rightarrow> WgTunnel \<Rightarrow> WgTunnel" where
  "keepalive_own now tun =
     (if valid (session tun) \<and> WG_ZERO_KEY_TIMEOUT_NS \<le> now - last_handshake (session tun)
      then tun\<lparr>session := zero_session, prev_session := zero_session\<rparr>
      else tun)"

definition keepalive_round :: "WgTunnel \<Rightarrow> world \<Rightarrow> WgTunnel \<times> world" where
  "keepalive_round tun w =
     (let (now, w) = wg_time_now w;
          (tun, w) = fold (keepalive_peer now) [0..<peer_count tun] (tun, w)
      in (keepalive_own now tun, w))"

text \<open>
  The thread, with what each check of the stop condition and each timed wait return, in order.
  \<open>False\<close> at the end of the list: the thread is still running.
\<close>

fun keepalive_thread_func :: "(bool \<times> int) list \<Rightarrow> WgTunnel \<times> world \<Rightarrow> bool \<times> WgTunnel \<times> world" where
  "keepalive_thread_func [] (tun, w) = (False, tun, w)"
| "keepalive_thread_func ((stop, result) # obs) (tun, w) =
     (if stop then (True, tun, w)
      else if result = 0 then (True, tun, w)
      else keepalive_thread_func obs (keepalive_round tun w))"

section \<open>Facts\<close>

text \<open>What one peer's step leaves alone, and what it does to that peer.\<close>

lemma keepalive_send_shape:
  "\<exists>w'. wg_send_keepalive_to_peer tun i w =
     (set_peer tun i ((peers tun ! i)\<lparr>p_session := count_sent (p_session (peers tun ! i)),
        p_last_sent := fst (wg_time_now (snd (wg_socket_send_to tun (Some (relay_hash (peers tun ! i)))
          (transport_packet (p_session (peers tun ! i)) []) w)))\<rparr>), w')"
  by (simp add: wg_send_keepalive_to_peer_def split_def Let_def)

text \<open>The session is not valid, or its handshake is less than 540 seconds ago.\<close>

definition fresh_keys :: "u64 \<Rightarrow> WgSession \<Rightarrow> bool" where
  "fresh_keys now s \<longleftrightarrow> valid s \<longrightarrow> now - last_handshake s < 540 * 1000000000"

definition peer_after :: "u64 \<Rightarrow> WgPeer \<Rightarrow> WgPeer \<Rightarrow> bool" where
  "peer_after now p p' \<longleftrightarrow>
     (if configured p \<and> valid (p_session p) \<and> WG_ZERO_KEY_TIMEOUT_NS \<le> now - last_handshake (p_session p)
      then p' = p\<lparr>p_session := zero_session, connected := False, p_prev_session := zero_session\<rparr>
      else p' = p \<or> (\<exists>t. p' = p\<lparr>p_session := count_sent (p_session p), p_last_sent := t\<rparr>))"

lemma keepalive_peer_step:
  assumes "keepalive_peer now i (tun, w) = (tun', w')"
  shows "\<exists>p'. tun' = set_peer tun i p' \<and> peer_after now (peers tun ! i) p'"
proof -
  let ?p = "peers tun ! i"
  obtain w1 t where k: "wg_send_keepalive_to_peer tun i w =
      (set_peer tun i (?p\<lparr>p_session := count_sent (p_session ?p), p_last_sent := t\<rparr>), w1)"
    using keepalive_send_shape by blast
  define old where "old = (configured ?p \<and> valid (p_session ?p) \<and> WG_ZERO_KEY_TIMEOUT_NS \<le> now - last_handshake (p_session ?p))"
  consider (wipe) "old" "tun' = set_peer tun i (?p\<lparr>p_session := zero_session, connected := False, p_prev_session := zero_session\<rparr>)"
    | (none) "\<not> old" "tun' = tun" | (send) "\<not> old" "tun' = set_peer tun i (?p\<lparr>p_session := count_sent (p_session ?p), p_last_sent := t\<rparr>)"
    using assms unfolding keepalive_peer_def Let_def split k old_def by (auto split: if_splits)
  then show ?thesis
  proof cases
    case wipe
    then show ?thesis unfolding peer_after_def old_def by (intro exI conjI) simp_all
  next
    case none
    then have "tun' = set_peer tun i ?p" by (simp add: set_peer_def)
    moreover have "peer_after now ?p ?p" using none unfolding peer_after_def old_def by (subst if_not_P) blast+
    ultimately show ?thesis by blast
  next
    case send
    then have "peer_after now ?p (?p\<lparr>p_session := count_sent (p_session ?p), p_last_sent := t\<rparr>)"
      unfolding peer_after_def old_def by (subst if_not_P) blast+
    then show ?thesis using send by blast
  qed
qed

lemma keepalive_peers_step:
  assumes "fold (keepalive_peer now) [0..<n] (tun, w) = (tun', w')" and "n \<le> length (peers tun)"
  shows "\<exists>ps. tun' = tun\<lparr>peers := ps\<rparr> \<and> length ps = length (peers tun) \<and>
    (\<forall>i < length (peers tun). if i < n then peer_after now (peers tun ! i) (ps ! i) else ps ! i = peers tun ! i)"
  using assms
proof (induction n arbitrary: tun' w')
  case 0
  then show ?case by (intro exI [of _ "peers tun"]) simp
next
  case (Suc n)
  obtain tun1 w1 where f: "fold (keepalive_peer now) [0..<n] (tun, w) = (tun1, w1)" by fastforce
  from Suc.IH [OF f] Suc.prems(2) obtain ps where ps: "tun1 = tun\<lparr>peers := ps\<rparr>" "length ps = length (peers tun)"
    "\<And>i. i < length (peers tun) \<Longrightarrow> if i < n then peer_after now (peers tun ! i) (ps ! i) else ps ! i = peers tun ! i" by auto
  have "keepalive_peer now n (tun1, w1) = (tun', w')" using Suc.prems(1) f by simp
  from keepalive_peer_step [OF this] obtain p' where p': "tun' = set_peer tun1 n p'" "peer_after now (peers tun1 ! n) p'" by blast
  have "peers tun1 ! n = peers tun ! n" using ps(1) ps(3) [of n] Suc.prems(2) by simp
  then have "\<forall>i < length (peers tun). if i < Suc n then peer_after now (peers tun ! i) (ps[n := p'] ! i) else ps[n := p'] ! i = peers tun ! i"
    using ps(2,3) p'(2) Suc.prems(2) by (auto simp: nth_list_update less_Suc_eq)
  moreover have "tun' = tun\<lparr>peers := ps[n := p']\<rparr>" using ps(1) p'(1) by (simp add: set_peer_def)
  ultimately show ?case using ps(2) by (intro exI [of _ "ps[n := p']"]) simp
qed

section \<open>Properties\<close>

text \<open>
  C15: Expired current sessions are wiped. After a round of the keepalive thread no peer of the table has a valid current
  session 540 seconds old or older, and neither has the tunnel. A current session that was that old is all
  zero, the previous one with it, and the peer is no longer connected. Every other current session keeps its keys, and at
  most its send counter has moved. The age of a previous session is not looked at: it stays as it is while the current
  one is younger or not valid, however old it is itself.
\<close>

theorem keys_wiped:
  assumes "table_ok tun" and "\<forall>i < peer_count tun. configured (peers tun ! i)"
    and "keepalive_round tun w = (tun', w')"
  defines "now \<equiv> ticks w (tick_pos w)"
  shows "(\<forall>i < peer_count tun. fresh_keys now (p_session (peers tun' ! i)) \<and>
            (fresh_keys now (p_session (peers tun ! i)) \<longrightarrow> p_prev_session (peers tun' ! i) = p_prev_session (peers tun ! i) \<and>
               p_session (peers tun' ! i) \<in> {p_session (peers tun ! i), count_sent (p_session (peers tun ! i))}) \<and>
            (\<not> fresh_keys now (p_session (peers tun ! i)) \<longrightarrow> p_session (peers tun' ! i) = zero_session \<and>
               p_prev_session (peers tun' ! i) = zero_session \<and> \<not> connected (peers tun' ! i))) \<and>
    fresh_keys now (session tun') \<and>
    (if fresh_keys now (session tun) then session tun' = session tun \<and> prev_session tun' = prev_session tun
     else session tun' = zero_session \<and> prev_session tun' = zero_session)"
proof -
  obtain tun1 w1 where f: "fold (keepalive_peer now) [0..<peer_count tun] (tun, snd (wg_time_now w)) = (tun1, w1)" by fastforce
  have t: "tun' = keepalive_own now tun1"
    using assms(3) f unfolding keepalive_round_def now_def by (simp add: wg_time_now_def)
  have n: "peer_count tun \<le> length (peers tun)" using assms(1) by (simp add: table_ok_def wg_consts)
  from keepalive_peers_step [OF f n] obtain ps where ps: "tun1 = tun\<lparr>peers := ps\<rparr>"
    "\<And>i. i < peer_count tun \<Longrightarrow> peer_after now (peers tun ! i) (ps ! i)" using n by (metis (full_types) order_less_le_trans)
  have ns: "WG_ZERO_KEY_TIMEOUT_NS = 540 * 1000000000" by (simp add: wg_consts)
  have z: "fresh_keys now zero_session" by (simp add: fresh_keys_def zero_session_def)
  have "fresh_keys now (p_session (ps ! i)) \<and>
      (fresh_keys now (p_session (peers tun ! i)) \<longrightarrow> p_prev_session (ps ! i) = p_prev_session (peers tun ! i) \<and>
         p_session (ps ! i) \<in> {p_session (peers tun ! i), count_sent (p_session (peers tun ! i))}) \<and>
      (\<not> fresh_keys now (p_session (peers tun ! i)) \<longrightarrow> p_session (ps ! i) = zero_session \<and>
         p_prev_session (ps ! i) = zero_session \<and> \<not> connected (ps ! i))" if "i < peer_count tun" for i
    using ps(2) [OF that] assms(2) that z by (auto simp: peer_after_def fresh_keys_def ns not_less split: if_splits)
  moreover have "peers tun' = ps" "session tun1 = session tun" "prev_session tun1 = prev_session tun"
    using ps(1) by (simp_all add: t keepalive_own_def)
  ultimately show ?thesis using z by (auto simp: t keepalive_own_def fresh_keys_def ns not_less)
qed

theorem keys_wiped_witness:
  "let p = zero_peer\<lparr>configured := True, connected := True, p_session := zero_session\<lparr>valid := True, sending_key := replicate 32 7\<rparr>\<rparr>;
       old = zero_session\<lparr>valid := True, receiving_key := replicate 32 8\<rparr>;
       tun = zero_tunnel\<lparr>peers := p # replicate 63 zero_peer, peer_count := 1,
               session := zero_session\<lparr>valid := True, last_handshake := 590000000000\<rparr>, prev_session := old\<rparr>;
       (tun', w') = keepalive_round tun (quiet_world\<lparr>ticks := (\<lambda>_. 600000000000)\<rparr>)
   in p_session (peers tun' ! 0) = zero_session \<and> \<not> connected (peers tun' ! 0) \<and> prev_session tun' = old"
proof -
  define p where "p = zero_peer\<lparr>configured := True, connected := True, p_session := zero_session\<lparr>valid := True, sending_key := replicate 32 7\<rparr>\<rparr>"
  define old where "old = zero_session\<lparr>valid := True, receiving_key := replicate 32 8\<rparr>"
  define tun where "tun = zero_tunnel\<lparr>peers := p # replicate 63 zero_peer, peer_count := 1,
    session := zero_session\<lparr>valid := True, last_handshake := 590000000000\<rparr>, prev_session := old\<rparr>"
  define w where "w = quiet_world\<lparr>ticks := (\<lambda>_. 600000000000)\<rparr>"
  obtain tun' w' where r: "keepalive_round tun w = (tun', w')" by fastforce
  have t: "table_ok tun" "\<forall>i < peer_count tun. configured (peers tun ! i)" "peer_count tun = 1" "peers tun ! 0 = p"
    by (simp_all add: tun_def table_ok_def wg_consts p_def)
  have "\<not> fresh_keys (ticks w (tick_pos w)) (p_session p)"
    by (simp add: fresh_keys_def w_def p_def quiet_world_def zero_session_def wg_consts)
  moreover have "fresh_keys (ticks w (tick_pos w)) (session tun)" "prev_session tun = old"
    by (simp_all add: fresh_keys_def w_def tun_def quiet_world_def)
  ultimately have "p_session (peers tun' ! 0) = zero_session \<and> \<not> connected (peers tun' ! 0) \<and> prev_session tun' = old"
    using keys_wiped [OF t(1,2) r] t(3,4) by auto
  then show ?thesis unfolding p_def [symmetric] old_def [symmetric] tun_def [symmetric] w_def [symmetric] Let_def r by simp
qed

end
