(* ===== verification/Connect.thy ===== *)
theory Connect
  imports Keepalive
begin

text \<open>
  Establishing and renewing the tunnel's own session, \<open>wg_connect\<close> and \<open>wg_rekey\<close> of \<open>src/wireguard.c\<close>: up
  to 18 attempts, each with one initiation and a wait of five seconds and some jitter. \<open>wg_connect\<close>
  reads the answer from the socket itself; \<open>wg_rekey\<close> runs beside the receive thread, which leaves
  the answer in \<open>pending_response\<close>.
\<close>

section \<open>Model\<close>

definition wg_jitter_ms :: "world \<Rightarrow> int \<times> world" where
  "wg_jitter_ms w = (let (i, w) = wg_random_index w in (int (unat (i mod 334)), w))"

subsection \<open>Connecting\<close>

text \<open>
  The wait for an answer. \<open>remaining_ms\<close> goes down by 10 in each round; \<open>None\<close> as in
  \<open>wg_socket_recv\<close>.
\<close>

function connect_wait ::
  "int \<Rightarrow> WgError + nat \<Rightarrow> bytes \<Rightarrow> WgTunnel \<Rightarrow> world \<Rightarrow> ((WgError + nat) \<times> bytes \<times> WgTunnel \<times> world) option" where
  "connect_wait remaining_ms received buf tun w =
     (if remaining_ms \<le> 0 then Some (received, buf, tun, w)
      else
        (case wg_socket_recv tun buf 256 10 w of
           None \<Rightarrow> None
         | Some (Inr n, buf, tun, w) \<Rightarrow> Some (Inr n, buf, tun, w)
         | Some (Inl e, buf, tun, w) \<Rightarrow>
             if e \<noteq> WG_ERR_TIMEOUT then Some (Inl e, buf, tun, w)
             else if pending_cookie tun then Some (Inl e, buf, tun, w)
             else connect_wait (remaining_ms - 10) (Inl e) buf tun w))"
  by pat_completeness auto
termination
  by (relation "measure (\<lambda>(r, _). nat r)") auto

declare connect_wait.simps [simp del]

text \<open>
  What the loop does with a packet of \<open>n\<close> bytes in \<open>recv_buf\<close>: the error so far, and whether the loop is
  left.
\<close>

definition connect_answer ::
  "nat \<Rightarrow> bytes \<Rightarrow> WgTunnel \<Rightarrow> WgHandshakeState \<Rightarrow> WgError \<Rightarrow> world \<Rightarrow> WgError \<times> bool \<times> WgTunnel \<times> world" where
  "connect_answer n recv_buf tun state err w =
     (let msg_type = recv_buf ! 0
      in if msg_type = WG_MSG_HANDSHAKE_INIT \<and> sizeof_init \<le> n
         then
           (let (passive_err, tun, w) = wg_handshake_init_process tun (init_of_bytes recv_buf) w
            in if passive_err = WG_OK then (WG_OK, True, tun, w) else (err, False, tun, w))
         else if n < sizeof_response then (WG_ERR_HANDSHAKE, False, tun, w)
         else
           (let (err, tun, state, w) = wg_handshake_response tun (response_of_bytes recv_buf) state w
            in (err, err = WG_OK, tun, w)))"

definition connect_attempt ::
  "bytes \<Rightarrow> WgTunnel \<Rightarrow> world \<Rightarrow> (WgError \<times> bool \<times> bytes \<times> WgTunnel \<times> world) option" where
  "connect_attempt recv_buf tun w =
     (let (err, tun, init_msg, state, w) = wg_handshake_init tun zero_hs w
      in if err \<noteq> WG_OK then Some (err, True, recv_buf, tun, w)
         else
           (let (sent, w) = wg_socket_send tun (init_bytes init_msg) w
            in if sent < 0 then Some (WG_ERR_SOCKET, True, recv_buf, tun, w)
               else
                 (let tun = tun\<lparr>pending_cookie := False\<rparr>;
                      (jitter, w) = wg_jitter_ms w
                  in case connect_wait (WG_REKEY_TIMEOUT * 1000 + jitter) (Inl WG_ERR_TIMEOUT) recv_buf tun w of
                       None \<Rightarrow> None
                     | Some (received, recv_buf, tun, w) \<Rightarrow>
                         if pending_cookie tun
                         then Some (WG_ERR_TIMEOUT, False, recv_buf, tun\<lparr>pending_cookie := False\<rparr>, w)
                         else
                           (case received of
                              Inl e \<Rightarrow> Some (WG_ERR_TIMEOUT, False, recv_buf, tun, w)
                            | Inr n \<Rightarrow>
                                (let (err, leave, tun, w) = connect_answer n recv_buf tun state err w
                                 in Some (err, leave, recv_buf, tun, w))))))"

primrec connect_loop :: "nat \<Rightarrow> WgError \<Rightarrow> bytes \<Rightarrow> WgTunnel \<Rightarrow> world \<Rightarrow> (WgError \<times> WgTunnel \<times> world) option" where
  "connect_loop 0 err recv_buf tun w = Some (err, tun, w)"
| "connect_loop (Suc n) err recv_buf tun w =
     (case connect_attempt recv_buf tun w of
        None \<Rightarrow> None
      | Some (err, leave, recv_buf, tun, w) \<Rightarrow>
          if leave then Some (err, tun, w) else connect_loop n err recv_buf tun w)"

text \<open>\<open>fd\<close> is what \<open>socket\<close> returns, \<open>recv_buf\<close> the uninitialised local buffer.\<close>

definition wg_connect :: "int \<Rightarrow> bytes \<Rightarrow> WgTunnel option \<Rightarrow> world \<Rightarrow> (WgError \<times> WgTunnel option \<times> world) option" where
  "wg_connect fd recv_buf t w =
     (case t of
        None \<Rightarrow> Some (WG_ERR_INVALID_CONFIG, None, w)
      | Some tun \<Rightarrow>
          (let (err, tun) = (if socket_fd tun < 0 then wg_socket_open fd tun w else (WG_OK, tun))
           in if err \<noteq> WG_OK then Some (err, Some tun, w)
              else
                (case connect_loop WG_MAX_TIMER_HANDSHAKES WG_ERR_TIMEOUT recv_buf tun w of
                   None \<Rightarrow> None
                 | Some (err, tun, w) \<Rightarrow>
                     if err \<noteq> WG_OK
                     then Some (err, Some (tun\<lparr>session := (session tun)\<lparr>rekey_in_progress := False\<rparr>\<rparr>), w)
                     else (let (tun, w) = wg_send_keepalive tun w in Some (WG_OK, Some tun, w)))))"

subsection \<open>Rekeying\<close>

text \<open>
  The other threads act while \<open>wg_rekey\<close> sleeps: \<open>env k\<close> is what they do to the tunnel during the \<open>k\<close>-th sleep.
\<close>

function rekey_wait :: "(nat \<Rightarrow> WgTunnel \<Rightarrow> WgTunnel) \<Rightarrow> int \<Rightarrow> nat \<Rightarrow> WgTunnel \<Rightarrow> WgTunnel \<times> nat" where
  "rekey_wait env remaining_ms k tun =
     (if remaining_ms \<le> 0 then (tun, k)
      else if 0 < pending_response_len tun \<or> pending_cookie tun then (tun, k)
      else rekey_wait env (remaining_ms - 10) (Suc k) (env k tun))"
  by pat_completeness auto
termination
  by (relation "measure (\<lambda>(_, r, _). nat r)") auto

declare rekey_wait.simps [simp del]

definition rekey_attempt ::
  "(nat \<Rightarrow> WgTunnel \<Rightarrow> WgTunnel) \<Rightarrow> nat \<Rightarrow> WgTunnel \<Rightarrow> world \<Rightarrow> WgError \<times> bool \<times> nat \<times> WgTunnel \<times> world" where
  "rekey_attempt env k tun w =
     (let tun = tun\<lparr>pending_response_len := 0, pending_cookie := False\<rparr>;
          (err, tun, init_msg, state, w) = wg_handshake_init tun zero_hs w
      in if err \<noteq> WG_OK then (err, True, k, tun, w)
         else
           (let (sent, w) = wg_socket_send tun (init_bytes init_msg) w
            in if sent < 0 then (WG_ERR_SOCKET, True, k, tun, w)
               else
                 (let (jitter, w) = wg_jitter_ms w;
                      (tun, k) = rekey_wait env (WG_REKEY_TIMEOUT * 1000 + jitter) k tun
                  in if pending_cookie tun then (err, False, k, tun\<lparr>pending_cookie := False\<rparr>, w)
                     else if pending_response_len tun = 0 then (WG_ERR_TIMEOUT, False, k, tun, w)
                     else if pending_response_len tun < sizeof_response then (WG_ERR_HANDSHAKE, False, k, tun, w)
                     else
                       (let (err, tun, state, w) =
                              wg_handshake_response tun (response_of_bytes (pending_response tun)) state w
                        in (err, err = WG_OK, k, tun, w)))))"

primrec rekey_loop ::
  "(nat \<Rightarrow> WgTunnel \<Rightarrow> WgTunnel) \<Rightarrow> nat \<Rightarrow> WgError \<Rightarrow> nat \<Rightarrow> WgTunnel \<Rightarrow> world \<Rightarrow> WgError \<times> WgTunnel \<times> world" where
  "rekey_loop env 0 err k tun w = (err, tun, w)"
| "rekey_loop env (Suc n) err k tun w =
     (let (err, leave, k, tun, w) = rekey_attempt env k tun w
      in if leave then (err, tun, w) else rekey_loop env n err k tun w)"

definition wg_rekey :: "(nat \<Rightarrow> WgTunnel \<Rightarrow> WgTunnel) \<Rightarrow> WgTunnel \<Rightarrow> world \<Rightarrow> WgError \<times> WgTunnel \<times> world" where
  "wg_rekey env tun w =
     (let saved_local_index = local_index (session tun);
          tun = tun\<lparr>pending_response_len := 0\<rparr>;
          (err, tun, w) = rekey_loop env WG_MAX_TIMER_HANDSHAKES WG_ERR_TIMEOUT 0 tun w
      in if err \<noteq> WG_OK
         then (err, tun\<lparr>session := (session tun)\<lparr>local_index := saved_local_index, rekey_in_progress := False\<rparr>\<rparr>, w)
         else (let (tun, w) = wg_send_keepalive tun w in (WG_OK, tun, w)))"

section \<open>The socket layer under the loops\<close>

text \<open>The part of the world that decides whether a receive returns and whether a send succeeds.\<close>

definition link :: "world \<Rightarrow> bool \<times> (nat \<Rightarrow> (u64 \<times> ring) list) \<times> (nat \<Rightarrow> sendto_outcome)" where
  "link w = (relay_send w, ring_views w, sendto_outcomes w)"

text \<open>Every deadline passes while the ring is watched.\<close>

definition patient :: "world \<Rightarrow> bool" where
  "patient w \<longleftrightarrow> relay_send w \<longrightarrow> (\<forall>k. \<exists>r. (- 1, r) \<in> set (ring_views w k))"

definition more_sent :: "nat \<Rightarrow> world \<Rightarrow> world \<Rightarrow> bool" where
  "more_sent n w w' \<longleftrightarrow> link w' = link w \<and> length (sent_log w') \<le> length (sent_log w) + n"

named_theorems sends \<open>how much the operations send at most\<close>

lemma more_sent_trans [trans]: "more_sent m w w1 \<Longrightarrow> more_sent n w1 w2 \<Longrightarrow> more_sent (m + n) w w2"
  by (auto simp: more_sent_def)

lemma more_sent_0: "more_sent 0 w w1 \<Longrightarrow> more_sent n w1 w2 \<Longrightarrow> more_sent n w w2"
  by (auto simp: more_sent_def)

lemma more_sent_mono: "more_sent m w w' \<Longrightarrow> m \<le> n \<Longrightarrow> more_sent n w w'"
  by (auto simp: more_sent_def)

lemma more_sent_patient: "more_sent n w w' \<Longrightarrow> patient w' = patient w"
  by (simp add: more_sent_def patient_def link_def)

lemma sends_basic [sends]:
  "more_sent 0 w w" "more_sent 0 w (snd (wg_time_now w))" "more_sent 0 w (snd (randomGet n w))"
  "more_sent 0 w (snd (wg_random_index w))" "more_sent 0 w (snd (clock_realtime w))" "more_sent 0 w (snd (wg_jitter_ms w))"
  by (simp_all add: more_sent_def link_def wg_time_now_def randomGet_def wg_random_index_def wg_random_u32_def
    clock_realtime_def wg_jitter_ms_def split_def Let_def)

lemma sends_retry: "more_sent 1 w (snd (send_retry n addr p w))"
proof (induction n arbitrary: w)
  case (Suc n)
  show ?case using Suc [of "w\<lparr>sendto_pos := Suc (sendto_pos w)\<rparr>"]
    by (auto simp: more_sent_def link_def Let_def split: sendto_outcome.splits)
qed (simp add: more_sent_def)

lemma sends_socket [sends]: "more_sent 1 w (snd (wg_socket_send tun p w))" "more_sent 1 w (snd (wg_socket_send_to tun h p w))"
  using sends_retry by (auto simp: wg_socket_send_def wg_socket_send_to_def more_sent_def link_def)

lemma relay_recv_ends: "(- 1, r) \<in> set views \<Longrightarrow> relay_recv d len rs views \<noteq> None"
proof (induction views arbitrary: rs)
  case (Cons v views)
  then show ?case by (cases v) (auto split: recv_round.splits)
qed simp

lemma socket_recv_returns:
  assumes "patient w"
  shows "\<exists>r buf' tun' w'. wg_socket_recv tun buf len t w = Some (r, buf', tun', w') \<and> more_sent 0 w w'"
proof (cases "relay_send w")
  case True
  let ?d = "fst (wg_time_now w) + of_int t * 1000000"
  obtain r where r: "(- 1, r) \<in> set (ring_views w (view_pos w))" using assms True by (auto simp: patient_def)
  have rv: "relay_recv ?d len (rseq w) (ring_views w (view_pos w)) \<noteq> None" using r by (rule relay_recv_ends)
  show ?thesis
  proof (cases "relay_recv ?d len (rseq w) (ring_views w (view_pos w))")
    case None
    with rv show ?thesis by simp
  next
    case (Some x)
    then show ?thesis using True
      by (cases x; cases "fst x") (auto simp: wg_socket_recv_def wg_time_now_def more_sent_def link_def Let_def)
  qed
next
  case False
  then show ?thesis
    by (cases "datagram (udp_outcomes w (udp_pos w))")
      (auto simp: wg_socket_recv_def more_sent_def link_def Let_def)
qed

lemma connect_wait_returns:
  "patient w \<Longrightarrow> \<exists>r buf' tun' w'. connect_wait rem rc buf tun w = Some (r, buf', tun', w') \<and> more_sent 0 w w'"
proof (induction rem rc buf tun w rule: connect_wait.induct)
  case (1 rem rc buf tun w)
  show ?case
  proof (cases "rem \<le> 0")
    case True
    then show ?thesis by (simp add: connect_wait.simps [of rem] sends)
  next
    case False
    obtain r buf' tun' w' where s: "wg_socket_recv tun buf 256 10 w = Some (r, buf', tun', w')" "more_sent 0 w w'"
      using socket_recv_returns [OF 1(2)] by blast
    show ?thesis
    proof (cases "r = Inl WG_ERR_TIMEOUT \<and> \<not> pending_cookie tun'")
      case True
      have "patient w'" using s(2) 1(2) by (simp add: more_sent_patient)
      then obtain r2 b2 t2 w2 where "connect_wait (rem - 10) (Inl WG_ERR_TIMEOUT) buf' tun' w' = Some (r2, b2, t2, w2)" "more_sent 0 w' w2"
        using 1(1) [OF False s(1) refl _ refl refl] True by fastforce
      moreover have "connect_wait rem rc buf tun w = connect_wait (rem - 10) (Inl WG_ERR_TIMEOUT) buf' tun' w'"
        using False s(1) True by (simp add: connect_wait.simps [of rem])
      ultimately show ?thesis using more_sent_trans [OF s(2)] by fastforce
    next
      case no: False
      have "connect_wait rem rc buf tun w = Some (r, buf', tun', w')"
        using False s(1) no by (cases r) (auto simp: connect_wait.simps [of rem])
      then show ?thesis using s(2) by blast
    qed
  qed
qed


text \<open>The handshake operations, as to what they send.\<close>

lemma sends_handshake_init [sends]:
  assumes "wg_handshake_init tun st w = (err, tun', msg, st', w')"
  shows "more_sent 0 w w'"
proof -
  define w1 where "w1 = snd (randomGet 32 w)"
  define w2 where "w2 = snd (wg_random_index w1)"
  define w3 where "w3 = snd (clock_realtime w2)"
  have "w' = snd (wg_time_now w3)"
    using assms by (auto simp: wg_handshake_init_def split_def Let_def w1_def w2_def w3_def split: if_splits)
  moreover have a: "more_sent 0 w w1" "more_sent 0 w1 w2" "more_sent 0 w2 w3" by (simp_all add: w1_def w2_def w3_def sends)
  ultimately show ?thesis
    using more_sent_0 [OF a(1) more_sent_0 [OF a(2) more_sent_0 [OF a(3) sends_basic(2)]]] by simp
qed

lemma sends_answer_init [sends]: "more_sent 1 w (snd (answer_init tun msg st ds w))"
proof -
  define w1 where "w1 = snd (wg_random_index w)"
  define w2 where "w2 = snd (randomGet 32 w1)"
  define w3 where "w3 = snd (wg_time_now w2)"
  have a: "more_sent 0 w w1" "more_sent 0 w1 w2" "more_sent 0 w2 w3" by (simp_all add: w1_def w2_def w3_def sends)
  have "more_sent 0 w w3" by (rule more_sent_0 [OF a(1) more_sent_0 [OF a(2,3)]])
  moreover have "\<exists>t p h. snd (answer_init tun msg st ds w) \<in> {snd (wg_socket_send t p w3), snd (wg_socket_send_to t h p w3)}"
    by (auto simp: answer_init_def split_def Let_def w1_def w2_def w3_def split: option.splits)
  ultimately show ?thesis using more_sent_0 [of w w3 1] sends_socket by auto
qed

lemma sends_init_process [sends]: "more_sent 1 w (snd (snd (wg_handshake_init_process tun msg w)))"
  using more_sent_mono [OF sends_basic(1) zero_le_one] sends_answer_init
  by (simp add: wg_handshake_init_process_def split_def Let_def split: option.splits)

lemma sends_response [sends]: "more_sent 0 w (snd (snd (snd (wg_handshake_response tun msg st w))))"
  by (simp add: wg_handshake_response_def split_def Let_def sends)

lemma sends_connect_answer [sends]: "more_sent 1 w (snd (snd (snd (connect_answer n buf tun st err w))))"
  using sends_init_process [of w tun "init_of_bytes buf"] more_sent_mono [OF sends_response zero_le_one]
    more_sent_mono [OF sends_basic(1) zero_le_one]
  by (auto simp: connect_answer_def split_def Let_def)

lemma connect_attempt_returns:
  assumes "patient w"
  shows "\<exists>err leave buf' tun' w'. connect_attempt buf tun w = Some (err, leave, buf', tun', w') \<and> more_sent 2 w w'"
proof -
  obtain err1 tun1 msg st w1 where i: "wg_handshake_init tun zero_hs w = (err1, tun1, msg, st, w1)" by (metis prod_cases5)
  note m1 = sends_handshake_init [OF i]
  obtain sent w2 where s: "wg_socket_send tun1 (init_bytes msg) w1 = (sent, w2)" by fastforce
  have m2: "more_sent 1 w w2" using sends_socket(1) [of w1 tun1 "init_bytes msg"] more_sent_0 [OF m1] by (simp add: s)
  show ?thesis
  proof (cases "err1 \<noteq> WG_OK \<or> sent < 0")
    case True
    then show ?thesis using more_sent_mono [OF m1] more_sent_mono [OF m2] by (auto simp: connect_attempt_def i s)
  next
    case False
    define tun2 where "tun2 = tun1\<lparr>pending_cookie := False\<rparr>"
    obtain jit w3 where j: "wg_jitter_ms w2 = (jit, w3)" by fastforce
    have "more_sent 0 w2 w3" using sends_basic(6) [of w2] by (simp add: j)
    then have m3: "more_sent 1 w w3" using more_sent_trans [OF m2] by fastforce
    then have "patient w3" using assms by (simp add: more_sent_patient)
    then obtain rc buf' tun3 w4 where c: "connect_wait (WG_REKEY_TIMEOUT * 1000 + jit) (Inl WG_ERR_TIMEOUT) buf tun2 w3 = Some (rc, buf', tun3, w4)"
        "more_sent 0 w3 w4" using connect_wait_returns by blast
    have m4: "more_sent 1 w w4" using more_sent_trans [OF m3 c(2)] by simp
    note m5 = more_sent_mono [OF m4, of 2]
    have m6: "more_sent 2 w (snd (snd (snd (connect_answer n buf' tun3 st err1 w4))))" for n
      using more_sent_trans [OF m4 sends_connect_answer] by (simp only: one_add_one)
    show ?thesis
    proof (cases rc)
      case (Inl e)
      then show ?thesis using False c(1) m5 by (auto simp: connect_attempt_def i s j tun2_def [symmetric] Let_def)
    next
      case (Inr n)
      obtain e2 leave tun5 w5 where a: "connect_answer n buf' tun3 st err1 w4 = (e2, leave, tun5, w5)" by (metis prod_cases4)
      then have "more_sent 2 w w5" using m6 [of n] by simp
      then show ?thesis using False c(1) m5 Inr a by (auto simp: connect_attempt_def i s j tun2_def [symmetric] Let_def)
    qed
  qed
qed

lemma connect_loop_returns:
  "patient w \<Longrightarrow> \<exists>err' tun' w'. connect_loop n err buf tun w = Some (err', tun', w') \<and> more_sent (2 * n) w w'"
proof (induction n arbitrary: err buf tun w)
  case (Suc n)
  obtain err1 leave buf1 tun1 w1 where a: "connect_attempt buf tun w = Some (err1, leave, buf1, tun1, w1)" "more_sent 2 w w1"
    using connect_attempt_returns [OF Suc.prems] by blast
  have "patient w1" using a(2) Suc.prems by (simp add: more_sent_patient)
  then obtain err2 tun2 w2 where "connect_loop n err1 buf1 tun1 w1 = Some (err2, tun2, w2)" "more_sent (2 * n) w1 w2"
    using Suc.IH by blast
  then show ?case using a more_sent_trans [OF a(2)] more_sent_mono [OF a(2)] by fastforce
qed (simp add: sends)

text \<open>Attempts that are cut short by a cookie reply.\<close>

definition same_keys :: "WgSession \<Rightarrow> WgSession \<Rightarrow> bool" where
  "same_keys s s' \<longleftrightarrow> (\<exists>i j b. s' = s\<lparr>local_index := i, old_local_index := j, rekey_in_progress := b\<rparr>)"

lemma same_keys_trans: "same_keys s s1 \<Longrightarrow> same_keys s1 s2 \<Longrightarrow> same_keys s s2"
  unfolding same_keys_def by fastforce

lemma init_session:
  assumes "wg_handshake_init tun st w = (err, tun', msg, st', w')"
  shows "err = WG_OK" "same_keys (session tun) (session tun')" "rekey_in_progress (session tun')"
    "pending_cookie tun' = pending_cookie tun" "pending_response_len tun' = pending_response_len tun"
proof -
  have "session tun' = (session tun)\<lparr>local_index := fst (wg_random_index (snd (randomGet 32 w))),
      old_local_index := local_index (session tun), rekey_in_progress := True\<rparr>"
    using assms by (auto simp: wg_handshake_init_def split_def Let_def split: if_splits)
  then show "same_keys (session tun) (session tun')" "rekey_in_progress (session tun')"
    unfolding same_keys_def by (blast, simp)
  show "err = WG_OK" "pending_cookie tun' = pending_cookie tun" "pending_response_len tun' = pending_response_len tun"
    using assms by (auto simp: wg_handshake_init_def split_def Let_def split: if_splits)
qed

text \<open>During every sleep the receive thread handles some cookie reply, accepted or not.\<close>

definition cookie_env :: "(nat \<Rightarrow> WgTunnel \<Rightarrow> WgTunnel) \<Rightarrow> bool" where
  "cookie_env env \<longleftrightarrow> (\<forall>k t. \<exists>n packet u. sizeof_cookie \<le> n \<and> env k t = fst (recv_cookie t n packet u))"

definition sends_pass :: "world \<Rightarrow> bool" where
  "sends_pass w \<longleftrightarrow> relay_send w \<or> (\<forall>n. \<exists>k. sendto_outcomes w n = Sent k)"

lemma recv_cookie_session:
  assumes "sizeof_cookie \<le> n"
  shows "pending_cookie (fst (recv_cookie t n packet u))" "session (fst (recv_cookie t n packet u)) = session t"
  using assms by (auto simp: recv_cookie_def wg_process_cookie_reply_def split_def Let_def split: option.splits)

lemma cookie_env_step:
  assumes "cookie_env env"
  shows "pending_cookie (env k t)" "session (env k t) = session t"
  using assms recv_cookie_session unfolding cookie_env_def by metis+

lemma sends_pass_keep: "more_sent n w w' \<Longrightarrow> sends_pass w \<Longrightarrow> sends_pass w'"
  by (simp add: more_sent_def link_def sends_pass_def)

lemma sends_pass_send:
  assumes "sends_pass w"
  obtains n w' where "wg_socket_send tun p w = (int n, w')" "sends_pass w'"
proof -
  have "0 \<le> fst (wg_socket_send tun p w)"
  proof (cases "relay_send w")
    case False
    then obtain k where "sendto_outcomes w (sendto_pos w) = Sent k" using assms unfolding sends_pass_def by blast
    then show ?thesis using False by (simp add: wg_socket_send_def eval_nat_numeral)
  qed (simp add: wg_socket_send_def)
  then obtain n where "fst (wg_socket_send tun p w) = int n" by (metis nonneg_int_cases)
  moreover have "sends_pass (snd (wg_socket_send tun p w))" using sends_pass_keep [OF sends_socket(1) assms] .
  ultimately show thesis using that by (metis prod.collapse)
qed

lemma rekey_wait_cookie:
  assumes "cookie_env env" "0 \<le> jit" "\<not> pending_cookie tun" "pending_response_len tun = 0"
  shows "rekey_wait env (WG_REKEY_TIMEOUT * 1000 + jit) k tun = (env k tun, Suc k)"
  using assms cookie_env_step(1) [OF assms(1), of k tun]
  by (simp add: rekey_wait.simps [of _ _ k] rekey_wait.simps [of _ _ "Suc k"] WG_REKEY_TIMEOUT_def)

lemma rekey_attempt_cookie:
  assumes "cookie_env env" "sends_pass w"
  shows "\<exists>k' tun' w'. rekey_attempt env k tun w = (WG_OK, False, k', tun', w') \<and> sends_pass w' \<and>
    same_keys (session tun) (session tun') \<and> rekey_in_progress (session tun')"
proof -
  define tun0 where "tun0 = tun\<lparr>pending_response_len := 0, pending_cookie := False\<rparr>"
  obtain err tun1 msg st w1 where i: "wg_handshake_init tun0 zero_hs w = (err, tun1, msg, st, w1)" by (metis prod_cases5)
  have w1: "sends_pass w1" using sends_pass_keep [OF sends_handshake_init [OF i] assms(2)] .
  obtain n w2 where s: "wg_socket_send tun1 (init_bytes msg) w1 = (int n, w2)" "sends_pass w2"
    by (rule sends_pass_send [OF w1])
  obtain jit w3 where j: "wg_jitter_ms w2 = (jit, w3)" by fastforce
  have j0: "0 \<le> jit" "sends_pass w3" using j sends_pass_keep [OF sends_basic(6) s(2)]
    by (auto simp: wg_jitter_ms_def split_def Let_def)
  note k = init_session [OF i]
  have p: "\<not> pending_cookie tun1" "pending_response_len tun1 = 0" using k by (simp_all add: tun0_def)
  note c = cookie_env_step [OF assms(1), of k tun1]
  have "rekey_attempt env k tun w = (WG_OK, False, Suc k, (env k tun1)\<lparr>pending_cookie := False\<rparr>, w3)"
    using k(1) c(1) by (simp add: rekey_attempt_def tun0_def [symmetric] i s j rekey_wait_cookie [OF assms(1) j0(1) p] Let_def)
  then show ?thesis using k j0(2) c(2) by (simp add: tun0_def)
qed

lemma rekey_loop_cookie:
  assumes "cookie_env env" "sends_pass w" and "n \<noteq> 0"
  shows "\<exists>tun' w'. rekey_loop env n err k tun w = (WG_OK, tun', w') \<and>
    same_keys (session tun) (session tun') \<and> rekey_in_progress (session tun')"
  using assms
proof (induction n arbitrary: err k tun w)
  case (Suc n)
  obtain k1 tun1 w1 where a: "rekey_attempt env k tun w = (WG_OK, False, k1, tun1, w1)" "sends_pass w1"
      "same_keys (session tun) (session tun1)" "rekey_in_progress (session tun1)"
    using rekey_attempt_cookie [OF Suc.prems(1,2)] by blast
  show ?case
  proof (cases "n = 0")
    case True
    then show ?thesis using a by simp
  next
    case False
    then show ?thesis using Suc.IH [OF Suc.prems(1) a(2) False, of WG_OK k1 tun1] a same_keys_trans [OF a(3)] by auto
  qed
qed simp

section \<open>Properties\<close>

text \<open>
  C16: Connecting ends. Whatever the network answers, if the deadlines of the socket layer pass and the socket, where one is needed, is
  or can be opened, \<open>wg_connect\<close> returns after at
  most 18 attempts; it has sent at most 37 packets, one initiation and one answer per attempt and one
  keepalive, and after an error no rekeying is marked as in progress.
\<close>

theorem connect_terminates:
  assumes "patient w" and "0 \<le> socket_fd tun \<or> relay_send w \<or> 0 \<le> fd"
  shows "\<exists>err tun' w'. wg_connect fd buf (Some tun) w = Some (err, Some tun', w') \<and>
    length (sent_log w') \<le> length (sent_log w) + 37 \<and> (err \<noteq> WG_OK \<longrightarrow> \<not> rekey_in_progress (session tun'))"
proof -
  obtain tun1 where o: "(if socket_fd tun < 0 then wg_socket_open fd tun w else (WG_OK, tun)) = (WG_OK, tun1)"
    using assms(2) that by (cases "socket_fd tun < 0"; cases "relay_send w") (simp_all add: wg_socket_open_def)
  obtain err tun2 w2 where l: "connect_loop WG_MAX_TIMER_HANDSHAKES WG_ERR_TIMEOUT buf tun1 w = Some (err, tun2, w2)"
      "more_sent (2 * WG_MAX_TIMER_HANDSHAKES) w w2" using connect_loop_returns [OF assms(1)] by blast
  have k: "more_sent 1 w2 (snd (wg_send_keepalive tun2 w2))"
  proof -
    define w3 where "w3 = snd (wg_socket_send (tun2\<lparr>session := count_sent (session tun2)\<rparr>) (transport_packet (session tun2) []) w2)"
    have "snd (wg_send_keepalive tun2 w2) = snd (wg_time_now w3)"
      by (simp add: wg_send_keepalive_def w3_def split_def Let_def)
    then show ?thesis using more_sent_trans [OF sends_socket(1) sends_basic(2)] by (simp add: w3_def)
  qed
  show ?thesis
  proof (cases "err = WG_OK")
    case True
    then show ?thesis using o l k more_sent_trans [OF l(2) k]
      by (auto simp: wg_connect_def more_sent_def wg_consts split_def Let_def)
  next
    case False
    then show ?thesis using o l by (auto simp: wg_connect_def more_sent_def wg_consts split_def Let_def)
  qed
qed

theorem connect_terminates_witness:
  "let w = quiet_world\<lparr>relay_send := False\<rparr>
   in patient w \<and> (\<exists>err tun' w'. wg_connect 3 (replicate 256 0) (Some zero_tunnel) w = Some (err, Some tun', w') \<and>
        length (sent_log w') \<le> 37)"
  using connect_terminates [of "quiet_world\<lparr>relay_send := False\<rparr>" zero_tunnel 3 "replicate 256 0"]
  by (auto simp: patient_def quiet_world_def)

text \<open>
  C39: A rekey that reports success without a handshake. When every wait is cut short by a cookie reply, and the
  initiations go out, through the relay or through a socket whose sends succeed, \<open>wg_rekey\<close> returns \<open>WG_OK\<close>. The replies may be
  genuine, which stores their cookie, or forged, which \<open>wg_process_cookie_reply\<close> refuses: what they do to the tunnel is
  what the handler of the receive thread does, with any packet of the length of a cookie reply. The session
  still has its old keys and the age of its old handshake, and it is marked as being
  rekeyed, so that \<open>wg_needs_rekey\<close> never asks for another attempt.
\<close>

theorem rekey_false_success:
  assumes "relay_send w \<or> (\<forall>n. \<exists>k. sendto_outcomes w n = Sent k)"
    and "\<forall>k t. \<exists>n packet u. sizeof_cookie \<le> n \<and> env k t = fst (recv_cookie t n packet u)"
    and "wg_rekey env tun w = (err, tun', w')"
  shows "err = WG_OK \<and> sending_key (session tun') = sending_key (session tun) \<and>
    receiving_key (session tun') = receiving_key (session tun) \<and>
    last_handshake (session tun') = last_handshake (session tun) \<and> rekey_in_progress (session tun') \<and>
    \<not> fst (wg_needs_rekey tun' u)"
proof -
  have "cookie_env env" "sends_pass w" using assms(1,2) by (simp_all add: cookie_env_def sends_pass_def)
  then obtain tun1 w1 where l: "rekey_loop env WG_MAX_TIMER_HANDSHAKES WG_ERR_TIMEOUT 0 (tun\<lparr>pending_response_len := 0\<rparr>) w = (WG_OK, tun1, w1)"
      "same_keys (session tun) (session tun1)" "rekey_in_progress (session tun1)"
    using rekey_loop_cookie [of env w WG_MAX_TIMER_HANDSHAKES WG_ERR_TIMEOUT 0 "tun\<lparr>pending_response_len := 0\<rparr>"]
    by (auto simp: WG_MAX_TIMER_HANDSHAKES_def)
  have "session (fst (wg_send_keepalive tun1 w1)) = count_sent (session tun1)"
    by (simp add: wg_send_keepalive_def split_def Let_def)
  moreover have "err = WG_OK" "tun' = fst (wg_send_keepalive tun1 w1)"
    using assms(3) l(1) by (simp_all add: wg_rekey_def split_def Let_def)
  ultimately show ?thesis using l(2,3) by (auto simp: same_keys_def wg_needs_rekey_def count_sent_def)
qed

theorem rekey_false_success_witness:
  "let w = quiet_world\<lparr>relay_send := False, sendto_outcomes := (\<lambda>_. Sent 148)\<rparr>;
       env = (\<lambda>k t. fst (recv_cookie t 64 (replicate 64 0) quiet_world));
       (err, tun', w') = wg_rekey env (zero_tunnel\<lparr>session := zero_session\<lparr>valid := True\<rparr>\<rparr>) w
   in err = WG_OK \<and> last_handshake (session tun') = 0 \<and> rekey_in_progress (session tun')"
proof -
  define T where "T = zero_tunnel\<lparr>session := zero_session\<lparr>valid := True\<rparr>\<rparr>"
  define w where "w = quiet_world\<lparr>relay_send := False, sendto_outcomes := (\<lambda>_. Sent 148)\<rparr>"
  define env where "env = (\<lambda>(k :: nat) t. fst (recv_cookie t 64 (replicate 64 0) quiet_world))"
  obtain err tun' w' where r: "wg_rekey env T w = (err, tun', w')" by (metis prod_cases3)
  have q: "relay_send w \<or> (\<forall>n. \<exists>k. sendto_outcomes w n = Sent k)" by (simp add: w_def)
  have e: "\<forall>k t. \<exists>n packet u. sizeof_cookie \<le> n \<and> env k t = fst (recv_cookie t n packet u)"
    unfolding env_def by (intro allI exI [of _ 64]) (auto simp: sizeof_cookie_def)
  from rekey_false_success [OF q e r] show ?thesis unfolding T_def [symmetric] w_def [symmetric] env_def [symmetric] Let_def r
    by (simp add: T_def zero_session_def)
qed

end
