(* ===== verification/Lifecycle.thy ===== *)
theory Lifecycle
  imports Connect
begin

text \<open>
  Creating, starting, stopping and closing a tunnel (\<open>src/wireguard.c\<close>). What the allocator, the
  POSIX calls and the resolver return are arguments. The memory of a closed tunnel is what it holds
  when it is freed.
\<close>

section \<open>Model\<close>

record WgConfig =
  cfg_private_key :: bytes
  cfg_tunnel_ip :: u32
  cfg_peer_public_key :: bytes
  endpoint_host :: string
  endpoint_port :: u16
  cfg_keepalive_interval :: u16
  cfg_preshared_key :: bytes
  has_preshared_key :: bool

text \<open>The outcomes of the calls \<open>wg_init\<close> makes, in order.\<close>

record init_calls =
  calloc_ok :: bool
  getaddrinfo :: "string option \<Rightarrow> u16 \<Rightarrow> int \<times> sockaddr_in option"
  send_mutex_init :: int
  stop_mutex_init :: int
  stop_cond_init :: int
  pool_calloc_ok :: bool
  pool_mutex_ok :: bool

definition wg_init :: "init_calls \<Rightarrow> WgConfig option \<Rightarrow> WgTunnel option" where
  "wg_init c config =
     (case config of
        None \<Rightarrow> None
      | Some cfg \<Rightarrow>
          if \<not> calloc_ok c then None
          else
            (let tun = zero_tunnel;
                 tun = tun\<lparr>static_private := take 32 (cfg_private_key cfg)\<rparr>;
                 tun = tun\<lparr>static_public := crypto_x25519_public_key (static_private tun)\<rparr>;
                 tun = tun\<lparr>peer_public := take 32 (cfg_peer_public_key cfg)\<rparr>;
                 tun = tun\<lparr>tunnel_ip := cfg_tunnel_ip cfg\<rparr>;
                 tun = tun\<lparr>keepalive_interval := cfg_keepalive_interval cfg\<rparr>;
                 tun = (if has_preshared_key cfg
                        then tun\<lparr>preshared_key := take 32 (cfg_preshared_key cfg), has_psk := True\<rparr> else tun);
                 (err, tun) = wg_resolve_endpoint (getaddrinfo c) tun (Some (endpoint_host cfg)) (endpoint_port cfg)
             in if err \<noteq> WG_OK then None
                else
                  (let tun = tun\<lparr>socket_fd := -1\<rparr>;
                       tun = tun\<lparr>session := (session tun)\<lparr>valid := False\<rparr>\<rparr>;
                       tun = tun\<lparr>running := False\<rparr>;
                       tun = tun\<lparr>has_recv_cb := False\<rparr>
                   in if send_mutex_init c \<noteq> 0 then None
                      else
                        (let (r, sc) = wg_stop_cond_init (stop_mutex_init c) (stop_cond_init c) \<lparr>pred = stop_pred tun\<rparr>;
                             tun = tun\<lparr>stop_pred := pred sc\<rparr>
                         in if r \<noteq> 0 then None
                            else
                              (let (r, pool) = wg_recv_pool_init (pool_calloc_ok c) (pool_mutex_ok c) (Some (recv_pool tun))
                               in if r \<noteq> 0 then None
                                  else
                                    (let tun = tun\<lparr>recv_pool := the pool\<rparr>;
                                         tun = tun\<lparr>canary_begin := WG_CANARY_MAGIC\<rparr>;
                                         tun = tun\<lparr>canary_end := WG_CANARY_MAGIC\<rparr>
                                     in Some tun))))))"

text \<open>\<open>r1\<close>, \<open>r2\<close>: results of the two calls of \<open>wg_thread_create\<close>.\<close>

definition wg_start :: "int \<Rightarrow> int \<Rightarrow> WgTunnel option \<Rightarrow> WgError \<times> WgTunnel option" where
  "wg_start r1 r2 t =
     (case t of
        None \<Rightarrow> (WG_ERR_INVALID_CONFIG, None)
      | Some tun \<Rightarrow>
          if \<not> valid (session tun) \<and> peer_count tun = 0 then (WG_ERR_NOT_CONNECTED, Some tun)
          else if running tun then (WG_ERR_ALREADY_RUNNING, Some tun)
          else
            (let tun = tun\<lparr>stop_pred := False\<rparr>
             in if r1 \<noteq> 0 then (WG_ERR_THREAD, Some tun)
                else if r2 \<noteq> 0
                then (WG_ERR_THREAD, Some (tun\<lparr>stop_pred := pred (wg_stop_cond_signal \<lparr>pred = stop_pred tun\<rparr>)\<rparr>))
                else (WG_OK, Some (tun\<lparr>running := True\<rparr>))))"

text \<open>The joins return when the threads have seen the condition; what they did before is a step of its own.\<close>

definition wg_stop :: "WgTunnel option \<Rightarrow> WgTunnel option" where
  "wg_stop t =
     (case t of
        None \<Rightarrow> None
      | Some tun \<Rightarrow>
          if \<not> running tun then Some tun
          else
            (let tun = tun\<lparr>stop_pred := pred (wg_stop_cond_signal \<lparr>pred = stop_pred tun\<rparr>)\<rparr>
             in Some (tun\<lparr>running := False\<rparr>)))"

definition wg_close :: "WgTunnel option \<Rightarrow> WgTunnel option" where
  "wg_close t =
     (case wg_stop t of
        None \<Rightarrow> None
      | Some tun \<Rightarrow>
          (let tun = wg_socket_close tun;
               tun = tun\<lparr>recv_pool := the (wg_recv_pool_destroy (Some (recv_pool tun)))\<rparr>;
               tun = tun\<lparr>static_private := replicate 32 0\<rparr>;
               tun = tun\<lparr>preshared_key := replicate 32 0\<rparr>;
               tun = tun\<lparr>session := zero_session\<rparr>;
               tun = tun\<lparr>prev_session := zero_session\<rparr>
           in Some tun))"

end
