(* ===== verification/Relay.thy ===== *)
theory Relay
  imports Lifecycle
begin

text \<open>
  The local UDP relay of \<open>src/wg_relay.c\<close>: a thread forwards the datagrams of a local client into the
  tunnel, and the tunnel's receive callback sends what arrives back to the last client. Socket calls
  return what the arguments say.
\<close>

section \<open>Model\<close>

definition RELAY_MAX_PACKET :: nat where [wg_consts]: "RELAY_MAX_PACKET = 65535"

record WgRelay =
  local_socket :: int
  local_port :: u16
  client_addr :: sockaddr_in
  has_client :: bool
  relay_stop :: WgStopCond
  relay_running :: bool

text \<open>The callback's user state: the relay and the datagrams it has sent on its local socket.\<close>

type_synonym relay_out = "(sockaddr_in \<times> bytes) list"

definition relay_recv_callback :: "nat \<Rightarrow> bytes \<Rightarrow> WgRelay \<times> relay_out \<Rightarrow> bool \<times> WgRelay \<times> relay_out" where
  "relay_recv_callback slot data u =
     (let (relay, out) = u
      in if \<not> has_client relay then (False, relay, out)
         else (False, relay, out @ [(client_addr relay, data)]))"

text \<open>One round of the thread; \<open>ev\<close> is what \<open>poll\<close> and \<open>recvfrom\<close> give.\<close>

definition relay_thread_round :: "udp_outcome \<Rightarrow> WgRelay \<times> WgTunnel \<times> world \<Rightarrow> WgRelay \<times> WgTunnel \<times> world" where
  "relay_thread_round ev st =
     (let (relay, tun, w) = st
      in if poll_ret ev \<le> 0 then (relay, tun, w)
         else if \<not> pollin ev then (relay, tun, w)
         else
           (case datagram ev of
              None \<Rightarrow> (relay, tun, w)
            | Some (data, from_addr) \<Rightarrow>
                (let buf = take RELAY_MAX_PACKET data
                 in if buf = [] then (relay, tun, w)
                    else
                      (let relay = relay\<lparr>client_addr := from_addr\<rparr>;
                           relay = relay\<lparr>has_client := True\<rparr>;
                           (r, t, w) = wg_send (Some tun) buf w
                       in (relay, the t, w)))))"

fun relay_thread_func :: "(bool \<times> udp_outcome) list \<Rightarrow> WgRelay \<times> WgTunnel \<times> world \<Rightarrow> WgRelay \<times> WgTunnel \<times> world" where
  "relay_thread_func [] st = st"
| "relay_thread_func ((stop, ev) # evs) st = (if stop then st else relay_thread_func evs (relay_thread_round ev st))"

text \<open>
  Creation: whether the tunnel is given and the memory allocated, the socket, whether \<open>bind\<close> succeeds, the
  port \<open>getsockname\<close> reports, and the result of the stop condition's initialisation.
\<close>

definition wg_relay_create :: "bool \<Rightarrow> bool \<Rightarrow> int \<Rightarrow> bool \<Rightarrow> u16 \<Rightarrow> int \<Rightarrow> u16 \<Rightarrow> WgRelay option" where
  "wg_relay_create has_tun alloc_ok fd bind_ok bound_port stop_init port =
     (if \<not> has_tun then None
      else if \<not> alloc_ok then None
      else
        (let relay = \<lparr>local_socket = 0, local_port = port, client_addr = zero_addr, has_client = False,
                      relay_stop = \<lparr>pred = False\<rparr>, relay_running = False\<rparr>;
             relay = relay\<lparr>local_socket := fd\<rparr>
         in if local_socket relay < 0 then None
            else if \<not> bind_ok then None
            else
              (let relay = (if port = 0 then relay\<lparr>local_port := bound_port\<rparr> else relay);
                   relay = relay\<lparr>relay_stop := (relay_stop relay)\<lparr>pred := False\<rparr>\<rparr>
               in if stop_init \<noteq> 0 then None else Some relay)))"

text \<open>\<open>r1\<close>, \<open>r2\<close>, \<open>r3\<close>: the results of creating the tunnel's two threads and the relay's.\<close>

definition wg_relay_start :: "int \<Rightarrow> int \<Rightarrow> int \<Rightarrow> WgRelay option \<Rightarrow> WgTunnel \<Rightarrow> int \<times> WgRelay option \<times> WgTunnel" where
  "wg_relay_start r1 r2 r3 rel tun =
     (case rel of
        None \<Rightarrow> (-1, None, tun)
      | Some relay \<Rightarrow>
          if relay_running relay then (-1, Some relay, tun)
          else
            (let tun = the (wg_set_recv_callback (Some tun) True);
                 (err, t) = wg_start r1 r2 (Some tun);
                 tun = the t
             in if err \<noteq> WG_OK then (err_code err, Some relay, tun)
                else
                  (let relay = relay\<lparr>relay_stop := (relay_stop relay)\<lparr>pred := False\<rparr>\<rparr>
                   in if r3 \<noteq> 0 then (-1, Some relay, the (wg_stop (Some tun)))
                      else (0, Some (relay\<lparr>relay_running := True\<rparr>), tun))))"

definition wg_relay_stop :: "WgRelay option \<Rightarrow> WgTunnel \<Rightarrow> WgRelay option \<times> WgTunnel" where
  "wg_relay_stop rel tun =
     (case rel of
        None \<Rightarrow> (None, tun)
      | Some relay \<Rightarrow>
          if \<not> relay_running relay then (Some relay, tun)
          else
            (let relay = relay\<lparr>relay_stop := wg_stop_cond_signal (relay_stop relay)\<rparr>;
                 tun = the (wg_stop (Some tun))
             in (Some (relay\<lparr>relay_running := False\<rparr>), tun)))"

definition wg_relay_destroy :: "WgRelay option \<Rightarrow> WgTunnel \<Rightarrow> WgTunnel" where
  "wg_relay_destroy rel tun = snd (wg_relay_stop rel tun)"

definition wg_relay_get_port :: "WgRelay option \<Rightarrow> u16" where
  "wg_relay_get_port rel = (case rel of None \<Rightarrow> 0 | Some relay \<Rightarrow> local_port relay)"

section \<open>Facts\<close>

text \<open>A send returns the tunnel it was given, with another session and times at most.\<close>

lemma send_some: "\<exists>r tun' w'. wg_send (Some tun) data w = (r, Some tun', w')"
proof -
  obtain r t' w' where s: "wg_send (Some tun) data w = (r, t', w')" by (metis prod_cases3)
  from s show ?thesis by (cases rule: send_cases) (use s in auto)
qed

text \<open>
  The relay's callback never keeps a slot, so a receive thread that runs with it leaves the free list as it was.
\<close>

lemma relay_keeps_none: "fst (relay_recv_callback i d u) = False"
  by (simp add: relay_recv_callback_def split_def Let_def)

text \<open>A client's datagram becomes one packet of the tunnel, and the client becomes the target of the answers.\<close>

lemma relay_forwards:
  assumes "valid (session tun)" "\<not> fst (wg_session_expired tun w)" "relay_send w"
    and "data \<noteq> []" "length data \<le> 2016"
    and "relay_thread_round \<lparr>poll_ret = 1, pollin = True, datagram = Some (data, from)\<rparr> (relay, tun, w) = (relay', tun', w')"
  shows "sent_log w' = sent_log w @ [ToRelay None (transport_packet (session tun) data)] \<and>
    relay' = relay\<lparr>client_addr := from, has_client := True\<rparr>"
proof -
  obtain t1 w1 where "wg_send (Some tun) data w = (Inr (length data), Some t1, w1)"
      "sent_log w1 = sent_log w @ [ToRelay None (transport_packet (session tun) data)]"
    by (rule send_relay [OF assms(1-3,5)])
  then show ?thesis using assms(4-6)
    by (simp add: relay_thread_round_def RELAY_MAX_PACKET_def Let_def)
qed

end
