(* ===== verification/Netif.thy ===== *)
theory Netif
  imports Relay
begin

text \<open>
  The lwIP network interface of \<open>lwip-relay/src/wg_netif.c\<close>. lwIP itself is not part of the sources: the
  content of its packet buffers and the results of its functions are arguments. A packet buffer that
  wraps a receive slot is represented by its holder; lwIP calls the holder's free function when it drops the
  last reference.
\<close>

section \<open>Model\<close>

definition WG_MTU :: nat where [wg_consts]: "WG_MTU = 1420"

text \<open>The lwIP results the code tells apart, and all others.\<close>

datatype err_t = ERR_OK | ERR_BUF | ERR_RTE | ERR_IF | ERR_ARG | ERR_LWIP int

text \<open>\<open>pbuf_copy_partial n\<close> is what lwIP copies of the packet into a buffer of \<open>n\<close> bytes.\<close>

definition wg_netif_output ::
  "(nat \<Rightarrow> bytes) \<Rightarrow> u32 \<Rightarrow> WgTunnel option \<Rightarrow> world \<Rightarrow> err_t \<times> WgTunnel option \<times> world" where
  "wg_netif_output pbuf_copy_partial ipaddr t w =
     (case t of
        None \<Rightarrow> (ERR_IF, None, w)
      | Some tunnel \<Rightarrow>
          (let buf = pbuf_copy_partial 1500
           in if buf = [] then (ERR_BUF, t, w)
              else
                (case wg_find_peer_by_ip t ipaddr of
                   None \<Rightarrow> (ERR_RTE, t, w)
                 | Some i \<Rightarrow>
                     if \<not> connected (peers tunnel ! i) \<or> \<not> valid (p_session (peers tunnel ! i))
                     then
                       (let (h_ret, tunnel, init_msg, hs_state, w) = wg_handshake_init_peer tunnel i zero_hs w
                        in if h_ret = WG_OK
                           then
                             (let (_, w) = wg_socket_send_to tunnel (Some (relay_hash (peers tunnel ! i))) (init_bytes init_msg) w;
                                  peer = peers tunnel ! i;
                                  peer = peer\<lparr>pending_hs := hs_state\<rparr>;
                                  peer = peer\<lparr>hs_pending := True\<rparr>
                              in (ERR_OK, Some (set_peer tunnel i peer), w))
                           else (ERR_OK, Some tunnel, w))
                     else
                       (let (ret, t, w) = wg_send_to_peer t (Some i) buf w
                        in (case ret of Inl _ \<Rightarrow> (ERR_IF, t, w) | Inr _ \<Rightarrow> (ERR_OK, t, w))))))"

record netif =
  netif_name :: string
  netif_mtu :: nat
  netif_up :: bool
  netif_link_up :: bool
  netif_state :: bool

definition wg_netif_init :: "netif \<Rightarrow> err_t \<times> netif" where
  "wg_netif_init netif =
     (let netif = netif\<lparr>netif_name := ''wg''\<rparr>;
          netif = netif\<lparr>netif_mtu := WG_MTU\<rparr>;
          netif = netif\<lparr>netif_up := True, netif_link_up := True\<rparr>
      in (ERR_OK, netif))"

text \<open>
  The copying input: the result is the packet given to lwIP and whether it was refused and freed. The
  buffer has the length modulo \<open>2 ^ 16\<close>; \<open>None\<close> is a copy past its end.
\<close>

definition wg_netif_input :: "bool \<Rightarrow> err_t \<Rightarrow> bool \<Rightarrow> bytes option \<Rightarrow> (bytes option \<times> bool) option" where
  "wg_netif_input pbuf_alloc_ok input_err has_netif data =
     (case data of
        None \<Rightarrow> Some (None, False)
      | Some d \<Rightarrow>
          if \<not> has_netif \<or> d = [] then Some (None, False)
          else if \<not> pbuf_alloc_ok then Some (None, False)
          else
            (let cap = unat (word_of_nat (length d) :: u16)
             in if cap < length d then None
                else if input_err \<noteq> ERR_OK then Some (Some d, True)
                else Some (Some d, False)))"

text \<open>The holder of a slot; a tunnel pointer is whether it is set, since there is one tunnel.\<close>

record WgSlotPbuf =
  h_tunnel :: bool
  h_slot :: "nat option"
  in_use :: bool

definition clear_holder :: "WgSlotPbuf \<Rightarrow> WgSlotPbuf" where
  "clear_holder holder = holder\<lparr>in_use := False, h_tunnel := False, h_slot := None\<rparr>"

definition wg_slot_pbuf_free :: "WgSlotPbuf \<Rightarrow> WgTunnel \<Rightarrow> WgSlotPbuf \<times> WgTunnel" where
  "wg_slot_pbuf_free holder t =
     (let tun = h_tunnel holder;
          slot = h_slot holder;
          holder = clear_holder holder
      in (holder, if tun \<and> slot \<noteq> None then the (wg_recv_slot_release (Some t) slot) else t))"

text \<open>
  What lwIP does with a packet: whether it makes the buffer, the result of \<open>input\<close>, and whether it has dropped
  its last reference when \<open>input\<close> returns.
\<close>

record lwip_input =
  custom_ok :: bool
  input_result :: err_t
  drops :: bool

definition wg_netif_input_slot ::
  "lwip_input \<Rightarrow> WgTunnel \<Rightarrow> nat \<Rightarrow> bytes \<Rightarrow> WgSlotPbuf \<Rightarrow> WgSlotPbuf \<times> WgTunnel \<times> bytes option" where
  "wg_netif_input_slot l tunnel slot data holder =
     (if data = [] then (holder, the (wg_recv_slot_release (Some tunnel) (Some slot)), None)
      else
        (let holder = holder\<lparr>h_tunnel := True\<rparr>;
             holder = holder\<lparr>h_slot := Some slot\<rparr>;
             holder = holder\<lparr>in_use := True\<rparr>
         in if \<not> custom_ok l
            then (clear_holder holder, the (wg_recv_slot_release (Some tunnel) (Some slot)), None)
            else if input_result l \<noteq> ERR_OK \<or> drops l
            then (let (holder, tunnel) = wg_slot_pbuf_free holder tunnel in (holder, tunnel, Some data))
            else (holder, tunnel, Some data)))"

definition wg_netif_set_tunnel :: "netif option \<Rightarrow> bool \<Rightarrow> netif option" where
  "wg_netif_set_tunnel n tunnel = map_option (\<lambda>netif. netif\<lparr>netif_state := tunnel\<rparr>) n"

section \<open>Facts\<close>

lemma slot_release: "the (wg_recv_slot_release (Some t) slot) = release_slot t slot"
  by (simp add: wg_recv_slot_release_def release_slot_def)

text \<open>The slot of a packet is in its holder afterwards, or back in the pool.\<close>

definition holds :: "WgSlotPbuf \<Rightarrow> nat list" where
  "holds h = (if in_use h \<and> h_tunnel h then (case h_slot h of None \<Rightarrow> [] | Some i \<Rightarrow> [i]) else [])"

lemma free_holder:
  assumes "in_use h" "wg_slot_pbuf_free h t = (h', t')"
  shows "holds h' = [] \<and> \<not> in_use h' \<and> t' = (case holds h of [] \<Rightarrow> t | i # _ \<Rightarrow> release_slot t (Some i))"
  using assms by (auto simp: wg_slot_pbuf_free_def clear_holder_def holds_def slot_release Let_def split: option.splits)

lemma input_slot_cases:
  assumes "wg_netif_input_slot l t i d h = (h', t', m)" and "\<not> in_use h"
  shows "holds h' = [] \<and> \<not> in_use h' \<and> t' = release_slot t (Some i) \<or> holds h' = [i] \<and> t' = t"
  using assms
  by (auto simp: wg_netif_input_slot_def wg_slot_pbuf_free_def clear_holder_def holds_def slot_release Let_def split: if_splits)

text \<open>Packets of 65536 bytes and more would be copied past the end of the buffer; the tunnel never has such packets.\<close>

lemma netif_input_fits: "length d < 2 ^ 16 \<Longrightarrow> wg_netif_input a e n (Some d) \<noteq> None"
  by (auto simp: wg_netif_input_def unsigned_of_nat Let_def take_bit_nat_def)

section \<open>Properties\<close>

lemma init_peer_sends:
  assumes "wg_handshake_init_peer tun i st w = (ret, tun1, msg, hs, w1)" and "i < length (peers tun)"
  shows "ret = WG_OK \<and> relay_send w1 = relay_send w \<and> sent_log w1 = sent_log w \<and> relay_hash (peers tun1 ! i) = relay_hash (peers tun ! i) \<and>
    (\<exists>p. tun1 = set_peer tun i p)"
  using assms
  by (auto simp: wg_handshake_init_peer_def set_peer_def randomGet_def wg_random_index_def wg_random_u32_def clock_realtime_def
      wg_time_now_def Let_def split: if_splits prod.splits)

lemma to_peer_sends:
  assumes "relay_send w" "connected (peers tun ! i)" "valid (p_session (peers tun ! i))" "length data \<le> 2016"
  shows "\<exists>p b w'. wg_send_to_peer (Some tun) (Some i) data w = (Inr (length data), Some (set_peer (tun\<lparr>send_buffer := b\<rparr>) i p), w') \<and>
    sent_log w' = sent_log w @ [ToRelay (Some (relay_hash (peers tun ! i))) (transport_packet (p_session (peers tun ! i)) data)]"
  using assms
  by (auto simp: wg_send_to_peer_def wg_socket_send_to_def wg_time_now_def wg_consts sizeof_transport_def WG_AEAD_TAG_LEN_def memcpy_start Let_def)

text \<open>
  C14: Packets of lwIP leave for the peer that owns their destination. A packet without content or to an address of no
  configured peer is refused and nothing changes. Otherwise exactly one packet leaves, to the relay address
  of the first peer with that address: the packet itself, sealed under this peer's session, if there is one, or a handshake
  initiation. No other peer changes.
\<close>

theorem output_routes:
  assumes "relay_send w" and "table_ok tun" and "\<forall>n. length (pbuf_copy_partial n) \<le> n"
    and "wg_netif_output pbuf_copy_partial ip (Some tun) w = (err, t, w')"
  shows "(pbuf_copy_partial 1500 = [] \<or> (\<forall>i < peer_count tun. configured (peers tun ! i) \<longrightarrow> ip_raw (peers tun ! i) \<noteq> ip)) \<and>
      err \<noteq> ERR_OK \<and> t = Some tun \<and> w' = w \<or>
    (\<exists>i < peer_count tun. \<exists>tun' packet. configured (peers tun ! i) \<and> ip_raw (peers tun ! i) = ip \<and>
      err = ERR_OK \<and> t = Some tun' \<and> (\<forall>j. j \<noteq> i \<longrightarrow> peers tun' ! j = peers tun ! j) \<and>
      sent_log w' = sent_log w @ [ToRelay (Some (relay_hash (peers tun ! i))) packet] \<and>
      (if connected (peers tun ! i) \<and> valid (p_session (peers tun ! i))
       then packet = transport_packet (p_session (peers tun ! i)) (pbuf_copy_partial 1500)
       else \<exists>tun1 msg w1. wg_handshake_init_peer tun i zero_hs w = (WG_OK, tun1, msg, pending_hs (peers tun' ! i), w1) \<and>
              packet = init_bytes msg \<and> hs_pending (peers tun' ! i)))"
proof -
  define d where "d = pbuf_copy_partial 1500"
  have dl: "length d \<le> 2016" using assms(3) [rule_format, of 1500] by (simp add: d_def)
  note o = assms(4) [unfolded wg_netif_output_def option.case d_def [symmetric] Let_def split_def]
  consider "d = []" | "d \<noteq> []" "wg_find_peer_by_ip (Some tun) ip = None"
    | i where "d \<noteq> []" "wg_find_peer_by_ip (Some tun) ip = Some i" by fastforce
  then show ?thesis
  proof cases
    case 1
    then show ?thesis using o by (simp add: d_def)
  next
    case 2
    then have "\<forall>i < peer_count tun. configured (peers tun ! i) \<longrightarrow> ip_raw (peers tun ! i) \<noteq> ip"
      by (auto simp: wg_find_peer_by_ip_def find_None_iff)
    moreover have "err \<noteq> ERR_OK \<and> t = Some tun \<and> w' = w" using o 2 by auto
    ultimately show ?thesis by blast
  next
    case (3 i)
    then have i: "i < peer_count tun" "configured (peers tun ! i)" "ip_raw (peers tun ! i) = ip"
      by (auto simp: wg_find_peer_by_ip_def find_Some_iff)
    then have il: "i < length (peers tun)" using assms(2) by (simp add: table_ok_def wg_consts)
    show ?thesis
    proof (cases "connected (peers tun ! i) \<and> valid (p_session (peers tun ! i))")
      case True
      obtain tun' where "t = Some tun'" "err = ERR_OK" "\<forall>j. j \<noteq> i \<longrightarrow> peers tun' ! j = peers tun ! j"
        "sent_log w' = sent_log w @ [ToRelay (Some (relay_hash (peers tun ! i))) (transport_packet (p_session (peers tun ! i)) d)]"
        using o 3 True to_peer_sends [OF assms(1) _ _ dl, of tun i] by (auto simp: set_peer_def)
      then show ?thesis using i True unfolding d_def by auto
    next
      case False
      obtain ret tun1 msg hs w1 where h: "wg_handshake_init_peer tun i zero_hs w = (ret, tun1, msg, hs, w1)" by (metis prod_cases5)
      note hi = init_peer_sends [OF h il]
      then obtain p where p: "tun1 = set_peer tun i p" "ret = WG_OK" by blast
      define tun' where "tun' = set_peer tun1 i ((peers tun1 ! i)\<lparr>pending_hs := hs, hs_pending := True\<rparr>)"
      have e: "err = ERR_OK" "t = Some tun'"
          "sent_log w' = sent_log w @ [ToRelay (Some (relay_hash (peers tun ! i))) (init_bytes msg)]"
        using o 3 False h hi assms(1) by (auto simp: wg_socket_send_to_def tun'_def)
      moreover have "\<forall>j. j \<noteq> i \<longrightarrow> peers tun' ! j = peers tun ! j" "pending_hs (peers tun' ! i) = hs" "hs_pending (peers tun' ! i)"
        using il by (simp_all add: tun'_def p(1) set_peer_def)
      ultimately show ?thesis using i False h p(2) by auto
    qed
  qed
qed

theorem output_routes_witness:
  "let p = zero_peer\<lparr>configured := True, connected := True, ip_raw := 10, relay_hash := [9], p_session := zero_session\<lparr>valid := True\<rparr>\<rparr>;
       tun = zero_tunnel\<lparr>peers := p # replicate 63 zero_peer, peer_count := 1\<rparr>;
       (err, t, w') = wg_netif_output (\<lambda>n. take n [1, 2, 3]) 10 (Some tun) quiet_world
   in err = ERR_OK \<and> sent_log w' = sent_log quiet_world @ [ToRelay (Some [9]) (transport_packet (p_session p) [1, 2, 3])]"
proof -
  define p where "p = zero_peer\<lparr>configured := True, connected := True, ip_raw := 10, relay_hash := [9], p_session := zero_session\<lparr>valid := True\<rparr>\<rparr>"
  define tun where "tun = zero_tunnel\<lparr>peers := p # replicate 63 zero_peer, peer_count := 1\<rparr>"
  define cp :: "nat \<Rightarrow> bytes" where "cp = (\<lambda>n. take n [1, 2, 3])"
  obtain err t w' where r: "wg_netif_output cp 10 (Some tun) quiet_world = (err, t, w')" by (metis prod_cases3)
  have a: "relay_send quiet_world" "table_ok tun" "\<forall>n. length (cp n) \<le> n"
    by (simp_all add: quiet_world_def tun_def table_ok_def wg_consts cp_def)
  have "peers tun ! 0 = p" "peer_count tun = 1" by (simp_all add: tun_def)
  then show ?thesis using output_routes [OF a r] r
    unfolding Let_def p_def [symmetric] tun_def [symmetric] cp_def [symmetric]
    by (auto simp: p_def cp_def dest: spec [of _ 0])
qed

end
