(* ===== verification/LwipRelay.thy ===== *)
theory LwipRelay
  imports Netif "HOL-Library.Multiset"
begin

text \<open>
  The user space TCP and UDP relay of \<open>lwip-relay/src/wg_lwip_relay.cpp\<close>: packets of the tunnel go through
  a queue to lwIP, and lwIP's connections are joined with local sockets. The results of sockets and of lwIP are
  arguments; what the relay does to them is recorded in \<open>effects\<close>, in order. A \<open>std::map\<close> is an association list in
  key order. A connection object has a number of its own, which stands for its address, since lwIP keeps a
  raw pointer to it; a callback on an object that has been destroyed has the result \<open>None\<close>.
\<close>

section \<open>Model\<close>

subsection \<open>Ordered maps\<close>

fun map_put :: "'k::linorder \<Rightarrow> 'v \<Rightarrow> ('k \<times> 'v) list \<Rightarrow> ('k \<times> 'v) list" where
  "map_put k v [] = [(k, v)]"
| "map_put k v ((k', v') # m) =
     (if k = k' then (k, v) # m else if k < k' then (k, v) # (k', v') # m else (k', v') # map_put k v m)"

definition map_erase :: "'k \<Rightarrow> ('k \<times> 'v) list \<Rightarrow> ('k \<times> 'v) list" where
  "map_erase k m = filter (\<lambda>(k', v). k' \<noteq> k) m"

subsection \<open>State\<close>

record TcpConnection =
  conn_id :: nat
  t_localSock :: int
  t_pcb :: "nat option"
  t_localPort :: u16
  t_targetPort :: u16
  t_connected :: bool

record UdpBinding =
  u_localSock :: int
  u_pcb :: "nat option"
  u_localPort :: u16
  u_targetPort :: u16
  u_clientAddr :: sockaddr_in
  u_hasClient :: bool

record IncomingSlot =
  i_slot :: nat
  i_data :: bytes

datatype effect =
    CloseSock int | Wake
  | LwipInit | NetifAdd u32 | NetifRemove
  | TcpConnect nat u32 u16 | TcpWrite nat bytes | TcpClose nat | TcpAbort nat | TcpRecved nat nat
  | UdpSendto nat u32 u16 bytes | UdpRemove nat
  | LocalSend int bytes | LocalSendto int sockaddr_in bytes
  | Input bytes

record LwipRelay =
  lr_running :: bool
  lr_initialized :: bool
  lr_netif :: netif
  tunnelAddr :: u32
  targetAddr :: u32
  tcpListeners :: "(u16 \<times> int) list"
  tcpConnections :: "(int \<times> TcpConnection) list"
  udpBindings :: "(u16 \<times> UdpBinding) list"
  incomingQueue :: "IncomingSlot list"
  slotHolders :: "WgSlotPbuf list"
  wakeFd :: "int \<times> int"
  next_conn :: nat
  effects :: "effect list"

definition emit :: "effect \<Rightarrow> LwipRelay \<Rightarrow> LwipRelay" where
  "emit e r = r\<lparr>effects := effects r @ [e]\<rparr>"

definition kSlotHolderCount :: nat where [wg_consts]: "kSlotHolderCount = 128"

definition zero_netif :: netif where
  "zero_netif = \<lparr>netif_name = '''', netif_mtu = 0, netif_up = False, netif_link_up = False, netif_state = False\<rparr>"

definition LwipRelay_new :: LwipRelay where
  "LwipRelay_new =
     \<lparr>lr_running = False, lr_initialized = False, lr_netif = zero_netif, tunnelAddr = 0, targetAddr = 0,
      tcpListeners = [], tcpConnections = [], udpBindings = [], incomingQueue = [],
      slotHolders = replicate kSlotHolderCount \<lparr>h_tunnel = False, h_slot = None, in_use = False\<rparr>,
      wakeFd = (-1, -1), next_conn = 0, effects = []\<rparr>"

subsection \<open>Starting and stopping\<close>

text \<open>Results of \<open>inet_pton\<close> on the two addresses and of the socket calls.\<close>

record start_calls =
  pton_tunnel :: "u32 option"
  pton_target :: "u32 option"
  wake0 :: int
  wake1 :: int
  wake_bind :: int
  wake_getsockname :: int
  wake_connect :: int

definition netif_down :: "LwipRelay \<Rightarrow> LwipRelay" where
  "netif_down r = emit NetifRemove (r\<lparr>lr_netif := (lr_netif r)\<lparr>netif_up := False\<rparr>\<rparr>)"

definition close_wake :: "LwipRelay \<Rightarrow> LwipRelay" where
  "close_wake r =
     (let r = (if 0 \<le> fst (wakeFd r) then (emit (CloseSock (fst (wakeFd r))) r)\<lparr>wakeFd := (-1, snd (wakeFd r))\<rparr> else r)
      in if 0 \<le> snd (wakeFd r) then (emit (CloseSock (snd (wakeFd r))) r)\<lparr>wakeFd := (fst (wakeFd r), -1)\<rparr> else r)"

definition signalWake :: "LwipRelay \<Rightarrow> LwipRelay" where
  "signalWake r = (if snd (wakeFd r) < 0 then r else emit Wake r)"

definition LwipRelay_start :: "start_calls \<Rightarrow> LwipRelay \<Rightarrow> WgTunnel \<Rightarrow> bool \<times> LwipRelay \<times> WgTunnel" where
  "LwipRelay_start c r tun =
     (if lr_running r then (False, r, tun)
      else
        (let r = (if \<not> lr_initialized r then (emit LwipInit r)\<lparr>lr_initialized := True\<rparr> else r)
         in case pton_tunnel c of
              None \<Rightarrow> (False, r, tun)
            | Some a \<Rightarrow>
                (let r = r\<lparr>tunnelAddr := a\<rparr>
                 in case pton_target c of
                      None \<Rightarrow> (False, r, tun)
                    | Some b \<Rightarrow>
                        (let r = r\<lparr>targetAddr := b\<rparr>;
                             r = emit (NetifAdd a) (r\<lparr>lr_netif := snd (wg_netif_init ((lr_netif r)\<lparr>netif_state := True\<rparr>))\<rparr>);
                             r = r\<lparr>wakeFd := (wake0 c, wake1 c)\<rparr>
                         in if wake0 c < 0 \<or> wake1 c < 0 then (False, netif_down (close_wake r), tun)
                            else if wake_bind c < 0 then (False, netif_down (close_wake r), tun)
                            else if wake_getsockname c < 0 \<or> wake_connect c < 0
                            then (False, netif_down (close_wake r), tun)
                            else
                              (let r = r\<lparr>lr_running := True\<rparr>
                               in (True, r, the (wg_set_recv_callback (Some tun) True)))))))"

text \<open>The slots still in the queue go back to the pool.\<close>

definition drain_queue :: "LwipRelay \<Rightarrow> WgTunnel \<Rightarrow> LwipRelay \<times> WgTunnel" where
  "drain_queue r tun =
     (r\<lparr>incomingQueue := []\<rparr>,
      fold (\<lambda>p t. the (wg_recv_slot_release (Some t) (Some (i_slot p)))) (incomingQueue r) tun)"

definition close_conn :: "TcpConnection \<Rightarrow> LwipRelay \<Rightarrow> LwipRelay" where
  "close_conn c r =
     (let r = (if 0 \<le> t_localSock c then emit (CloseSock (t_localSock c)) r else r)
      in case t_pcb c of None \<Rightarrow> r | Some p \<Rightarrow> emit (TcpAbort p) r)"

definition close_binding :: "UdpBinding \<Rightarrow> LwipRelay \<Rightarrow> LwipRelay" where
  "close_binding b r =
     (let r = (if 0 \<le> u_localSock b then emit (CloseSock (u_localSock b)) r else r)
      in case u_pcb b of None \<Rightarrow> r | Some p \<Rightarrow> emit (UdpRemove p) r)"

definition LwipRelay_stop :: "LwipRelay \<Rightarrow> WgTunnel \<Rightarrow> LwipRelay \<times> WgTunnel" where
  "LwipRelay_stop r tun =
     (let r = r\<lparr>lr_running := False\<rparr>;
          tun = the (wg_set_recv_callback (Some tun) False);
          r = signalWake r;
          r = close_wake r;
          (r, tun) = drain_queue r tun;
          r = fold (\<lambda>(port, sock). emit (CloseSock sock)) (tcpListeners r) r;
          r = r\<lparr>tcpListeners := []\<rparr>;
          r = fold (\<lambda>(sock, c). close_conn c) (tcpConnections r) r;
          r = r\<lparr>tcpConnections := []\<rparr>;
          r = fold (\<lambda>(port, b). close_binding b) (udpBindings r) r;
          r = r\<lparr>udpBindings := []\<rparr>;
          r = (if netif_up (lr_netif r) then netif_down r else r)
      in (r, tun))"

subsection \<open>Opening relays\<close>

text \<open>Results of \<open>socket\<close>, \<open>bind\<close> and \<open>listen\<close>.\<close>

definition createTcpListener :: "int \<times> int \<times> int \<Rightarrow> LwipRelay \<Rightarrow> int \<times> LwipRelay" where
  "createTcpListener c r =
     (let (sock, bind_ret, listen_ret) = c
      in if sock < 0 then (-1, r)
         else if bind_ret < 0 then (-1, emit (CloseSock sock) r)
         else if listen_ret < 0 then (-1, emit (CloseSock sock) r)
         else (sock, r))"

definition createUdpSocket :: "int \<times> int \<Rightarrow> LwipRelay \<Rightarrow> int \<times> LwipRelay" where
  "createUdpSocket c r =
     (let (sock, bind_ret) = c
      in if sock < 0 then (-1, r)
         else if bind_ret < 0 then (-1, emit (CloseSock sock) r)
         else (sock, r))"

definition startTcpRelay :: "int \<times> int \<times> int \<Rightarrow> u16 \<Rightarrow> u16 \<Rightarrow> LwipRelay \<Rightarrow> u16 \<times> LwipRelay" where
  "startTcpRelay c targetPort localPort r =
     (if map_of (tcpListeners r) localPort \<noteq> None then (localPort, r)
      else
        (let (sock, r) = createTcpListener c r
         in if sock < 0 then (0, r)
            else
              (let r = r\<lparr>tcpListeners := map_put localPort sock (tcpListeners r)\<rparr>
               in (localPort, signalWake r))))"

text \<open>\<open>pcb\<close> and \<open>bind_err\<close>: results of \<open>udp_new\<close> and \<open>udp_bind\<close>.\<close>

definition startUdpRelay :: "int \<times> int \<Rightarrow> nat option \<Rightarrow> err_t \<Rightarrow> u16 \<Rightarrow> u16 \<Rightarrow> LwipRelay \<Rightarrow> u16 \<times> LwipRelay" where
  "startUdpRelay c pcb bind_err targetPort localPort r =
     (if map_of (udpBindings r) localPort \<noteq> None then (localPort, r)
      else
        (let (sock, r) = createUdpSocket c r
         in if sock < 0 then (0, r)
            else
              (case pcb of
                 None \<Rightarrow> (0, emit (CloseSock sock) r)
               | Some p \<Rightarrow>
                   if bind_err \<noteq> ERR_OK then (0, emit (CloseSock sock) (emit (UdpRemove p) r))
                   else
                     (let binding = \<lparr>u_localSock = sock, u_pcb = Some p, u_localPort = localPort,
                                     u_targetPort = targetPort, u_clientAddr = zero_addr, u_hasClient = False\<rparr>;
                          r = r\<lparr>udpBindings := map_put localPort binding (udpBindings r)\<rparr>
                      in (localPort, signalWake r)))))"

subsection \<open>Packets from the tunnel\<close>

text \<open>The callback of the receive thread, \<open>onTunnelRecv\<close>, passes its arguments on.\<close>

definition handleIncomingPacket :: "nat \<Rightarrow> bytes \<Rightarrow> LwipRelay \<Rightarrow> bool \<times> LwipRelay" where
  "handleIncomingPacket slot data r =
     (if \<not> lr_running r \<or> data = [] then (False, r)
      else
        (let was_empty = (incomingQueue r = []);
             r = r\<lparr>incomingQueue := incomingQueue r @ [\<lparr>i_slot = slot, i_data = data\<rparr>]\<rparr>
         in (True, if was_empty then signalWake r else r)))"

definition onTunnelRecv :: "nat \<Rightarrow> bytes \<Rightarrow> LwipRelay \<Rightarrow> bool \<times> LwipRelay" where
  "onTunnelRecv slot data user = handleIncomingPacket slot data user"

definition kMaxPerIteration :: nat where [wg_consts]: "kMaxPerIteration = 16"

definition process_packet :: "lwip_input \<times> IncomingSlot \<Rightarrow> LwipRelay \<times> WgTunnel \<Rightarrow> LwipRelay \<times> WgTunnel" where
  "process_packet lp st =
     (let (l, pkt) = lp; (r, tun) = st
      in case find (\<lambda>k. \<not> in_use (slotHolders r ! k)) [0..<length (slotHolders r)] of
           None \<Rightarrow> (r, the (wg_recv_slot_release (Some tun) (Some (i_slot pkt))))
         | Some k \<Rightarrow>
             (let (holder, tun, m) = wg_netif_input_slot l tun (i_slot pkt) (i_data pkt) (slotHolders r ! k);
                  r = r\<lparr>slotHolders := (slotHolders r)[k := holder]\<rparr>
              in (case m of None \<Rightarrow> r | Some d \<Rightarrow> emit (Input d) r, tun)))"

text \<open>\<open>ls\<close>: what lwIP does with the packets of the round, in order.\<close>

definition processIncomingQueue :: "(nat \<Rightarrow> lwip_input) \<Rightarrow> LwipRelay \<Rightarrow> WgTunnel \<Rightarrow> LwipRelay \<times> WgTunnel" where
  "processIncomingQueue ls r tun =
     (let n = min (length (incomingQueue r)) kMaxPerIteration;
          packets = take n (incomingQueue r);
          r = r\<lparr>incomingQueue := drop n (incomingQueue r)\<rparr>;
          more = (incomingQueue r \<noteq> []);
          (r, tun) = fold process_packet (zip (map ls [0..<n]) packets) (r, tun)
      in (if more then signalWake r else r, tun))"

subsection \<open>Local sockets\<close>

record accept_outcome =
  a_ret :: int
  a_pollin :: bool
  clientSock :: int
  new_pcb :: "nat option"
  connect_err :: err_t

definition poll_listener :: "(u16 \<Rightarrow> accept_outcome) \<Rightarrow> u16 \<times> int \<Rightarrow> LwipRelay \<Rightarrow> LwipRelay" where
  "poll_listener acc entry r =
     (let (localPort, listenSock) = entry; a = acc localPort
      in if a_ret a \<le> 0 \<or> \<not> a_pollin a then r
         else if clientSock a < 0 then r
         else
           (case new_pcb a of
              None \<Rightarrow> emit (CloseSock (clientSock a)) r
            | Some pcb \<Rightarrow>
                (let conn = \<lparr>conn_id = next_conn r, t_localSock = clientSock a, t_pcb = Some pcb,
                             t_localPort = localPort, t_targetPort = localPort, t_connected = False\<rparr>;
                     r = r\<lparr>next_conn := next_conn r + 1,
                           tcpConnections := map_put (clientSock a) conn (tcpConnections r)\<rparr>;
                     r = emit (TcpConnect pcb (targetAddr r) localPort) r
                 in if connect_err a \<noteq> ERR_OK
                    then (emit (CloseSock (clientSock a)) (emit (TcpAbort pcb) r))
                           \<lparr>tcpConnections := map_erase (clientSock a) (tcpConnections r)\<rparr>
                    else r)))"

definition pollTcpListeners :: "(u16 \<Rightarrow> accept_outcome) \<Rightarrow> LwipRelay \<Rightarrow> LwipRelay" where
  "pollTcpListeners acc r = fold (poll_listener acc) (tcpListeners r) r"

text \<open>A \<open>recv\<close> of no bytes is the end of the stream; \<open>RecvAgain\<close> is \<open>EAGAIN\<close> or \<open>EWOULDBLOCK\<close>.\<close>

datatype recv_ret = Received bytes | RecvAgain | RecvFailed

record conn_outcome =
  c_ret :: int
  c_pollin :: bool
  c_errhup :: bool
  c_recv :: recv_ret
  write_err :: err_t

definition close_pcb :: "int \<Rightarrow> TcpConnection \<Rightarrow> LwipRelay \<Rightarrow> LwipRelay" where
  "close_pcb sock conn r =
     (case t_pcb conn of
        None \<Rightarrow> r
      | Some p \<Rightarrow> emit (TcpClose p) (r\<lparr>tcpConnections := map_put sock (conn\<lparr>t_pcb := None\<rparr>) (tcpConnections r)\<rparr>))"

definition poll_conn ::
  "(int \<Rightarrow> conn_outcome) \<Rightarrow> int \<times> TcpConnection \<Rightarrow> LwipRelay \<times> int list \<Rightarrow> LwipRelay \<times> int list" where
  "poll_conn out entry st =
     (let (sock, conn) = entry; (r, toRemove) = st; c = out sock
      in if \<not> t_connected conn then (r, toRemove)
         else if c_ret c < 0 then (r, toRemove @ [sock])
         else if 0 < c_ret c \<and> c_pollin c
         then
           (case c_recv c of
              RecvAgain \<Rightarrow> (r, toRemove)
            | RecvFailed \<Rightarrow> (close_pcb sock conn r, toRemove @ [sock])
            | Received d \<Rightarrow>
                (let buf = take 2048 d
                 in if buf = [] then (close_pcb sock conn r, toRemove @ [sock])
                    else
                      (let r = (case t_pcb conn of
                                  None \<Rightarrow> r
                                | Some p \<Rightarrow> if write_err c = ERR_OK then emit (TcpWrite p buf) r else r)
                       in (r, if c_errhup c then toRemove @ [sock] else toRemove))))
         else (r, if c_errhup c then toRemove @ [sock] else toRemove))"

definition remove_conn :: "int \<Rightarrow> LwipRelay \<Rightarrow> LwipRelay" where
  "remove_conn sock r =
     (case map_of (tcpConnections r) sock of
        None \<Rightarrow> r
      | Some c \<Rightarrow> (close_conn c r)\<lparr>tcpConnections := map_erase sock (tcpConnections r)\<rparr>)"

definition pollTcpConnections :: "(int \<Rightarrow> conn_outcome) \<Rightarrow> LwipRelay \<Rightarrow> LwipRelay" where
  "pollTcpConnections out r =
     (let (r, toRemove) = fold (poll_conn out) (tcpConnections r) (r, []) in fold remove_conn toRemove r)"

definition poll_udp :: "(u16 \<Rightarrow> udp_outcome \<times> bool) \<Rightarrow> u16 \<times> UdpBinding \<Rightarrow> LwipRelay \<Rightarrow> LwipRelay" where
  "poll_udp out entry r =
     (let (port, binding) = entry; (o1, alloc_ok) = out port
      in if poll_ret o1 \<le> 0 \<or> \<not> pollin o1 then r
         else
           (case datagram o1 of
              None \<Rightarrow> r
            | Some (d, fromAddr) \<Rightarrow>
                (let buf = take 2048 d
                 in if buf = [] then r
                    else
                      (let binding = binding\<lparr>u_clientAddr := fromAddr\<rparr>;
                           binding = binding\<lparr>u_hasClient := True\<rparr>;
                           r = r\<lparr>udpBindings := map_put port binding (udpBindings r)\<rparr>
                       in if \<not> alloc_ok then r
                          else
                            (case u_pcb binding of
                               None \<Rightarrow> r
                             | Some p \<Rightarrow> emit (UdpSendto p (targetAddr r) (u_targetPort binding) buf) r)))))"

definition pollUdpSockets :: "(u16 \<Rightarrow> udp_outcome \<times> bool) \<Rightarrow> LwipRelay \<Rightarrow> LwipRelay" where
  "pollUdpSockets out r = fold (poll_udp out) (udpBindings r) r"

subsection \<open>Callbacks of lwIP\<close>

definition find_conn :: "nat \<Rightarrow> LwipRelay \<Rightarrow> (int \<times> TcpConnection) option" where
  "find_conn n r = find (\<lambda>(sock, c). conn_id c = n) (tcpConnections r)"

definition set_conn :: "int \<Rightarrow> TcpConnection \<Rightarrow> LwipRelay \<Rightarrow> LwipRelay" where
  "set_conn sock c r = r\<lparr>tcpConnections := map_put sock c (tcpConnections r)\<rparr>"

definition onTcpConnected :: "nat option \<Rightarrow> err_t \<Rightarrow> LwipRelay \<Rightarrow> (err_t \<times> LwipRelay) option" where
  "onTcpConnected arg err r =
     (case arg of
        None \<Rightarrow> Some (ERR_ARG, r)
      | Some n \<Rightarrow>
          if err \<noteq> ERR_OK then Some (err, r)
          else map_option (\<lambda>(sock, c). (ERR_OK, set_conn sock (c\<lparr>t_connected := True\<rparr>) r)) (find_conn n r))"

text \<open>A packet buffer is the list of its parts; \<open>payload\<close> and \<open>len\<close> are those of the first one.\<close>

definition tot_len :: "bytes list \<Rightarrow> nat" where
  "tot_len p = length (concat p)"

definition onTcpRecv :: "nat option \<Rightarrow> nat \<Rightarrow> bytes list option \<Rightarrow> err_t \<Rightarrow> LwipRelay \<Rightarrow> (err_t \<times> LwipRelay) option" where
  "onTcpRecv arg pcb p err r =
     (case arg of
        None \<Rightarrow> Some (ERR_ARG, r)
      | Some n \<Rightarrow>
          (case find_conn n r of
             None \<Rightarrow> None
           | Some (sock, c) \<Rightarrow>
               (case p of
                  None \<Rightarrow>
                    Some (ERR_OK, if 0 \<le> t_localSock c
                                  then emit (CloseSock (t_localSock c)) (set_conn sock (c\<lparr>t_localSock := -1\<rparr>) r) else r)
                | Some parts \<Rightarrow>
                    if err \<noteq> ERR_OK
                    then Some (ERR_OK, if 0 \<le> t_localSock c
                                       then emit (CloseSock (t_localSock c)) (set_conn sock (c\<lparr>t_localSock := -1\<rparr>) r) else r)
                    else Some (ERR_OK, emit (TcpRecved pcb (tot_len parts)) (emit (LocalSend (t_localSock c) (hd parts)) r)))))"

definition onTcpSent :: "nat option \<Rightarrow> nat \<Rightarrow> u16 \<Rightarrow> LwipRelay \<Rightarrow> err_t \<times> LwipRelay" where
  "onTcpSent arg pcb len r = (ERR_OK, r)"

definition onTcpError :: "nat option \<Rightarrow> err_t \<Rightarrow> LwipRelay \<Rightarrow> LwipRelay option" where
  "onTcpError arg err r =
     (case arg of
        None \<Rightarrow> Some r
      | Some n \<Rightarrow> map_option (\<lambda>(sock, c). set_conn sock (c\<lparr>t_pcb := None\<rparr>) r) (find_conn n r))"

text \<open>The argument is the binding, found by its local port; bindings live as long as their buffers of lwIP.\<close>

definition onUdpRecv :: "u16 option \<Rightarrow> bytes list option \<Rightarrow> LwipRelay \<Rightarrow> LwipRelay option" where
  "onUdpRecv arg p r =
     (case (arg, p) of
        (Some port, Some parts) \<Rightarrow>
          (case map_of (udpBindings r) port of
             None \<Rightarrow> None
           | Some b \<Rightarrow>
               Some (if \<not> u_hasClient b then r else emit (LocalSendto (u_localSock b) (u_clientAddr b) (hd parts)) r))
      | _ \<Rightarrow> Some r)"

subsection \<open>The loop\<close>

record loop_inputs =
  still_running :: bool
  in_lwip :: "nat \<Rightarrow> lwip_input"
  in_accept :: "u16 \<Rightarrow> accept_outcome"
  in_conn :: "int \<Rightarrow> conn_outcome"
  in_udp :: "u16 \<Rightarrow> udp_outcome \<times> bool"

definition loop_round :: "loop_inputs \<Rightarrow> LwipRelay \<Rightarrow> WgTunnel \<Rightarrow> LwipRelay \<times> WgTunnel" where
  "loop_round i r tun =
     (let (r, tun) = processIncomingQueue (in_lwip i) r tun;
          r = pollTcpListeners (in_accept i) r;
          r = pollTcpConnections (in_conn i) r;
          r = pollUdpSockets (in_udp i) r
      in (r, tun))"

fun runLoop :: "loop_inputs list \<Rightarrow> LwipRelay \<Rightarrow> WgTunnel \<Rightarrow> LwipRelay \<times> WgTunnel" where
  "runLoop [] r tun = (r, tun)"
| "runLoop (i # is) r tun =
     (if \<not> lr_running r then (r, tun)
      else if \<not> still_running i then (r, tun)
      else (let (r, tun) = loop_round i r tun in runLoop is r tun))"

section \<open>Who owns a slot\<close>

text \<open>The queue and the holders, which only the packet path changes.\<close>

definition queues :: "LwipRelay \<Rightarrow> IncomingSlot list \<times> WgSlotPbuf list" where
  "queues r = (incomingQueue r, slotHolders r)"

named_theorems queue_keeps

lemma queues_updates [queue_keeps]:
  "queues (emit e r) = queues r" "queues (r\<lparr>lr_running := b\<rparr>) = queues r" "queues (r\<lparr>lr_initialized := b\<rparr>) = queues r"
  "queues (r\<lparr>lr_netif := n\<rparr>) = queues r" "queues (r\<lparr>tunnelAddr := a\<rparr>) = queues r" "queues (r\<lparr>targetAddr := a\<rparr>) = queues r"
  "queues (r\<lparr>tcpListeners := l\<rparr>) = queues r" "queues (r\<lparr>tcpConnections := c\<rparr>) = queues r"
  "queues (r\<lparr>udpBindings := ub\<rparr>) = queues r" "queues (r\<lparr>wakeFd := f\<rparr>) = queues r" "queues (r\<lparr>next_conn := m\<rparr>) = queues r"
  by (simp_all add: queues_def emit_def)

lemma queues_fold: "(\<And>x r. queues (f x r) = queues r) \<Longrightarrow> queues (fold f xs r) = queues r"
  by (induction xs arbitrary: r) simp_all

lemma queues_small [queue_keeps]:
  "queues (signalWake r) = queues r" "queues (netif_down r) = queues r" "queues (close_wake r) = queues r"
  "queues (close_conn c r) = queues r" "queues (close_binding ub r) = queues r" "queues (set_conn s c r) = queues r"
  "queues (close_pcb s c r) = queues r" "queues (remove_conn s r) = queues r"
  by (auto simp: signalWake_def netif_down_def close_wake_def close_conn_def close_binding_def set_conn_def
      close_pcb_def remove_conn_def queue_keeps Let_def split: option.splits)

lemma queues_listeners [queue_keeps]: "queues (pollTcpListeners acc r) = queues r"
  unfolding pollTcpListeners_def
  by (rule queues_fold) (auto simp: poll_listener_def queue_keeps Let_def split: option.splits prod.splits)

lemma queues_conns [queue_keeps]: "queues (pollTcpConnections out r) = queues r"
proof -
  have p: "queues (fst (poll_conn out x st)) = queues (fst st)" for x st
    by (auto simp: poll_conn_def queue_keeps Let_def split: option.splits prod.splits recv_ret.splits)
  have "queues (fst (fold (poll_conn out) xs st)) = queues (fst st)" for xs st
    by (induction xs arbitrary: st) (simp_all add: p)
  then show ?thesis by (simp add: pollTcpConnections_def split_def Let_def queues_fold [OF queues_small(8)])
qed

lemma queues_udp [queue_keeps]: "queues (pollUdpSockets out r) = queues r"
  unfolding pollUdpSockets_def
  by (rule queues_fold) (auto simp: poll_udp_def queue_keeps Let_def split: option.splits prod.splits)

lemma queues_open [queue_keeps]:
  "queues (snd (startTcpRelay c tp lp r)) = queues r" "queues (snd (startUdpRelay d pcb e tp lp r)) = queues r"
  "queues (fst (snd (LwipRelay_start sc r tun))) = queues r"
  by (auto simp: startTcpRelay_def startUdpRelay_def createTcpListener_def createUdpSocket_def LwipRelay_start_def
      queue_keeps Let_def split: option.splits prod.splits)

lemma queues_callbacks:
  "onTcpConnected arg err r = Some (x, r') \<Longrightarrow> queues r' = queues r"
  "onTcpRecv arg pcb p err r = Some (x, r') \<Longrightarrow> queues r' = queues r"
  "onTcpError arg err r = Some r' \<Longrightarrow> queues r' = queues r"
  "onUdpRecv port p r = Some r' \<Longrightarrow> queues r' = queues r"
  by (auto simp: onTcpConnected_def onTcpRecv_def onTcpError_def onUdpRecv_def queue_keeps split: option.splits if_splits)

text \<open>
  \<open>acct tun r extra\<close>: every slot is exactly once in the free list, in the queue, in a holder in use or in \<open>extra\<close>.
\<close>

definition owned :: "IncomingSlot list \<times> WgSlotPbuf list \<Rightarrow> nat multiset" where
  "owned q = mset (map i_slot (fst q)) + mset (concat (map holds (snd q)))"

definition acct :: "WgTunnel \<Rightarrow> LwipRelay \<Rightarrow> nat multiset \<Rightarrow> bool" where
  "acct tun r extra \<longleftrightarrow>
     (\<exists>xs. pool_free (recv_pool tun) xs \<and> mset xs + owned (queues r) + extra = mset [0..<WG_RECV_POOL_SIZE])"

lemma acct_cong: "queues r' = queues r \<Longrightarrow> recv_pool t' = recv_pool t \<Longrightarrow> acct t' r' e = acct t r e"
  by (simp add: acct_def)

lemma acct_keep: "acct t r e \<Longrightarrow> queues r' = queues r \<Longrightarrow> recv_pool t' = recv_pool t \<Longrightarrow> acct t' r' e"
  by (simp add: acct_def)

lemma acct_move: "acct t r e \<Longrightarrow> owned (queues r') + e' = owned (queues r) + e \<Longrightarrow> acct t r' e'"
  unfolding acct_def by (metis union_assoc)

lemma acct_release:
  assumes "acct t r (add_mset i e)"
  shows "acct (release_slot t (Some i)) r e"
proof -
  obtain xs where x: "pool_free (recv_pool t) xs" "mset xs + owned (queues r) + add_mset i e = mset [0..<WG_RECV_POOL_SIZE]"
    using assms unfolding acct_def by blast
  then have m: "mset (i # xs) + owned (queues r) + e = mset [0..<WG_RECV_POOL_SIZE]" by simp
  have "i \<in> set [0..<WG_RECV_POOL_SIZE]" using arg_cong [OF m, of set_mset] by (simp del: set_upt) auto
  moreover have "i \<notin> set xs"
  proof
    assume "i \<in> set xs"
    then have "1 < count (mset (i # xs) + owned (queues r) + e) i" by (simp add: count_mset_0_iff trans_less_add1 flip: neq0_conv)
    moreover have "count (mset [0..<WG_RECV_POOL_SIZE]) i \<le> 1"
      by (simp add: count_mset_set')
    ultimately show False unfolding m by linarith
  qed
  ultimately have "pool_free (wg_recv_pool_release (recv_pool t) (Some i)) (i # xs)"
    using pool_free_release [OF x(1)] by simp
  with m show ?thesis unfolding acct_def release_slot_def by auto
qed

lemma owned_holder:
  assumes "k < length hs" "holds (hs ! k) = []"
  shows "owned (q, hs[k := h]) = owned (q, hs) + mset (holds h)"
proof -
  have "hs = take k hs @ hs ! k # drop (Suc k) hs" using assms(1) by (simp add: id_take_nth_drop)
  then have "concat (map holds hs) = concat (map holds (take k hs)) @ holds (hs ! k) @ concat (map holds (drop (Suc k) hs))"
    by (metis append.assoc concat.simps(2) concat_append list.simps(9) map_append)
  then show ?thesis using assms by (simp add: owned_def upd_conv_take_nth_drop ac_simps)
qed


lemma acct_packet:
  assumes "acct t r (add_mset (i_slot p) e)" "process_packet (l, p) (r, t) = (r', t')"
  shows "acct t' r' e"
proof (cases "find (\<lambda>k. \<not> in_use (slotHolders r ! k)) [0..<length (slotHolders r)]")
  case None
  then show ?thesis using assms acct_release by (auto simp: process_packet_def slot_release Let_def)
next
  case (Some k)
  then have k: "k < length (slotHolders r)" "\<not> in_use (slotHolders r ! k)"
    by (auto simp: find_Some_iff)
  obtain h t1 m where s: "wg_netif_input_slot l t (i_slot p) (i_data p) (slotHolders r ! k) = (h, t1, m)" by (metis prod_cases3)
  have e: "t' = t1" "queues r' = (incomingQueue r, (slotHolders r)[k := h])"
    using assms(2) Some s by (auto simp: process_packet_def queues_def emit_def Let_def split: option.splits)
  have z: "holds (slotHolders r ! k) = []" using k(2) by (simp add: holds_def)
  have o: "owned (queues r') = owned (queues r) + mset (holds h)"
    unfolding e(2) using owned_holder [OF k(1) z] by (simp add: queues_def)
  from input_slot_cases [OF s k(2)] show ?thesis
  proof
    assume a: "holds h = [] \<and> \<not> in_use h \<and> t1 = release_slot t (Some (i_slot p))"
    then have "acct (release_slot t (Some (i_slot p))) r e" using acct_release [OF assms(1)] by simp
    then show ?thesis using acct_move [of _ r e r' e] a o e(1) by simp
  next
    assume "holds h = [i_slot p] \<and> t1 = t"
    then show ?thesis using acct_move [OF assms(1), of r' e] o e(1) by simp
  qed
qed

lemma acct_packets:
  assumes "acct t r (mset (map i_slot (map snd lps)) + e)" "fold process_packet lps (r, t) = (r', t')"
  shows "acct t' r' e"
  using assms
proof (induction lps arbitrary: r t)
  case Nil
  then show ?case by simp
next
  case (Cons lp lps)
  obtain r1 t1 where p: "process_packet (fst lp, snd lp) (r, t) = (r1, t1)" by fastforce
  have "acct t r (add_mset (i_slot (snd lp)) (mset (map i_slot (map snd lps)) + e))" using Cons.prems(1) by simp
  from acct_packet [OF this p] show ?case using Cons.IH [of t1 r1] Cons.prems(2) p by simp
qed

lemma acct_queue:
  assumes "acct t r e" "processIncomingQueue ls r t = (r', t')"
  shows "acct t' r' e"
proof -
  define n where "n = min (length (incomingQueue r)) kMaxPerIteration"
  define r0 where "r0 = r\<lparr>incomingQueue := drop n (incomingQueue r)\<rparr>"
  define lps where "lps = zip (map ls [0..<n]) (take n (incomingQueue r))"
  obtain r1 t1 where f: "fold process_packet lps (r0, t) = (r1, t1)" by fastforce
  have q: "r' = (if drop n (incomingQueue r) \<noteq> [] then signalWake r1 else r1)" "t' = t1"
    using assms(2) f by (simp_all add: processIncomingQueue_def n_def r0_def lps_def Let_def)
  have "map snd lps = take n (incomingQueue r)" by (simp add: lps_def n_def)
  moreover have "mset (map i_slot (incomingQueue r)) =
      mset (map i_slot (take n (incomingQueue r))) + mset (map i_slot (drop n (incomingQueue r)))"
    by (metis append_take_drop_id map_append mset_append)
  ultimately have "acct t r0 (mset (map i_slot (map snd lps)) + e)"
    by (intro acct_move [OF assms(1)]) (simp add: owned_def queues_def r0_def)
  then have "acct t1 r1 e" using f by (rule acct_packets)
  then show ?thesis using q acct_cong [of r' r1 t1 t1] by (simp add: queue_keeps)
qed

lemma acct_drain:
  assumes "acct t r e" "drain_queue r t = (r', t')"
  shows "acct t' r' e"
proof -
  have f: "acct (fold (\<lambda>p t. release_slot t (Some (i_slot p))) ps t) r0 e"
    if "acct t r0 (mset (map i_slot ps) + e)" for r0 ps t
    using that by (induction ps arbitrary: t) (auto dest: acct_release)
  have "acct t (r\<lparr>incomingQueue := []\<rparr>) (mset (map i_slot (incomingQueue r)) + e)"
    by (rule acct_move [OF assms(1)]) (simp add: owned_def queues_def)
  from f [OF this] show ?thesis using assms(2) by (auto simp: drain_queue_def slot_release)
qed

lemma acct_stop:
  assumes "acct t r e" "LwipRelay_stop r t = (r', t')"
  shows "acct t' r' e"
proof -
  define r0 where "r0 = close_wake (signalWake (r\<lparr>lr_running := False\<rparr>))"
  define t0 where "t0 = t\<lparr>has_recv_cb := False\<rparr>"
  obtain r1 t1 where d: "drain_queue r0 t0 = (r1, t1)" by fastforce
  have "acct t0 r0 e" using assms(1) acct_cong [of r0 r t0 t] by (simp add: r0_def t0_def queue_keeps)
  then have a: "acct t1 r1 e" using d by (rule acct_drain)
  have "t' = t1" "queues r' = queues r1"
    using assms(2) d by (auto simp: LwipRelay_stop_def wg_set_recv_callback_def r0_def t0_def queue_keeps queues_fold Let_def
        case_prod_beta split: if_splits)
  then show ?thesis using a acct_cong [of r' r1 t' t1] by simp
qed

lemma acct_receive:
  assumes "acct t r {#}" "recv_thread_round onTunnelRecv (t, rv, r, w) = Some (t', rv', r', w')"
  shows "acct t' r' {#}"
proof -
  obtain xs where x: "pool_free (recv_pool t) xs" "mset xs + owned (queues r) = mset [0..<WG_RECV_POOL_SIZE]"
    using assms(1) unfolding acct_def by auto
  from round_pool [OF x(1) assms(2)] show ?thesis
  proof
    assume "r' = r \<and> pool_free (recv_pool t') xs"
    then show ?thesis using x unfolding acct_def by auto
  next
    assume "\<exists>i ys d ret. xs = i # ys \<and> onTunnelRecv i d r = (ret, r') \<and> pool_free (recv_pool t') (if ret then ys else xs)"
    then obtain i ys d ret where c: "xs = i # ys" "onTunnelRecv i d r = (ret, r')" "pool_free (recv_pool t') (if ret then ys else xs)"
      by blast
    have "owned (queues r') = owned (queues r) + (if ret then {#i#} else {#})"
      using c(2) by (auto simp: onTunnelRecv_def handleIncomingPacket_def queue_keeps Let_def split: if_splits)
        (auto simp: queues_def owned_def)
    then show ?thesis unfolding acct_def using c(1,3) x(2)
      by (intro exI [of _ "if ret then ys else xs"]) auto
  qed
qed

lemma acct_freed:
  assumes "acct t r e" "k < length (slotHolders r)" "in_use (slotHolders r ! k)"
    and "wg_slot_pbuf_free (slotHolders r ! k) t = (h, t')"
  shows "acct t' (r\<lparr>slotHolders := (slotHolders r)[k := h]\<rparr>) e"
proof -
  define hs where "hs = (slotHolders r)[k := h]"
  define r' where "r' = r\<lparr>slotHolders := hs\<rparr>"
  note f = free_holder [OF assms(3,4)]
  have k: "k < length hs" "holds (hs ! k) = []" "hs[k := slotHolders r ! k] = slotHolders r"
    using f assms(2) by (simp_all add: hs_def)
  have o: "owned (queues r) = owned (queues r') + mset (holds (slotHolders r ! k))"
    using owned_holder [OF k(1,2), of "incomingQueue r" "slotHolders r ! k"] k(3) by (simp add: queues_def r'_def)
  show ?thesis
  proof (cases "holds (slotHolders r ! k)")
    case Nil
    then show ?thesis using acct_move [OF assms(1), of r' e] o f by (simp add: r'_def hs_def)
  next
    case (Cons i rest)
    then have c: "holds (slotHolders r ! k) = [i]" by (auto simp: holds_def split: if_splits option.splits)
    then have "acct t r' (add_mset i e)" using acct_move [OF assms(1), of r' "add_mset i e"] o by simp
    then show ?thesis using acct_release f c by (simp add: r'_def hs_def)
  qed
qed

lemma acct_loop:
  assumes "acct t r e" "loop_round i r t = (r', t')"
  shows "acct t' r' e"
proof -
  obtain r1 t1 where q: "processIncomingQueue (in_lwip i) r t = (r1, t1)" by fastforce
  then have "queues r' = queues r1" "t' = t1" using assms(2) by (auto simp: loop_round_def queue_keeps)
  then show ?thesis using acct_queue [OF assms(1) q] acct_cong [of r' r1 t' t1] by simp
qed

lemma pool_output:
  "wg_netif_output cp ip (Some t) w = (err, Some t', w') \<Longrightarrow> recv_pool t' = recv_pool t"
  by (auto simp: wg_netif_output_def wg_handshake_init_peer_def wg_send_to_peer_def set_peer_def Let_def
      split: option.splits if_splits prod.splits sum.splits)

text \<open>
  What the threads do, in any order: a round of the receive thread with the relay as its consumer, a
  round of the relay's loop, lwIP dropping its last reference to a packet, the calls of the application, the callbacks of
  lwIP, packets of lwIP going out, and anything else that leaves the slot pool alone.
\<close>

inductive relay_step :: "WgTunnel \<times> recv_vars \<times> LwipRelay \<times> world \<Rightarrow> WgTunnel \<times> recv_vars \<times> LwipRelay \<times> world \<Rightarrow> bool" where
  receive: "recv_thread_round onTunnelRecv (t, rv, r, w) = Some st \<Longrightarrow> relay_step (t, rv, r, w) st"
| loop: "lr_running r \<Longrightarrow> loop_round i r t = (r', t') \<Longrightarrow> relay_step (t, rv, r, w) (t', rv, r', w)"
| freed: "k < length (slotHolders r) \<Longrightarrow> in_use (slotHolders r ! k) \<Longrightarrow> wg_slot_pbuf_free (slotHolders r ! k) t = (h, t') \<Longrightarrow>
    relay_step (t, rv, r, w) (t', rv, r\<lparr>slotHolders := (slotHolders r)[k := h]\<rparr>, w)"
| started: "LwipRelay_start sc r t = (ok, r', t') \<Longrightarrow> relay_step (t, rv, r, w) (t', rv, r', w)"
| stopped: "LwipRelay_stop r t = (r', t') \<Longrightarrow> relay_step (t, rv, r, w) (t', rv, r', w)"
| tcp_relay: "startTcpRelay c tp lp r = (port, r') \<Longrightarrow> relay_step (t, rv, r, w) (t, rv, r', w)"
| udp_relay: "startUdpRelay d pcb e tp lp r = (port, r') \<Longrightarrow> relay_step (t, rv, r, w) (t, rv, r', w)"
| tcp_connected: "onTcpConnected arg err r = Some (x, r') \<Longrightarrow> relay_step (t, rv, r, w) (t, rv, r', w)"
| tcp_recv: "onTcpRecv arg p q err r = Some (x, r') \<Longrightarrow> relay_step (t, rv, r, w) (t, rv, r', w)"
| tcp_error: "onTcpError arg err r = Some r' \<Longrightarrow> relay_step (t, rv, r, w) (t, rv, r', w)"
| udp_recv: "onUdpRecv prt q r = Some r' \<Longrightarrow> relay_step (t, rv, r, w) (t, rv, r', w)"
| sent_out: "wg_netif_output cp ip (Some t) w = (err, Some t', w') \<Longrightarrow> relay_step (t, rv, r, w) (t', rv, r, w')"
| elsewhere: "recv_pool t' = recv_pool t \<Longrightarrow> relay_step (t, rv, r, w) (t', rv, r, w')"

lemma acct_step:
  assumes "relay_step (t, rv, r, w) (t', rv', r', w')" "acct t r {#}"
  shows "acct t' r' {#}"
  using assms
proof (cases rule: relay_step.cases)
  case receive
  then show ?thesis using acct_receive [OF assms(2)] by simp
next
  case (loop i)
  then show ?thesis using acct_loop [OF assms(2)] by simp
next
  case (freed k h)
  then show ?thesis using acct_freed [OF assms(2)] by simp
next
  case (started sc ok)
  then have "recv_pool t' = recv_pool t"
    by (auto simp: LwipRelay_start_def wg_set_recv_callback_def Let_def split: if_splits option.splits)
  then show ?thesis using started queues_open(3) [of sc r t] by (intro acct_keep [OF assms(2)]) simp_all
next
  case stopped
  then show ?thesis using acct_stop [OF assms(2)] by simp
next
  case (tcp_relay c tp lp port)
  then show ?thesis using queues_open(1) [of c tp lp r] by (intro acct_keep [OF assms(2)]) simp_all
next
  case (udp_relay d pcb e tp lp port)
  then show ?thesis using queues_open(2) [of d pcb e tp lp r] by (intro acct_keep [OF assms(2)]) simp_all
qed (auto intro: acct_keep [OF assms(2)] dest: queues_callbacks pool_output)

section \<open>Properties\<close>

text \<open>
  C7: No receive slot is lost and none has two owners. Starting from a new pool and a new relay, after any sequence of
  receive rounds, relay rounds, lwIP callbacks and application calls, each of the 256 slots is in exactly
  one place: in the free list of the pool, in the queue of the relay, or in a holder whose packet lwIP still uses.
\<close>

theorem relay_slots_conserved:
  assumes "wg_recv_pool_init True True p = (0, Some (recv_pool t))"
    and "relay_step\<^sup>*\<^sup>* (t, rv, LwipRelay_new, w) (t', rv', r', w')"
  shows "\<exists>xs. pool_free (recv_pool t') xs \<and>
    mset (xs @ map i_slot (incomingQueue r') @ concat (map holds (slotHolders r'))) = mset [0..<256]"
proof -
  have "owned (queues LwipRelay_new) = {#}"
    by (simp add: owned_def queues_def LwipRelay_new_def holds_def flip: replicate_append_same)
  then have "acct t LwipRelay_new {#}" unfolding acct_def
    using pool_free_init [OF assms(1)] by (intro exI [of _ "rev [0..<WG_RECV_POOL_SIZE]"]) simp
  with assms(2) have "acct t' r' {#}"
  proof (induction "(t', rv', r', w')" arbitrary: t' rv' r' w' rule: rtranclp_induct)
    case (step st)
    then show ?case by (metis acct_step prod_cases4)
  qed auto
  then show ?thesis by (auto simp: acct_def owned_def queues_def WG_RECV_POOL_SIZE_def union_assoc)
qed


theorem relay_slots_conserved_witness:
  "\<exists>pool t' rv' r' w' xs.
     wg_recv_pool_init True True (Some \<lparr>slots = None, free_head = None, initialized = False\<rparr>) = (0, Some pool) \<and>
     relay_step\<^sup>*\<^sup>*
       (zero_tunnel\<lparr>recv_pool := pool\<rparr>, \<lparr>total_recv = 0, last_log = 0, fallback_packet = []\<rparr>, LwipRelay_new,
        world_with (transport_packet zero_session [7])) (t', rv', r', w') \<and>
     incomingQueue r' = [\<lparr>i_slot = 255, i_data = [7]\<rparr>] \<and>
     pool_free (recv_pool t') xs \<and>
     mset (xs @ map i_slot (incomingQueue r') @ concat (map holds (slotHolders r'))) = mset [0..<256]"
proof -
  let ?p = "transport_packet zero_session [7]" and ?rv = "\<lparr>total_recv = 0, last_log = 0, fallback_packet = []\<rparr>"
  obtain pool where i: "wg_recv_pool_init True True (Some \<lparr>slots = None, free_head = None, initialized = False\<rparr>) = (0, Some pool)"
    and p: "pool_free pool (255 # rev [0..<255])" by (rule fresh_pool)
  define t where "t = zero_tunnel\<lparr>recv_pool := pool\<rparr>"
  define t1 where "t1 = t\<lparr>has_recv_cb := True\<rparr>"
  define c where "c = \<lparr>pton_tunnel = Some 1, pton_target = Some 2, wake0 = 3, wake1 = 4, wake_bind = 0, wake_getsockname = 0, wake_connect = 0\<rparr>"
  obtain r1 where s: "LwipRelay_start c LwipRelay_new t = (True, r1, t1)" "lr_running r1" "incomingQueue r1 = []"
    by (simp add: LwipRelay_start_def LwipRelay_new_def c_def t1_def emit_def wg_set_recv_callback_def)
  have pf: "pool_free (recv_pool t1) (255 # rev [0..<255])" using p by (simp add: t1_def t_def)
  have T: "has_recv_cb t1" "session t1 = zero_session" "wg_find_peer_by_local_index (Some t1) 0 = None"
    by (simp_all add: t1_def t_def zero_tunnel_def wg_find_peer_by_local_index_def)
  have "?p \<noteq> []" by (simp flip: length_0_conv)
  then have a: "arrives (world_with ?p) 100 ?p" by (rule arrives_world_with) simp
  have n: "ticks (world_with ?p) n < WG_REJECT_AFTER_TIME * NS" for n by (simp add: world_with_def quiet_world_def wg_consts)
  obtain t2 rv2 w2 where r: "recv_thread_round onTunnelRecv (t1, ?rv, r1, world_with ?p) =
      Some (t2, rv2, snd (onTunnelRecv 255 [7] r1), w2)" using zero_key_round [OF pf T a _ n, of onTunnelRecv] by fastforce
  define r2 where "r2 = snd (onTunnelRecv 255 [7] r1)"
  have q: "incomingQueue r2 = [\<lparr>i_slot = 255, i_data = [7]\<rparr>]"
    using s(2,3) by (simp add: r2_def onTunnelRecv_def handleIncomingPacket_def signalWake_def emit_def Let_def)
  have "relay_step (t, ?rv, LwipRelay_new, world_with ?p) (t1, ?rv, r1, world_with ?p)"
    by (rule started [OF s(1)])
  moreover have "relay_step (t1, ?rv, r1, world_with ?p) (t2, rv2, r2, w2)" unfolding r2_def by (rule receive [OF r])
  ultimately have st: "relay_step\<^sup>*\<^sup>* (t, ?rv, LwipRelay_new, world_with ?p) (t2, rv2, r2, w2)" by simp
  have "wg_recv_pool_init True True (Some \<lparr>slots = None, free_head = None, initialized = False\<rparr>) = (0, Some (recv_pool t))"
    using i by (simp add: t_def)
  from relay_slots_conserved [OF this st] show ?thesis using i st q unfolding t_def by blast
qed

text \<open>The port a TCP relay is asked to connect to is ignored.\<close>

lemma tcp_target_ignored: "startTcpRelay c tp lp r = startTcpRelay c tp' lp r"
  by (simp add: startTcpRelay_def)

lemma map_of_put [simp]: "map_of (map_put k v m) k' = (if k' = k then Some v else map_of m k')"
  by (induction m) auto

lemma map_of_erase [simp]: "map_of (map_erase k m) k' = (if k' = k then None else map_of m k')"
  by (induction m) (auto simp: map_erase_def)

lemma conn_updates [simp]: "tcpConnections (emit e r) = tcpConnections r" "tcpConnections (close_conn c r) = tcpConnections r"
  by (simp_all add: emit_def close_conn_def Let_def split: option.split)

text \<open>Polling keeps a connection whose descriptor shows neither data nor an error.\<close>

lemma poll_conn_keeps:
  assumes "map_of (tcpConnections r) sock = Some c" "sock \<notin> set rm" "poll_conn out (s, d) (r, rm) = (r', rm')"
    and "s = sock \<Longrightarrow> 0 \<le> c_ret (out sock) \<and> \<not> c_pollin (out sock) \<and> \<not> c_errhup (out sock)"
  shows "map_of (tcpConnections r') sock = Some c \<and> sock \<notin> set rm'"
  using assms by (auto simp: poll_conn_def close_pcb_def Let_def split: if_splits option.splits recv_ret.splits)

lemma polls_keep:
  assumes "map_of (tcpConnections r) sock = Some c"
    and "0 \<le> c_ret (out sock) \<and> \<not> c_pollin (out sock) \<and> \<not> c_errhup (out sock)"
  shows "map_of (tcpConnections (pollTcpConnections out r)) sock = Some c"
proof -
  have f: "map_of (tcpConnections (fst (fold (poll_conn out) xs (r, rm)))) sock = Some c \<and> sock \<notin> set (snd (fold (poll_conn out) xs (r, rm)))"
    if "map_of (tcpConnections r) sock = Some c" "sock \<notin> set rm" for xs r rm
    using that
  proof (induction xs arbitrary: r rm)
    case (Cons x xs)
    obtain r1 rm1 where p: "poll_conn out (fst x, snd x) (r, rm) = (r1, rm1)" by fastforce
    from poll_conn_keeps [OF Cons.prems p] assms(2) have "map_of (tcpConnections r1) sock = Some c \<and> sock \<notin> set rm1" by blast
    then show ?case using Cons.IH [of r1 rm1] p by simp
  qed simp
  have g: "map_of (tcpConnections (fold remove_conn rm r)) sock = Some c"
    if "map_of (tcpConnections r) sock = Some c" "sock \<notin> set rm" for rm r
    using that by (induction rm arbitrary: r) (auto simp: remove_conn_def split: option.splits)
  show ?thesis using f [OF assms(1), of "[]" "tcpConnections r"] g
    by (simp add: pollTcpConnections_def split_def Let_def)
qed

text \<open>The connection table: keys in order, and every object once, with a number given out before.\<close>

definition conns_ok :: "LwipRelay \<Rightarrow> bool" where
  "conns_ok r \<longleftrightarrow> sorted_wrt (<) (map fst (tcpConnections r)) \<and> distinct (map (\<lambda>(s, c). conn_id c) (tcpConnections r)) \<and>
     (\<forall>(s, c) \<in> set (tcpConnections r). conn_id c < next_conn r)"

lemma set_put: "sorted_wrt (<) (map fst m) \<Longrightarrow> set (map_put k v m) = insert (k, v) {e \<in> set m. fst e \<noteq> k}"
  by (induction m) force+

lemma sorted_put: "sorted_wrt (<) (map fst m) \<Longrightarrow> sorted_wrt (<) (map fst (map_put k v m))"
  by (induction m) (fastforce simp: set_put)+

lemma find_conn_in: "find_conn n r = Some (s, c) \<Longrightarrow> (s, c) \<in> set (tcpConnections r) \<and> conn_id c = n"
  by (auto simp: find_conn_def find_Some_iff in_set_conv_nth)

lemma find_conn_map:
  assumes "conns_ok r" "find_conn n r = Some (s, c)"
  shows "map_of (tcpConnections r) s = Some c"
proof -
  have "distinct (map fst (tcpConnections r))" using assms(1) by (simp add: conns_ok_def strict_sorted_iff)
  then show ?thesis using find_conn_in [OF assms(2)] by simp
qed

lemma conn_unique:
  assumes "conns_ok r" "(s, c) \<in> set (tcpConnections r)" "(s', c') \<in> set (tcpConnections r)" "conn_id c' = conn_id c"
  shows "s' = s"
  using assms unfolding conns_ok_def by (auto simp: distinct_map inj_on_def)

text \<open>
  C40: A connection closed by the remote side is never finished. When lwIP reports the end of the stream the relay closes the
  local socket, but neither closes the lwIP connection nor forgets its own: as often as it polls the closed
  descriptor, which is readable no more and reports neither an error nor a hang-up, the connection stays with its control
  block. If the system gives the same descriptor to the next client, the new connection takes the
  place of the old one, whose object is destroyed while lwIP still points to it: a callback of lwIP on it
  is an access to freed memory.
\<close>

theorem remote_close_leaks:
  assumes "conns_ok r" and "find_conn n r = Some (sock, c)" and "0 \<le> t_localSock c"
    and "onTcpRecv (Some n) pcb None ERR_OK r = Some (err, r1)"
    and "\<forall>out \<in> set outs. 0 \<le> c_ret (out sock) \<and> \<not> c_pollin (out sock) \<and> \<not> c_errhup (out sock)"
    and "0 < a_ret (acc lp)" "a_pollin (acc lp)" "clientSock (acc lp) = sock" "0 \<le> sock" "new_pcb (acc lp) = Some q" "connect_err (acc lp) = ERR_OK"
  shows "CloseSock (t_localSock c) \<in> set (effects r1) \<and>
    map_of (tcpConnections (fold pollTcpConnections outs r1)) sock = Some (c\<lparr>t_localSock := -1\<rparr>) \<and>
    onTcpError (Some n) e (poll_listener acc (lp, ls) r1) = None"
proof -
  note i = find_conn_in [OF assms(2)]
  have r1: "r1 = emit (CloseSock (t_localSock c)) (set_conn sock (c\<lparr>t_localSock := -1\<rparr>) r)"
    using assms(2-4) by (simp add: onTcpRecv_def)
  have "map_of (tcpConnections (fold pollTcpConnections os r')) sock = Some d"
    if "map_of (tcpConnections r') sock = Some d" "set os \<subseteq> set outs" for os r' d
    using that assms(5) by (induction os arbitrary: r') (simp_all add: polls_keep)
  moreover have "map_of (tcpConnections r1) sock = Some (c\<lparr>t_localSock := -1\<rparr>)" by (simp add: r1 set_conn_def)
  moreover have "find_conn n (poll_listener acc (lp, ls) r1) = None"
  proof -
    define m where "m = tcpConnections r"
    have "sorted_wrt (<) (map fst m)" using assms(1) by (simp add: m_def conns_ok_def)
    then have "set (tcpConnections (poll_listener acc (lp, ls) r1)) \<subseteq>
        insert (sock, \<lparr>conn_id = next_conn r, t_localSock = sock, t_pcb = Some q, t_localPort = lp, t_targetPort = lp, t_connected = False\<rparr>)
          {e \<in> set m. fst e \<noteq> sock}"
      using assms(6-11) by (auto simp: poll_listener_def r1 set_conn_def set_put sorted_put emit_def Let_def m_def)
    moreover have "next_conn r \<noteq> n" using assms(1) i by (auto simp: conns_ok_def)
    moreover have "conn_id d \<noteq> n" if "(s, d) \<in> set m" "s \<noteq> sock" for s d
      using conn_unique [OF assms(1), of sock c s d] i that by (auto simp: m_def)
    ultimately show ?thesis by (fastforce simp: find_conn_def find_None_iff)
  qed
  ultimately show ?thesis by (simp add: onTcpError_def) (simp add: r1 emit_def)
qed

theorem remote_close_leaks_witness:
  "let c = \<lparr>conn_id = 0, t_localSock = 5, t_pcb = Some 1, t_localPort = 80, t_targetPort = 80, t_connected = True\<rparr>;
       r = LwipRelay_new\<lparr>tcpConnections := [(5, c)], next_conn := 1\<rparr>;
       r1 = snd (the (onTcpRecv (Some 0) 1 None ERR_OK r));
       nval = (\<lambda>s. \<lparr>c_ret = 1, c_pollin = False, c_errhup = False, c_recv = RecvAgain, write_err = ERR_OK\<rparr>);
       again = (\<lambda>port. \<lparr>a_ret = 1, a_pollin = True, clientSock = 5, new_pcb = Some 2, connect_err = ERR_OK\<rparr>)
   in conns_ok r \<and> map_of (tcpConnections (fold pollTcpConnections [nval, nval] r1)) 5 = Some (c\<lparr>t_localSock := -1\<rparr>) \<and>
      onTcpError (Some 0) (ERR_LWIP (-14)) (poll_listener again (80, 3) r1) = None"
proof -
  define c where "c = \<lparr>conn_id = 0, t_localSock = 5, t_pcb = Some 1, t_localPort = 80, t_targetPort = 80, t_connected = True\<rparr>"
  define r where "r = LwipRelay_new\<lparr>tcpConnections := [(5, c)], next_conn := 1\<rparr>"
  define nval :: "int \<Rightarrow> conn_outcome" where "nval = (\<lambda>s. \<lparr>c_ret = 1, c_pollin = False, c_errhup = False, c_recv = RecvAgain, write_err = ERR_OK\<rparr>)"
  define again :: "u16 \<Rightarrow> accept_outcome" where "again = (\<lambda>port. \<lparr>a_ret = 1, a_pollin = True, clientSock = 5, new_pcb = Some 2, connect_err = ERR_OK\<rparr>)"
  have f: "find_conn 0 r = Some (5, c)" by (simp add: find_conn_def r_def c_def)
  have ok: "conns_ok r" by (simp add: conns_ok_def r_def c_def)
  obtain err r1 where r1: "onTcpRecv (Some 0) 1 None ERR_OK r = Some (err, r1)" by (simp add: onTcpRecv_def f)
  have "0 \<le> t_localSock c" "\<forall>out \<in> set [nval, nval]. 0 \<le> c_ret (out 5) \<and> \<not> c_pollin (out 5) \<and> \<not> c_errhup (out 5)"
    by (simp_all add: c_def nval_def)
  from remote_close_leaks [OF ok f this(1) r1 this(2), of again 80 2 "ERR_LWIP (-14)" 3]
  show ?thesis unfolding Let_def c_def [symmetric] r_def [symmetric] nval_def [symmetric] again_def [symmetric]
    using ok r1 by (simp add: again_def)
qed

end
