(* ===== verification/System.thy ===== *)
theory System
  imports LwipRelay
begin

text \<open>
  The tunnel as a whole: the invariant of its state, which says that every key and buffer has its size,
  that the tables are in range and the guard words intact, and a step relation that has every
  operation on a tunnel as a rule.
\<close>

section \<open>Well-formed tunnels\<close>

definition session_ok :: "WgSession \<Rightarrow> bool" where
  "session_ok s \<longleftrightarrow> length (sending_key s) = 32 \<and> length (receiving_key s) = 32 \<and> wf_replay (replay s)"

definition hs_ok :: "WgHandshakeState \<Rightarrow> bool" where
  "hs_ok h \<longleftrightarrow> length (hs_hash h) = 32 \<and> length (chaining_key h) = 32 \<and> length (ephemeral_private h) = 32"

definition peer_ok :: "WgPeer \<Rightarrow> bool" where
  "peer_ok p \<longleftrightarrow> length (public_key p) = 32 \<and> length (relay_hash p) = 36 \<and> session_ok (p_session p) \<and>
     session_ok (p_prev_session p) \<and> hs_ok (pending_hs p) \<and> length (p_last_mac1 p) = 16"

definition pool_sized :: "WgRecvPool \<Rightarrow> bool" where
  "pool_sized pool \<longleftrightarrow> length (pool_slots pool) = 256 \<and> (\<forall>s \<in> set (pool_slots pool). length (slot_data s) = 2048)"

definition tunnel_ok :: "(WgRecvPool \<Rightarrow> bool) \<Rightarrow> WgTunnel \<Rightarrow> bool" where
  "tunnel_ok P tun \<longleftrightarrow>
     length (static_private tun) = 32 \<and> length (static_public tun) = 32 \<and> length (peer_public tun) = 32 \<and>
     length (preshared_key tun) = 32 \<and> length (cookie tun) = 16 \<and> length (last_mac1 tun) = 16 \<and>
     length (send_buffer tun) = 2048 \<and> length (pending_response tun) = 256 \<and> pending_response_len tun \<le> 256 \<and>
     session_ok (session tun) \<and> session_ok (prev_session tun) \<and>
     length (peers tun) = 64 \<and> peer_count tun \<le> 64 \<and> (\<forall>p \<in> set (peers tun). peer_ok p) \<and>
     P (recv_pool tun) \<and> canary_begin tun = WG_CANARY_MAGIC \<and> canary_end tun = WG_CANARY_MAGIC"

named_theorems oks

lemma ok_zero [oks]: "session_ok zero_session" "hs_ok zero_hs" "peer_ok zero_peer"
  by (simp_all add: session_ok_def hs_ok_def peer_ok_def zero_session_def zero_hs_def zero_peer_def wg_consts)

lemma ok_session_updates [oks]:
  "session_ok s \<Longrightarrow> session_ok (s\<lparr>sending_counter := c\<rparr>)" "session_ok s \<Longrightarrow> session_ok (s\<lparr>receiving_counter := c\<rparr>)"
  "session_ok s \<Longrightarrow> session_ok (s\<lparr>local_index := i\<rparr>)" "session_ok s \<Longrightarrow> session_ok (s\<lparr>old_local_index := i\<rparr>)"
  "session_ok s \<Longrightarrow> session_ok (s\<lparr>remote_index := i\<rparr>)" "session_ok s \<Longrightarrow> session_ok (s\<lparr>last_handshake := t\<rparr>)"
  "session_ok s \<Longrightarrow> session_ok (s\<lparr>last_received := t\<rparr>)" "session_ok s \<Longrightarrow> session_ok (s\<lparr>valid := b\<rparr>)"
  "session_ok s \<Longrightarrow> session_ok (s\<lparr>rekey_in_progress := b\<rparr>)"
  "session_ok s \<Longrightarrow> wf_replay r \<Longrightarrow> session_ok (s\<lparr>replay := r\<rparr>)"
  "session_ok s \<Longrightarrow> length k = 32 \<Longrightarrow> session_ok (s\<lparr>sending_key := k\<rparr>)"
  "session_ok s \<Longrightarrow> length k = 32 \<Longrightarrow> session_ok (s\<lparr>receiving_key := k\<rparr>)"
  by (simp_all add: session_ok_def)

lemma ok_count_sent [oks]: "session_ok s \<Longrightarrow> session_ok (count_sent s)"
  by (simp add: count_sent_def session_ok_def)

lemma ok_validate [oks]: "session_ok s \<Longrightarrow> wf_replay (snd (wg_counter_validate (replay s) c))"
  using wgrc.wf_step [of "replay s" c] by (simp add: session_ok_def)

lemma ok_peer_updates [oks]:
  "peer_ok p \<Longrightarrow> session_ok s \<Longrightarrow> peer_ok (p\<lparr>p_session := s\<rparr>)" "peer_ok p \<Longrightarrow> session_ok s \<Longrightarrow> peer_ok (p\<lparr>p_prev_session := s\<rparr>)"
  "peer_ok p \<Longrightarrow> hs_ok h \<Longrightarrow> peer_ok (p\<lparr>pending_hs := h\<rparr>)" "peer_ok p \<Longrightarrow> peer_ok (p\<lparr>hs_pending := b\<rparr>)"
  "peer_ok p \<Longrightarrow> peer_ok (p\<lparr>configured := b\<rparr>)" "peer_ok p \<Longrightarrow> peer_ok (p\<lparr>connected := b\<rparr>)"
  "peer_ok p \<Longrightarrow> peer_ok (p\<lparr>p_last_sent := t\<rparr>)" "peer_ok p \<Longrightarrow> length m = 16 \<Longrightarrow> peer_ok (p\<lparr>p_last_mac1 := m\<rparr>)"
  "peer_ok p \<Longrightarrow> peer_ok (p\<lparr>ip_raw := ip\<rparr>)" "peer_ok p \<Longrightarrow> peer_ok (p\<lparr>p_tunnel_ip := ip\<rparr>)"
  "peer_ok p \<Longrightarrow> length k = 32 \<Longrightarrow> peer_ok (p\<lparr>public_key := k\<rparr>)" "peer_ok p \<Longrightarrow> length a = 36 \<Longrightarrow> peer_ok (p\<lparr>relay_hash := a\<rparr>)"
  by (simp_all add: peer_ok_def)

lemma peer_ok_sessions [oks]: "peer_ok p \<Longrightarrow> session_ok (p_session p)" "peer_ok p \<Longrightarrow> session_ok (p_prev_session p)"
  "peer_ok p \<Longrightarrow> hs_ok (pending_hs p)"
  by (simp_all add: peer_ok_def)

lemma ok_updates [oks]:
  "tunnel_ok P t \<Longrightarrow> session_ok s \<Longrightarrow> tunnel_ok P (t\<lparr>session := s\<rparr>)" "tunnel_ok P t \<Longrightarrow> session_ok s \<Longrightarrow> tunnel_ok P (t\<lparr>prev_session := s\<rparr>)"
  "tunnel_ok P t \<Longrightarrow> length k = 32 \<Longrightarrow> tunnel_ok P (t\<lparr>peer_public := k\<rparr>)" "tunnel_ok P t \<Longrightarrow> length m = 16 \<Longrightarrow> tunnel_ok P (t\<lparr>cookie := m\<rparr>)"
  "tunnel_ok P t \<Longrightarrow> length m = 16 \<Longrightarrow> tunnel_ok P (t\<lparr>last_mac1 := m\<rparr>)" "tunnel_ok P t \<Longrightarrow> length d = 2048 \<Longrightarrow> tunnel_ok P (t\<lparr>send_buffer := d\<rparr>)"
  "tunnel_ok P t \<Longrightarrow> length r = 256 \<Longrightarrow> tunnel_ok P (t\<lparr>pending_response := r\<rparr>)"
  "tunnel_ok P t \<Longrightarrow> n \<le> 256 \<Longrightarrow> tunnel_ok P (t\<lparr>pending_response_len := n\<rparr>)"
  "tunnel_ok P t \<Longrightarrow> P pool \<Longrightarrow> tunnel_ok P (t\<lparr>recv_pool := pool\<rparr>)"
  "tunnel_ok P t \<Longrightarrow> tunnel_ok P (t\<lparr>has_cookie := b\<rparr>)" "tunnel_ok P t \<Longrightarrow> tunnel_ok P (t\<lparr>cookie_timestamp := x\<rparr>)"
  "tunnel_ok P t \<Longrightarrow> tunnel_ok P (t\<lparr>pending_cookie := b\<rparr>)" "tunnel_ok P t \<Longrightarrow> tunnel_ok P (t\<lparr>last_sent := x\<rparr>)"
  "tunnel_ok P t \<Longrightarrow> tunnel_ok P (t\<lparr>has_recv_cb := b\<rparr>)" "tunnel_ok P t \<Longrightarrow> tunnel_ok P (t\<lparr>running := b\<rparr>)"
  "tunnel_ok P t \<Longrightarrow> tunnel_ok P (t\<lparr>stop_pred := b\<rparr>)" "tunnel_ok P t \<Longrightarrow> tunnel_ok P (t\<lparr>socket_fd := fd\<rparr>)"
  "tunnel_ok P t \<Longrightarrow> tunnel_ok P (t\<lparr>endpoint := a\<rparr>)" "tunnel_ok P t \<Longrightarrow> tunnel_ok P (t\<lparr>recv_src := a\<rparr>)"
  "tunnel_ok P t \<Longrightarrow> tunnel_ok P (t\<lparr>recv_src_valid := b\<rparr>)"
  by (simp_all add: tunnel_ok_def)

lemma ok_set_peer [oks]: "tunnel_ok P t \<Longrightarrow> peer_ok p \<Longrightarrow> tunnel_ok P (set_peer t i p)"
  using set_update_subset_insert [of "peers t" i p] by (auto simp: tunnel_ok_def set_peer_def)

lemma ok_parts [oks]:
  "tunnel_ok P t \<Longrightarrow> session_ok (session t)" "tunnel_ok P t \<Longrightarrow> session_ok (prev_session t)"
  "tunnel_ok P t \<Longrightarrow> i < peer_count t \<Longrightarrow> peer_ok (peers t ! i)"
  by (simp_all add: tunnel_ok_def)

lemma ok_pool: "tunnel_ok P t \<Longrightarrow> P (recv_pool t)"
  by (simp add: tunnel_ok_def)

lemma found_peer [dest]:
  "wg_find_peer_by_ip (Some t) ip = Some i \<Longrightarrow> i < peer_count t"
  "wg_find_peer_by_local_index (Some t) idx = Some i \<Longrightarrow> i < peer_count t"
  "wg_find_peer_by_public_key (Some t) k = Some i \<Longrightarrow> i < peer_count t"
  by (auto simp: wg_find_peer_by_ip_def wg_find_peer_by_local_index_def wg_find_peer_by_public_key_def find_Some_iff)

lemma find_upt [dest]: "find P [0..<n] = Some i \<Longrightarrow> i < n"
  by (auto simp: find_Some_iff)

section \<open>Lengths\<close>

lemma decrypt_length: "wg_aead_decrypt k c ct ad = Some m \<Longrightarrow> length m + 16 = length ct"
  by (auto simp: aead_decrypt_iff)

lemma messages_ok:
  "148 \<le> length p \<Longrightarrow> init_ok (init_of_bytes p)" "64 \<le> length p \<Longrightarrow> cookie_ok (cookie_of_bytes p)"
  by (simp_all add: init_ok_def init_of_bytes_def cookie_ok_def cookie_of_bytes_def)

lemma hs_mix [oks]:
  "hs_ok h \<Longrightarrow> hs_ok (wg_mix_hash h d)" "hs_ok h \<Longrightarrow> hs_ok (mix_kdf1 h x)" "hs_ok h \<Longrightarrow> hs_ok (fst (mix_kdf2 h x))"
  "hs_ok h \<Longrightarrow> hs_ok (wg_handshake_init_state h pub)" "hs_ok h \<Longrightarrow> length k = 32 \<Longrightarrow> hs_ok (h\<lparr>ephemeral_private := k\<rparr>)"
  "hs_ok h \<Longrightarrow> hs_ok (fst (response_mix h e d1 d2 psk))"
  by (simp_all add: hs_ok_def wg_mix_hash_def mix_kdf1_def mix_kdf2_def wg_handshake_init_state_def response_mix_def split_def Let_def)

lemma init_message_hs [oks]:
  "hs_ok h \<Longrightarrow> length eph = 32 \<Longrightarrow> hs_ok (snd (init_message pub sp su eph idx ts h))"
  by (simp add: init_message_def split_def Let_def oks)

lemma init_message_mac [simp]: "length (hi_mac1 (fst (init_message pub sp su eph idx ts h))) = 16"
  by (simp add: init_message_def split_def Let_def)

lemma response_message_mac [simp]: "length (hr_mac1 (fst (response_message eph idx msg ps psk h))) = 16"
  by (simp add: response_message_def split_def Let_def)

lemma consume_response_ok [oks]: "hs_ok h \<Longrightarrow> hs_ok (fst (consume_response t m h))"
  by (simp add: consume_response_def split_def Let_def oks split: option.split)

section \<open>Operations keep tunnels well-formed\<close>

subsection \<open>Handshake\<close>

lemma ok_init:
  assumes "tunnel_ok P t" "wg_handshake_init t st w = (err, t', msg, st', w')"
  shows "tunnel_ok P t'"
  using assms by (auto simp: wg_handshake_init_def split_def Let_def WG_COOKIE_LEN_def intro!: oks split: if_splits)

lemma ok_init_peer:
  assumes "tunnel_ok P t" "hs_ok st" "i < peer_count t" "wg_handshake_init_peer t i st w = (err, t', msg, st', w')"
  shows "tunnel_ok P t' \<and> hs_ok st' \<and> peer_count t' = peer_count t"
  using assms
  by (auto simp: wg_handshake_init_peer_def split_def Let_def intro!: oks split: if_splits) (simp_all add: set_peer_def)

lemma ok_responder_session [oks]: "session_ok s \<Longrightarrow> session_ok (responder_session s ck i j now)"
  by (auto simp: responder_session_def split_def Let_def intro!: oks)

lemma consume_init_static:
  "consume_init sp su msg st = Some (st', k) \<Longrightarrow> init_ok msg \<Longrightarrow> length k = 32"
  by (auto simp: consume_init_def split_def Let_def init_ok_def dest: decrypt_length split: option.splits)

lemma ok_answer:
  assumes "tunnel_ok P t" "length k = 32" "answer_init t msg st k w = (t', w')"
  shows "tunnel_ok P t' \<and> peer_count t' = peer_count t"
proof (cases "wg_find_peer_by_public_key (Some t) k")
  case None
  then show ?thesis using assms
    by (auto simp: answer_init_def start_own_session_def split_def Let_def intro!: oks)
next
  case (Some i)
  then have "i < peer_count t" by blast
  with Some show ?thesis using assms
    by (auto simp: answer_init_def start_peer_session_def split_def Let_def intro!: oks) (simp_all add: set_peer_def)
qed

lemma ok_init_process:
  assumes "tunnel_ok P t" "init_ok msg" "wg_handshake_init_process t msg w = (err, t', w')"
  shows "tunnel_ok P t' \<and> peer_count t' = peer_count t"
proof (cases "consume_init (static_private t) (static_public t) msg zero_hs")
  case None
  then show ?thesis using assms
    by (auto simp: wg_handshake_init_process_def init_ok_def intro!: oks split: if_splits)
next
  case (Some sk)
  obtain st k where sk: "sk = (st, k)" by fastforce
  have m: "tunnel_ok P (t\<lparr>last_mac1 := hi_mac1 msg\<rparr>)" using assms(1,2) by (auto simp: init_ok_def intro!: oks)
  obtain t1 w1 where a: "answer_init (t\<lparr>last_mac1 := hi_mac1 msg\<rparr>) msg st k w = (t1, w1)" by fastforce
  have "tunnel_ok P t1 \<and> peer_count t1 = peer_count t"
    using ok_answer [OF m _ a] consume_init_static [OF Some [unfolded sk] assms(2)] by simp
  then show ?thesis using assms(1,3) Some sk a
    by (auto simp: wg_handshake_init_process_def split: if_splits)
qed

lemma ok_response:
  assumes "tunnel_ok P t" "wg_handshake_response t msg st w = (err, t', st', w')"
  shows "tunnel_ok P t'"
  using assms by (auto simp: wg_handshake_response_def split_def Let_def intro!: oks split: if_splits)

lemma ok_process_response:
  assumes "tunnel_ok P t" "i < peer_count t" "wg_handshake_init_process_response t i msg w = (err, t', w')"
  shows "tunnel_ok P t'"
  using assms by (auto simp: wg_handshake_init_process_response_def split_def Let_def intro!: oks split: if_splits)

lemma ok_cookie:
  assumes "tunnel_ok P t" "cookie_ok msg" "wg_process_cookie_reply t msg w = (err, t', w')"
  shows "tunnel_ok P t'"
proof -
  have "length c = 16" if "wg_xaead_decrypt k n (ck_encrypted_cookie msg) ad = Some c" for k n ad c
    using that assms(2) djb_length [of "take 16 (ck_encrypted_cookie msg)"]
    by (auto simp: wg_xaead_decrypt_def cookie_ok_def WG_AEAD_TAG_LEN_def crypto_aead_read_def Let_def split: if_splits prod.splits)
  then show ?thesis using assms(1,3)
    by (auto simp: wg_process_cookie_reply_def split_def Let_def intro!: oks split: if_splits option.splits)
qed

subsection \<open>Data\<close>

lemma ok_send:
  assumes "tunnel_ok P t" "wg_send (Some t) d w = (r, Some t', w')"
  shows "tunnel_ok P t'"
proof -
  have "length (memcpy_at (send_buffer t) 0 (transport_packet s d)) = 2048" if "length d + 32 \<le> 2048" for s
    using that assms(1) by (simp add: tunnel_ok_def)
  then show ?thesis using assms
    by (auto simp: wg_send_def split_def Let_def wg_consts sizeof_transport_def WG_AEAD_TAG_LEN_def intro!: oks split: if_splits)
qed

lemma ok_send_to_peer:
  assumes "tunnel_ok P t" "i < peer_count t" "wg_send_to_peer (Some t) (Some i) d w = (r, Some t', w')"
  shows "tunnel_ok P t'"
proof -
  have "length (memcpy_at (send_buffer t) 0 (transport_packet s d)) = 2048" if "length d + 32 \<le> 2048" for s
    using that assms(1) by (simp add: tunnel_ok_def)
  then show ?thesis using assms
    by (auto simp: wg_send_to_peer_def split_def Let_def wg_consts sizeof_transport_def WG_AEAD_TAG_LEN_def intro!: oks split: if_splits)
qed

lemma ok_keepalives:
  "tunnel_ok P t \<Longrightarrow> tunnel_ok P (fst (wg_send_keepalive t w))"
  "tunnel_ok P t \<Longrightarrow> i < peer_count t \<Longrightarrow> tunnel_ok P (fst (wg_send_keepalive_to_peer t i w))"
  by (auto simp: wg_send_keepalive_def wg_send_keepalive_to_peer_def split_def Let_def intro!: oks)

lemma ok_socket_recv:
  assumes "tunnel_ok P t" "wg_socket_recv t buf n ms w = Some (r, buf', t', w')" "n \<le> length buf"
  shows "tunnel_ok P t' \<and> length buf' = length buf \<and> (\<forall>k. r = Inr k \<longrightarrow> k \<le> n) \<and> peer_count t' = peer_count t"
proof -
  have "length d \<le> n" if "relay_recv dl n rs vs = Some (Inr d, rs')" for dl rs vs d rs'
    using that by (induction dl n rs vs rule: relay_recv.induct) (auto simp: recv_iter_def Let_def split: if_splits)
  then have "length d \<le> n \<and> length (memcpy_at buf 0 d) = length buf" if "relay_recv dl n rs vs = Some (Inr d, rs')" for dl rs vs d rs'
    using assms(3) that order_trans by (metis add_0 memcpy_at_length)
  then show ?thesis using assms
    by (auto simp: wg_socket_recv_def split_def Let_def intro!: oks split: if_splits option.splits sum.splits)
qed

lemma ok_recv:
  assumes "tunnel_ok P t" "wg_recv (Some t) buf n ms w = Some (r, buf', Some t', w')"
  shows "tunnel_ok P t'"
proof (cases "valid (session t)")
  case False
  then show ?thesis using assms by (simp add: wg_recv_def)
next
  case True
  then obtain q p t1 w1 where s: "wg_socket_recv t (replicate WG_MAX_PACKET_SIZE 0) WG_MAX_PACKET_SIZE ms w = Some (q, p, t1, w1)"
    using assms(2) by (auto simp: wg_recv_def split: option.splits)
  have "tunnel_ok P t1" using ok_socket_recv [OF assms(1) s] by simp
  then show ?thesis using assms(2) True s
    by (auto simp: wg_recv_def split_def Let_def intro!: oks split: if_splits option.splits sum.splits)
qed

subsection \<open>Receive thread\<close>

lemma pool_slots_update [simp]:
  "pool_slots (pool\<lparr>slots := Some ss\<rparr>) = ss" "pool_slots (pool\<lparr>free_head := h\<rparr>) = pool_slots pool"
  by (simp_all add: pool_slots_def)

lemma sized_slot:
  assumes "pool_sized pool" "length (slot_data s) = 2048"
  shows "pool_sized (pool\<lparr>slots := Some ((pool_slots pool)[i := s])\<rparr>)"
  using assms set_update_subset_insert [of "pool_slots pool" i s] by (auto simp: pool_sized_def)

lemma sized_head: "pool_sized (pool\<lparr>free_head := h\<rparr>) = pool_sized pool"
  by (simp add: pool_sized_def)

lemma sized_next:
  assumes "pool_sized pool" "i < 256"
  shows "pool_sized (pool\<lparr>slots := Some (set_next (pool_slots pool) i n)\<rparr>)"
  unfolding set_next_def using assms by (intro sized_slot) (auto simp: pool_sized_def)

lemma sized_acquire:
  assumes "pool_sized pool" "pool_free pool xs" "wg_recv_pool_acquire pool = (slot, pool')"
  shows "pool_sized pool' \<and> (\<forall>i. slot = Some i \<longrightarrow> i < 256)"
proof (cases xs)
  case Nil
  then show ?thesis using assms pool_free_acquire [OF assms(2)] by simp
next
  case (Cons x ys)
  then have h: "free_head pool = Some x" "x < 256" "initialized pool" using assms(1,2) by (auto simp: pool_free_def pool_sized_def)
  have "pool_sized (pool\<lparr>free_head := next_slot (pool_slots pool ! x)\<rparr>)" using assms(1) by (simp add: sized_head)
  from sized_next [OF this h(2), of None] show ?thesis using assms(3) h
    by (auto simp: wg_recv_pool_acquire_def Let_def)
qed

lemma sized_release:
  assumes "pool_sized pool" "\<And>i. slot = Some i \<Longrightarrow> i < 256"
  shows "pool_sized (wg_recv_pool_release pool slot)"
proof (cases slot)
  case None
  then show ?thesis using assms(1) by (simp add: wg_recv_pool_release_def)
next
  case (Some i)
  then show ?thesis using sized_next [OF assms(1)] assms by (simp add: wg_recv_pool_release_def sized_head)
qed

lemma ok_release: "tunnel_ok pool_sized t \<Longrightarrow> (\<And>i. slot = Some i \<Longrightarrow> i < 256) \<Longrightarrow> tunnel_ok pool_sized (release_slot t slot)"
  by (auto simp: release_slot_def intro!: oks sized_release dest: ok_pool)

lemma ok_store:
  assumes "tunnel_ok pool_sized t" "length (fallback_packet rv) = 2048" "length p = 2048" "store_packet t rv slot p = (t', rv')"
  shows "tunnel_ok pool_sized t' \<and> length (fallback_packet rv') = 2048"
  using assms
  by (auto simp: store_packet_def Let_def intro!: oks sized_slot dest: ok_pool split: option.splits)

text \<open>References that point into the tables.\<close>

fun ref_in :: "WgTunnel \<Rightarrow> sess_ref \<Rightarrow> bool" where
  "ref_in t (PeerCur i) = (i < peer_count t)"
| "ref_in t (PeerPrev i) = (i < peer_count t)"
| "ref_in t r = True"

lemma ok_get_sess: "tunnel_ok pool_sized t \<Longrightarrow> ref_in t r \<Longrightarrow> session_ok (get_sess t r)"
  by (cases r) (auto intro: oks)

lemma ok_put_sess: "tunnel_ok pool_sized t \<Longrightarrow> ref_in t r \<Longrightarrow> session_ok s \<Longrightarrow> tunnel_ok pool_sized (put_sess t r s)"
  by (cases r) (auto intro!: oks)

lemma put_sess_count [simp]: "peer_count (put_sess t r s) = peer_count t" "peer_count (set_peer t i p) = peer_count t"
  by (cases r) (simp_all add: set_peer_def)

lemma ref_in_keeps [simp]: "ref_in (put_sess t q s) r = ref_in t r" "ref_in (set_peer t i p) r = ref_in t r"
  by (cases r; simp)+

lemma found_session: "find_session t idx = (peer, Some r) \<Longrightarrow> ref_in t r \<and> (\<forall>i. peer = Some i \<longrightarrow> i < peer_count t)"
  by (auto simp: find_session_def Let_def split: option.splits if_splits)

lemma ok_drop: "tunnel_ok pool_sized t \<Longrightarrow> ref_in t r \<Longrightarrow> tunnel_ok pool_sized (drop_expired t peer r)"
  by (auto simp: drop_expired_def Let_def intro!: oks ok_put_sess split: option.splits simp del: put_sess.simps)

lemma ok_endpoint [oks]: "tunnel_ok pool_sized t \<Longrightarrow> tunnel_ok pool_sized (wg_update_endpoint_from_recv t)"
  by (auto simp: wg_update_endpoint_from_recv_def intro!: oks)

lemma ok_recv_data:
  assumes t: "tunnel_ok pool_sized t" and p: "length p = 2048" "n \<le> 2048" and r: "recv_data t n p w = (t', p', w', del)"
  shows "tunnel_ok pool_sized t' \<and> length p' = 2048"
proof -
  define m where "m = transport_of_bytes (take n p)"
  obtain peer sess where f: "find_session t (tr_receiver_index m) = (peer, sess)" by fastforce
  show ?thesis
  proof (cases sess)
    case None
    then show ?thesis using t p r f by (simp add: recv_data_def m_def)
  next
    case (Some s)
    note fs = found_session [OF f [unfolded Some]]
    have ml: "length (memcpy_at p 16 d) = 2048" if "wg_aead_decrypt k c (tr_encrypted_data m) [] = Some d" for k c d
      using decrypt_length [OF that] p by (simp add: m_def transport_of_bytes_def)
    have w: "wf_replay (snd (wg_counter_validate (replay (get_sess t s)) c))" for c
      by (rule ok_validate [OF ok_get_sess [OF t]]) (use fs in blast)
    show ?thesis using t p r f Some fs ml w
      by (auto simp: recv_data_def m_def [symmetric] split_def Let_def sizeof_transport_def WG_AEAD_TAG_LEN_def
          simp del: put_sess.simps get_sess.simps intro!: oks ok_put_sess ok_get_sess ok_drop split: if_splits option.splits)
  qed
qed

lemma ok_recv_response:
  assumes "tunnel_ok pool_sized t" "length p = 2048"
  shows "tunnel_ok pool_sized (fst (recv_response t n p w))"
proof -
  let ?f = "find (\<lambda>pi. let peer = peers t ! pi in connected peer \<and> \<not> valid (p_session peer) \<and>
    local_index (p_session peer) = hr_receiver_index (response_of_bytes p)) [0..<peer_count t]"
  have l: "length (pending_response t) = 256" using assms(1) by (simp add: tunnel_ok_def)
  have m: "tunnel_ok pool_sized (t\<lparr>pending_response := memcpy_at (pending_response t) 0 (take n p), pending_response_len := n\<rparr>)" if "n \<le> 256"
    using that l assms by (intro oks) simp_all
  have q: "tunnel_ok pool_sized (fst (snd (wg_handshake_init_process_response t i (response_of_bytes p) w)))" if "?f = Some i" for i
    using ok_process_response [OF assms(1) find_upt [OF that]] by (metis prod.collapse)
  show ?thesis
  proof (cases "rekey_in_progress (session t)")
    case True
    then show ?thesis using m assms(1) l by (simp add: recv_response_def)
  next
    case False
    then show ?thesis using q assms(1) by (cases ?f) (simp_all add: recv_response_def split_def del: find_upt)
  qed
qed

lemma ok_recv_cookie:
  assumes "tunnel_ok pool_sized t" "length p = 2048"
  shows "tunnel_ok pool_sized (fst (recv_cookie t n p w))"
proof -
  obtain e t1 w1 where c: "wg_process_cookie_reply t (cookie_of_bytes p) w = (e, t1, w1)" by (metis prod_cases3)
  have "tunnel_ok pool_sized t1" using ok_cookie [OF assms(1) messages_ok(2) c] assms(2) by simp
  then show ?thesis using assms(1) c by (simp add: recv_cookie_def oks)
qed

lemma ok_recv_init:
  assumes "tunnel_ok pool_sized t" "length p = 2048"
  shows "tunnel_ok pool_sized (fst (recv_init t n p w))"
proof -
  obtain e t1 w1 where i: "wg_handshake_init_process t (init_of_bytes p) w = (e, t1, w1)" by (metis prod_cases3)
  have "tunnel_ok pool_sized t1" using ok_init_process [OF assms(1) messages_ok(1) i] assms(2) by simp
  then show ?thesis using assms(1) i ok_keepalives(2) by (auto simp: recv_init_def split: option.splits)
qed

lemma ok_recv_control:
  assumes "tunnel_ok pool_sized t" "length p = 2048" "recv_control t n p w = (t', w')"
  shows "tunnel_ok pool_sized t'"
proof -
  have "tunnel_ok pool_sized (fst (recv_control t n p w))"
    using ok_recv_response [OF assms(1,2)] ok_recv_cookie [OF assms(1,2)] ok_recv_init [OF assms(1,2)] assms(1)
    by (simp add: recv_control_def Let_def)
  then show ?thesis using assms(3) by simp
qed

lemma ok_round:
  assumes t: "tunnel_ok pool_sized t" and f: "length (fallback_packet rv) = 2048" and x: "pool_free (recv_pool t) xs"
    and r: "recv_thread_round cb (t, rv, u, w) = Some (t', rv', u', w')"
  shows "tunnel_ok pool_sized t' \<and> length (fallback_packet rv') = 2048"
proof -
  obtain slot pool where a: "wg_recv_pool_acquire (recv_pool t) = (slot, pool)" by fastforce
  have s: "pool_sized pool" "\<And>i. slot = Some i \<Longrightarrow> i < 256" using sized_acquire [OF ok_pool [OF t] x a] by auto
  define t0 where "t0 = t\<lparr>recv_pool := pool\<rparr>"
  have t0: "tunnel_ok pool_sized t0" unfolding t0_def using t s(1) by (rule ok_updates)
  have b: "length (packet_buf t0 rv slot) = 2048"
    using f s by (auto simp: packet_buf_def t0_def pool_sized_def split: option.split)
  note d = recv_thread_round_def a t0_def [symmetric] Let_def split
  obtain q p t1 w1 where sr: "wg_socket_recv t0 (packet_buf t0 rv slot) WG_MAX_PACKET_SIZE 100 w = Some (q, p, t1, w1)"
    using r by (auto simp: d split: option.splits)
  have p: "tunnel_ok pool_sized t1" "length p = 2048" "\<And>k. q = Inr k \<Longrightarrow> k \<le> 2048"
    using ok_socket_recv [OF t0 sr] b by (auto simp: WG_MAX_PACKET_SIZE_def)
  note rel = ok_release [OF _ s(2)]
  show ?thesis
  proof (cases q)
    case (Inl e)
    then show ?thesis using r f rel [OF p(1)] by (auto simp: d sr wg_time_now_def split: if_splits)
  next
    case (Inr n)
    obtain t2 rv2 where st: "store_packet t1 rv slot p = (t2, rv2)" by fastforce
    note t2 = ok_store [OF p(1) f p(2) st]
    define rv3 where "rv3 = rv2\<lparr>total_recv := total_recv rv2 + 1\<rparr>"
    have f3: "length (fallback_packet rv3) = 2048" using t2 by (simp add: rv3_def)
    obtain t3 p3 w3 del where rd: "recv_data t2 n p w1 = (t3, p3, w3, del)" by (metis prod_cases4)
    have t3: "tunnel_ok pool_sized t3 \<and> length p3 = 2048" using ok_recv_data [OF _ p(2) p(3) rd] t2 Inr by blast
    obtain t4 rv4 where st4: "store_packet t3 rv3 slot p3 = (t4, rv4)" by fastforce
    have t4: "tunnel_ok pool_sized t4 \<and> length (fallback_packet rv4) = 2048" using ok_store [OF _ f3 _ st4] t3 by blast
    obtain tc wc where rc: "recv_control t2 n p w1 = (tc, wc)" by fastforce
    have tc: "tunnel_ok pool_sized tc" using ok_recv_control [OF _ p(2) rc] t2 by blast
    have h: "tunnel_ok pool_sized th" if "hand_over cb t4 slot m u = (th, uh)" for m th uh
      using that t4 rel [of t4] by (auto simp: hand_over_def split: option.splits if_splits prod.splits)
    show ?thesis using r f3 t2 t4 tc h rel [of t2] rel [of t4] rel [of tc]
      by (auto simp: d sr Inr st rv3_def [symmetric] rd st4 rc split: if_splits prod.splits)
  qed
qed

subsection \<open>Timers, connecting, configuration\<close>

lemma ok_keepalive_peer:
  assumes "tunnel_ok P t" "i < peer_count t" "keepalive_peer now i (t, w) = (t', w')"
  shows "tunnel_ok P t' \<and> peer_count t' = peer_count t"
proof -
  have "tunnel_ok P (fst (wg_send_keepalive_to_peer t i w))" by (rule ok_keepalives(2) [OF assms(1,2)])
  moreover have "peer_count (fst (wg_send_keepalive_to_peer t i w)) = peer_count t"
    by (simp add: wg_send_keepalive_to_peer_def split_def Let_def)
  moreover have "peer_ok (peers t ! i)" using assms(1,2) by (rule ok_parts)
  ultimately show ?thesis using assms
    by (auto simp: keepalive_peer_def Let_def intro!: oks split: if_splits)
qed

lemma ok_keepalive_round:
  assumes "tunnel_ok P t" "keepalive_round t w = (t', w')"
  shows "tunnel_ok P t'"
proof -
  have f: "tunnel_ok P (fst (fold (keepalive_peer now) is (t, w))) \<and> peer_count (fst (fold (keepalive_peer now) is (t, w))) = peer_count t"
    if "tunnel_ok P t" "set is \<subseteq> {..<peer_count t}" for now "is" t w
    using that
  proof (induction "is" arbitrary: t w)
    case (Cons i "is")
    obtain t1 w1 where k: "keepalive_peer now i (t, w) = (t1, w1)" by fastforce
    have "tunnel_ok P t1 \<and> peer_count t1 = peer_count t" using ok_keepalive_peer [OF _ _ k] Cons.prems by simp
    then show ?case using Cons.IH [of t1 w1] Cons.prems k by simp
  qed simp
  obtain now w0 where n: "wg_time_now w = (now, w0)" by fastforce
  have "tunnel_ok P (fst (fold (keepalive_peer now) [0..<peer_count t] (t, w0)))"
    using f [OF assms(1)] by (simp add: atLeast0LessThan)
  then have "tunnel_ok P (keepalive_own now (fst (fold (keepalive_peer now) [0..<peer_count t] (t, w0))))"
    by (auto simp: keepalive_own_def intro!: oks)
  then show ?thesis using assms(2) n by (auto simp: keepalive_round_def split_def Let_def)
qed

lemma ok_connect_wait:
  "tunnel_ok P t \<Longrightarrow> length buf = 256 \<Longrightarrow> connect_wait ms r buf t w = Some (r', buf', t', w') \<Longrightarrow> tunnel_ok P t' \<and> length buf' = 256"
proof (induction ms r buf t w rule: connect_wait.induct)
  case (1 ms r buf t w)
  show ?case
  proof (cases "ms \<le> 0")
    case True
    then show ?thesis using "1.prems" by (simp add: connect_wait.simps)
  next
    case False
    then obtain q b t1 w1 where s: "wg_socket_recv t buf 256 10 w = Some (q, b, t1, w1)"
      using "1.prems"(3) by (auto simp: connect_wait.simps [of ms] split: option.splits)
    have o: "tunnel_ok P t1" "length b = 256" using ok_socket_recv [OF "1.prems"(1) s] "1.prems"(2) by auto
    show ?thesis
    proof (cases "\<exists>e. q = Inl e \<and> e = WG_ERR_TIMEOUT \<and> \<not> pending_cookie t1")
      case True
      then have q: "q = Inl WG_ERR_TIMEOUT" "\<not> pending_cookie t1" by auto
      have "connect_wait (ms - 10) (Inl WG_ERR_TIMEOUT) b t1 w1 = Some (r', buf', t', w')"
        using "1.prems"(3) False s q by (simp add: connect_wait.simps [of ms])
      then show ?thesis using "1.IH" [OF False s] q o by simp
    next
      case False
      then show ?thesis using o "1.prems"(3) \<open>\<not> ms \<le> 0\<close> s
        by (auto simp: connect_wait.simps [of ms] split: sum.splits if_splits)
    qed
  qed
qed

lemma ok_connect_answer:
  assumes "tunnel_ok P t" "length buf = 256" "connect_answer n buf t st err w = (err', leave, t', w')"
  shows "tunnel_ok P t'"
proof -
  obtain e1 t1 w1 where i: "wg_handshake_init_process t (init_of_bytes buf) w = (e1, t1, w1)" by (metis prod_cases3)
  obtain e2 t2 st2 w2 where r: "wg_handshake_response t (response_of_bytes buf) st w = (e2, t2, st2, w2)" by (metis prod_cases4)
  have "tunnel_ok P t1" "tunnel_ok P t2" using ok_init_process [OF assms(1) messages_ok(1) i] ok_response [OF assms(1) r] assms(2) by simp_all
  then show ?thesis using assms(1,3) i r by (auto simp: connect_answer_def Let_def split: if_splits)
qed

lemma ok_connect_attempt:
  assumes "tunnel_ok P t" "length buf = 256" "connect_attempt buf t w = Some (err, leave, buf', t', w')"
  shows "tunnel_ok P t' \<and> length buf' = 256"
proof -
  obtain e t1 msg st w1 where i: "wg_handshake_init t zero_hs w = (e, t1, msg, st, w1)" by (metis prod_cases5)
  obtain sent w2 where s: "wg_socket_send t1 (init_bytes msg) w1 = (sent, w2)" by fastforce
  obtain j w3 where j: "wg_jitter_ms w2 = (j, w3)" by fastforce
  have o: "tunnel_ok P t1" by (rule ok_init [OF assms(1) i])
  show ?thesis
  proof (cases "e = WG_OK \<and> 0 \<le> sent")
    case False
    then show ?thesis using assms(2,3) o i s by (auto simp: connect_attempt_def split: if_splits)
  next
    case True
    let ?w = "connect_wait (WG_REKEY_TIMEOUT * 1000 + j) (Inl WG_ERR_TIMEOUT) buf (t1\<lparr>pending_cookie := False\<rparr>) w3"
    obtain r b t2 w4 where c: "?w = Some (r, b, t2, w4)"
      using assms(3) True i s j by (auto simp: connect_attempt_def split: option.splits)
    have p: "tunnel_ok P t2" "length b = 256"
      using ok_connect_wait [OF ok_updates(12) [OF o] assms(2) c] by auto
    have "tunnel_ok P (fst (snd (snd (connect_answer n b t2 st e w4))))" for n
      using ok_connect_answer [OF p] by (metis prod.collapse)
    then show ?thesis using assms(3) True i s j c p
      by (auto simp: connect_attempt_def split_def Let_def intro!: oks split: if_splits sum.splits) (metis fst_conv)+
  qed
qed

lemma ok_connect:
  assumes "tunnel_ok P t" "length buf = 256" "wg_connect fd buf (Some t) w = Some (err, Some t', w')"
  shows "tunnel_ok P t'"
proof -
  have l: "connect_loop n e b t w = Some (e', t', w') \<Longrightarrow> tunnel_ok P t \<Longrightarrow> length b = 256 \<Longrightarrow> tunnel_ok P t'" for n e b t w e' t' w'
  proof (induction n arbitrary: e b t w)
    case (Suc n)
    obtain e1 lv b1 t1 w1 where a: "connect_attempt b t w = Some (e1, lv, b1, t1, w1)"
      using Suc.prems(1) by (auto split: option.splits)
    show ?case using ok_connect_attempt [OF Suc.prems(2,3) a] Suc.IH [of e1 b1 t1 w1] Suc.prems(1) a
      by (auto split: if_splits)
  qed simp
  obtain e0 t0 where so: "(if socket_fd t < 0 then wg_socket_open fd t w else (WG_OK, t)) = (e0, t0)" by fastforce
  have t0: "tunnel_ok P t0" using so assms(1) by (auto simp: wg_socket_open_def Let_def intro!: oks split: if_splits)
  show ?thesis
  proof (cases "e0 = WG_OK")
    case False
    then show ?thesis using assms(3) so t0 by (auto simp: wg_connect_def)
  next
    case True
    then obtain e1 t1 w1 where c: "connect_loop WG_MAX_TIMER_HANDSHAKES WG_ERR_TIMEOUT buf t0 w = Some (e1, t1, w1)"
      using assms(3) so by (auto simp: wg_connect_def split: option.splits)
    have t1: "tunnel_ok P t1" by (rule l [OF c t0 assms(2)])
    then show ?thesis using assms(3) so True c ok_keepalives(1) [OF t1, of w1]
      by (auto simp: wg_connect_def split_def Let_def intro!: oks split: if_splits)
  qed
qed

text \<open>What other threads do during the sleeps of \<open>wg_rekey\<close> has to keep the tunnel well-formed.\<close>

lemma ok_rekey_wait:
  assumes "\<And>k t. tunnel_ok P t \<Longrightarrow> tunnel_ok P (env k t)" "tunnel_ok P t"
  shows "tunnel_ok P (fst (rekey_wait env ms k t))"
  using assms
proof (induction env ms k t rule: rekey_wait.induct)
  case (1 env ms k t)
  then show ?case by (subst rekey_wait.simps) simp
qed

lemma ok_rekey_attempt:
  assumes e: "\<And>k t. tunnel_ok P t \<Longrightarrow> tunnel_ok P (env k t)" and t: "tunnel_ok P t"
    and r: "rekey_attempt env k t w = (err, leave, k', t', w')"
  shows "tunnel_ok P t'"
proof -
  define t0 where "t0 = t\<lparr>pending_response_len := 0, pending_cookie := False\<rparr>"
  have t0: "tunnel_ok P t0" unfolding t0_def using t by (intro oks) simp_all
  obtain e1 t1 msg st w1 where i: "wg_handshake_init t0 zero_hs w = (e1, t1, msg, st, w1)" by (metis prod_cases5)
  have t1: "tunnel_ok P t1" by (rule ok_init [OF t0 i])
  obtain sent w2 where s: "wg_socket_send t1 (init_bytes msg) w1 = (sent, w2)" by fastforce
  obtain j w3 where j: "wg_jitter_ms w2 = (j, w3)" by fastforce
  obtain t2 k2 where wt: "rekey_wait env (WG_REKEY_TIMEOUT * 1000 + j) k t1 = (t2, k2)" by fastforce
  have t2: "tunnel_ok P t2" using ok_rekey_wait [of P env t1 "WG_REKEY_TIMEOUT * 1000 + j" k] e t1 wt by simp
  obtain e3 t3 st3 w4 where h: "wg_handshake_response t2 (response_of_bytes (pending_response t2)) st w3 = (e3, t3, st3, w4)"
    by (metis prod_cases4)
  have t3: "tunnel_ok P t3" by (rule ok_response [OF t2 h])
  show ?thesis using r t1 t2 t3 i s j wt h
    by (auto simp: rekey_attempt_def t0_def [symmetric] Let_def intro!: oks split: if_splits)
qed

lemma ok_rekey:
  assumes e: "\<And>k t. tunnel_ok P t \<Longrightarrow> tunnel_ok P (env k t)" and t: "tunnel_ok P t" and r: "wg_rekey env t w = (err, t', w')"
  shows "tunnel_ok P t'"
proof -
  have l: "rekey_loop env n er k t w = (er', t', w') \<Longrightarrow> tunnel_ok P t \<Longrightarrow> tunnel_ok P t'" for n er k t w er' t' w'
  proof (induction n arbitrary: er k t w)
    case (Suc n)
    obtain e1 lv k1 t1 w1 where a: "rekey_attempt env k t w = (e1, lv, k1, t1, w1)" by (metis prod_cases5)
    show ?case using ok_rekey_attempt [OF e Suc.prems(2) a] Suc.IH [of e1 k1 t1 w1] Suc.prems(1) a by (auto split: if_splits)
  qed simp
  obtain e1 t1 w1 where c: "rekey_loop env WG_MAX_TIMER_HANDSHAKES WG_ERR_TIMEOUT 0 (t\<lparr>pending_response_len := 0\<rparr>) w = (e1, t1, w1)"
    by (metis prod_cases3)
  have t1: "tunnel_ok P t1" using t by (intro l [OF c] oks) simp_all
  then show ?thesis using r c ok_keepalives(1) [OF t1, of w1]
    by (auto simp: wg_rekey_def split_def Let_def intro!: oks split: if_splits)
qed

lemma ok_add_peer:
  assumes "tunnel_ok P t" "length key = 32" "length hash = 36" "wg_add_peer (Some t) key hash ip = (i, Some t')"
  shows "tunnel_ok P t'"
proof -
  define p where "p = zero_peer\<lparr>public_key := key, relay_hash := hash, ip_raw := ip, p_tunnel_ip := ip, configured := True, connected := False\<rparr>"
  have "peer_ok p" unfolding p_def using assms(2,3) by (intro oks)
  then have "tunnel_ok P (set_peer t (peer_count t) p)" using assms(1) by (rule ok_set_peer [rotated])
  then have "peer_count t < 64 \<Longrightarrow> tunnel_ok P ((set_peer t (peer_count t) p)\<lparr>peer_count := Suc (peer_count t)\<rparr>)"
    by (simp add: tunnel_ok_def)
  then show ?thesis using assms by (auto simp: wg_add_peer_def p_def wg_consts Let_def split: if_splits)
qed

lemma ok_output:
  assumes "tunnel_ok P t" "wg_netif_output cp ip (Some t) w = (err, Some t', w')"
  shows "tunnel_ok P t'"
proof (cases "cp 1500 = [] \<or> wg_find_peer_by_ip (Some t) ip = None")
  case True
  then show ?thesis using assms by (auto simp: wg_netif_output_def Let_def split: option.splits if_splits)
next
  case False
  then obtain i where f: "wg_find_peer_by_ip (Some t) ip = Some i" and i: "i < peer_count t" by auto
  obtain h t1 msg hs w1 where hi: "wg_handshake_init_peer t i zero_hs w = (h, t1, msg, hs, w1)" by (metis prod_cases5)
  have t1: "tunnel_ok P t1" "hs_ok hs" "peer_count t1 = peer_count t"
    using ok_init_peer [OF assms(1) ok_zero(2) i hi] by auto
  have "tunnel_ok P (set_peer t1 i ((peers t1 ! i)\<lparr>pending_hs := hs, hs_pending := True\<rparr>))"
    using t1 i by (intro oks) simp_all
  moreover have "tunnel_ok P t2" if "wg_send_to_peer (Some t) (Some i) d w = (r, Some t2, w2)" for d r t2 w2
    by (rule ok_send_to_peer [OF assms(1) i that])
  ultimately show ?thesis using assms False f hi t1(1)
    by (auto simp: wg_netif_output_def split_def Let_def split: if_splits sum.splits) (metis prod.collapse)+
qed

lemma ok_start_stop:
  "tunnel_ok P t \<Longrightarrow> wg_start r1 r2 (Some t) = (err, Some t') \<Longrightarrow> tunnel_ok P t'"
  "tunnel_ok P t \<Longrightarrow> wg_stop (Some t) = Some t' \<Longrightarrow> tunnel_ok P t'"
  "tunnel_ok P t \<Longrightarrow> wg_set_recv_callback (Some t) cb = Some t' \<Longrightarrow> tunnel_ok P t'"
  by (auto simp: wg_start_def wg_stop_def wg_set_recv_callback_def Let_def intro!: oks split: if_splits)

section \<open>Runs of a tunnel\<close>

definition pool_inv :: "WgRecvPool \<Rightarrow> bool" where
  "pool_inv pool \<longleftrightarrow> pool_sized pool \<and> (\<exists>xs. pool_free pool xs)"

text \<open>
  One call on a tunnel, in any world: the public operations, one round of each thread, a packet of lwIP going
  out, and a consumer giving back a slot that is not free. \<open>keep\<close> is the consumer's decision on each packet. The threads interleave as these steps do. What
  happens during the sleeps of \<open>wg_rekey\<close> is any sequence of steps.
\<close>

inductive tunnel_step :: "WgTunnel \<Rightarrow> WgTunnel \<Rightarrow> bool" where
  added: "length key = 32 \<Longrightarrow> length hash = 36 \<Longrightarrow> wg_add_peer (Some t) key hash ip = (i, Some t') \<Longrightarrow> tunnel_step t t'"
| callback: "wg_set_recv_callback (Some t) cb = Some t' \<Longrightarrow> tunnel_step t t'"
| connected: "length buf = 256 \<Longrightarrow> wg_connect fd buf (Some t) w = Some (err, Some t', w') \<Longrightarrow> tunnel_step t t'"
| rekeyed: "(\<And>k u. tunnel_step\<^sup>*\<^sup>* u (env k u)) \<Longrightarrow> wg_rekey env t w = (err, t', w') \<Longrightarrow> tunnel_step t t'"
| started: "wg_start r1 r2 (Some t) = (err, Some t') \<Longrightarrow> tunnel_step t t'"
| stopped: "wg_stop (Some t) = Some t' \<Longrightarrow> tunnel_step t t'"
| sent: "wg_send (Some t) d w = (r, Some t', w') \<Longrightarrow> tunnel_step t t'"
| sent_to: "i < peer_count t \<Longrightarrow> wg_send_to_peer (Some t) (Some i) d w = (r, Some t', w') \<Longrightarrow> tunnel_step t t'"
| received: "wg_recv (Some t) buf n ms w = Some (r, buf', Some t', w') \<Longrightarrow> tunnel_step t t'"
| round: "length (fallback_packet rv) = 2048 \<Longrightarrow> recv_thread_round (\<lambda>i d u. (keep i d, u)) (t, rv, (), w) = Some (t', rv', u', w') \<Longrightarrow> tunnel_step t t'"
| timers: "keepalive_round t w = (t', w') \<Longrightarrow> tunnel_step t t'"
| routed: "wg_netif_output cp ip (Some t) w = (err, Some t', w') \<Longrightarrow> tunnel_step t t'"
| given_back: "pool_free (recv_pool t) xs \<Longrightarrow> i < 256 \<Longrightarrow> i \<notin> set xs \<Longrightarrow> wg_recv_slot_release (Some t) (Some i) = Some t' \<Longrightarrow>
    tunnel_step t t'"

lemma ok_weaken: "tunnel_ok P t \<Longrightarrow> Q (recv_pool t) \<Longrightarrow> tunnel_ok Q t"
  by (simp add: tunnel_ok_def)

lemma inv_round:
  assumes "tunnel_ok pool_inv t" "length (fallback_packet rv) = 2048" "recv_thread_round cb (t, rv, u, w) = Some (t', rv', u', w')"
  shows "tunnel_ok pool_inv t'"
proof -
  obtain xs where x: "pool_free (recv_pool t) xs" "pool_sized (recv_pool t)" using ok_pool [OF assms(1)] by (auto simp: pool_inv_def)
  have "tunnel_ok pool_sized t'" using ok_round [OF ok_weaken [where Q = pool_sized, OF assms(1) x(2)] assms(2) x(1) assms(3)] by simp
  moreover have "\<exists>ys. pool_free (recv_pool t') ys" using round_pool [OF x(1) assms(3)] by blast
  ultimately show ?thesis using ok_weaken [of pool_sized t' pool_inv] ok_pool [of pool_sized t'] by (auto simp: pool_inv_def)
qed

lemma inv_given_back:
  assumes "tunnel_ok pool_inv t" "pool_free (recv_pool t) xs" "i < 256" "i \<notin> set xs"
  shows "tunnel_ok pool_inv (release_slot t (Some i))"
proof -
  have "pool_free (recv_pool (release_slot t (Some i))) (i # xs)"
    using pool_free_release [OF assms(2)] assms(3,4) by (simp add: release_slot_def wg_consts)
  moreover have "pool_sized (recv_pool (release_slot t (Some i)))"
    using sized_release [of "recv_pool t" "Some i"] assms(3) ok_pool [OF assms(1)] by (simp add: release_slot_def pool_inv_def)
  ultimately have "pool_inv (wg_recv_pool_release (recv_pool t) (Some i))" by (auto simp: pool_inv_def release_slot_def)
  then show ?thesis using assms(1) unfolding release_slot_def by (intro oks)
qed

lemma inv_step: "tunnel_step t t' \<Longrightarrow> tunnel_ok pool_inv t \<Longrightarrow> tunnel_ok pool_inv t'"
proof (induction rule: tunnel_step.induct)
  case (rekeyed env t w err t' w')
  have "tunnel_ok pool_inv u'" if "(\<lambda>a b. tunnel_step a b \<and> (tunnel_ok pool_inv a \<longrightarrow> tunnel_ok pool_inv b))\<^sup>*\<^sup>* u u'" "tunnel_ok pool_inv u" for u u'
    using that by (induction rule: rtranclp_induct) auto
  with rekeyed.IH have "tunnel_ok pool_inv u \<Longrightarrow> tunnel_ok pool_inv (env k u)" for k u by blast
  from ok_rekey [OF this rekeyed.prems rekeyed.hyps] show ?case by simp
next
  case (given_back t xs i t')
  then show ?case using inv_given_back [of t xs i] by (auto simp: wg_recv_slot_release_def release_slot_def)
qed (blast intro: ok_add_peer ok_start_stop ok_connect ok_send ok_send_to_peer ok_recv ok_keepalive_round ok_output inv_round)+

lemma sized_links:
  "\<forall>s \<in> set ss. length (slot_data s) = 2048 \<Longrightarrow> set is \<subseteq> {..<length ss} \<Longrightarrow>
   \<forall>s \<in> set (fst (link_slots is (ss, h))). length (slot_data s) = 2048"
proof (induction "is" arbitrary: ss h)
  case (Cons i "is")
  have "\<forall>s \<in> set (set_next ss i h). length (slot_data s) = 2048"
    using Cons.prems set_update_subset_insert [of ss i "(ss ! i)\<lparr>next_slot := h\<rparr>"] by (auto simp: set_next_def)
  then show ?case using Cons.IH [of "set_next ss i h" "Some i"] Cons.prems(2) by (simp add: link_slots_def)
qed (simp add: link_slots_def)

lemma inv_pool_init:
  assumes "wg_recv_pool_init a b p = (0, Some pool)"
  shows "pool_inv pool"
proof -
  have f: "pool_free pool (rev [0..<WG_RECV_POOL_SIZE])" by (rule pool_free_init [OF assms])
  have "\<forall>s \<in> set (fst (link_slots [0..<WG_RECV_POOL_SIZE] (replicate WG_RECV_POOL_SIZE zero_slot, None))). length (slot_data s) = 2048"
    by (rule sized_links) (auto simp: zero_slot_def wg_consts)
  then have "\<forall>s \<in> set (pool_slots pool). length (slot_data s) = 2048"
    using assms by (auto simp: wg_recv_pool_init_def pool_slots_def split_def Let_def split: option.splits if_splits)
  with f show ?thesis by (auto simp: pool_inv_def pool_sized_def pool_free_def wg_consts)
qed

lemma inv_init:
  assumes "wg_init c (Some cfg) = Some t"
    and "length (cfg_private_key cfg) = 32" "length (cfg_peer_public_key cfg) = 32" "length (cfg_preshared_key cfg) = 32"
  shows "tunnel_ok pool_inv t"
proof -
  define q where "q = wg_recv_pool_init (pool_calloc_ok c) (pool_mutex_ok c) (Some \<lparr>slots = None, free_head = None, initialized = False\<rparr>)"
  have "snd q \<noteq> None"
    by (cases "pool_calloc_ok c"; cases "pool_mutex_ok c") (simp_all add: q_def wg_recv_pool_init_def split_def Let_def)
  then obtain r z where z: "q = (r, Some z)" by (cases q) auto
  have p: "r = 0 \<Longrightarrow> pool_inv z" using z unfolding q_def by (intro inv_pool_init) simp
  have s: "session_ok (zero_session\<lparr>valid := False\<rparr>)" "session_ok zero_session" "peer_ok zero_peer" by (intro oks)+
  show ?thesis using assms z p s
    by (auto simp: wg_init_def wg_resolve_endpoint_def split_def Let_def tunnel_ok_def zero_tunnel_def wg_consts q_def
        split: if_splits option.splits)
qed

section \<open>Properties\<close>

text \<open>
  C12: Every reachable tunnel is well-formed. Whatever configuration, network, clock, lwIP and consumers do, after any sequence of
  operations and thread rounds on a tunnel made by \<open>wg_init\<close> all keys, MACs, buffers and replay windows have their
  sizes, the peer count and the length of a pending response are within the arrays, the receive pool has
  256 slots of 2048 bytes linked without repetition, and \<open>wg_canary_check\<close> finds both guard words intact.
\<close>

theorem reachable_well_formed:
  assumes "wg_init c (Some cfg) = Some t"
    and "length (cfg_private_key cfg) = 32" and "length (cfg_peer_public_key cfg) = 32" and "length (cfg_preshared_key cfg) = 32"
    and "tunnel_step\<^sup>*\<^sup>* t t'"
  shows "tunnel_ok pool_inv t' \<and> wg_canary_check (Some t') = 1"
proof -
  have "tunnel_ok pool_inv t'" using assms(5) inv_init [OF assms(1-4)]
    by (induction rule: rtranclp_induct) (auto intro: inv_step)
  then show ?thesis by (simp add: wg_canary_check_def tunnel_ok_def)
qed

theorem reachable_well_formed_witness:
  "let c = \<lparr>calloc_ok = True, getaddrinfo = (\<lambda>_ _. (0, None)), send_mutex_init = 0, stop_mutex_init = 0, stop_cond_init = 0,
            pool_calloc_ok = True, pool_mutex_ok = True\<rparr>;
       cfg = \<lparr>cfg_private_key = replicate 32 1, cfg_tunnel_ip = 10, cfg_peer_public_key = replicate 32 2, endpoint_host = ''127.0.0.1'',
              endpoint_port = 51820, cfg_keepalive_interval = 25, cfg_preshared_key = replicate 32 3, has_preshared_key = True\<rparr>
   in \<exists>t t'. wg_init c (Some cfg) = Some t \<and> tunnel_step\<^sup>*\<^sup>* t t' \<and> peer_count t' = 1 \<and> running t' \<and>
        tunnel_ok pool_inv t' \<and> wg_canary_check (Some t') = 1"
proof -
  define c where "c = \<lparr>calloc_ok = True, getaddrinfo = (\<lambda>_ _. (0, None)), send_mutex_init = 0, stop_mutex_init = 0, stop_cond_init = 0,
    pool_calloc_ok = True, pool_mutex_ok = True\<rparr>"
  define cfg where "cfg = \<lparr>cfg_private_key = replicate 32 1, cfg_tunnel_ip = 10, cfg_peer_public_key = replicate 32 2,
    endpoint_host = ''127.0.0.1'', endpoint_port = 51820, cfg_keepalive_interval = 25, cfg_preshared_key = replicate 32 3,
    has_preshared_key = True\<rparr>"
  obtain t where i: "wg_init c (Some cfg) = Some t" and t: "peer_count t = 0" "\<not> running t"
    by (simp add: wg_init_def c_def cfg_def wg_resolve_endpoint_def wg_stop_cond_init_def wg_recv_pool_init_def split_def Let_def zero_tunnel_def)
  obtain t1 where a: "wg_add_peer (Some t) (replicate 32 4) (replicate 36 5) 6 = (Some 0, Some t1)" and t1: "peer_count t1 = 1" "\<not> running t1"
    using t by (simp add: wg_add_peer_def wg_consts set_peer_def Let_def)
  obtain t2 where s: "wg_start 0 0 (Some t1) = (WG_OK, Some t2)" and t2: "peer_count t2 = 1" "running t2"
    using t1 by (simp add: wg_start_def Let_def)
  have "tunnel_step t t1" by (rule added [OF _ _ a]) simp_all
  moreover have "tunnel_step t1 t2" by (rule tunnel_step.started [OF s])
  ultimately have st: "tunnel_step\<^sup>*\<^sup>* t t2" by simp
  have "length (cfg_private_key cfg) = 32" "length (cfg_peer_public_key cfg) = 32" "length (cfg_preshared_key cfg) = 32"
    by (simp_all add: cfg_def)
  from reachable_well_formed [OF i this st] show ?thesis
    unfolding Let_def c_def [symmetric] cfg_def [symmetric] using i st t2 by blast
qed

end
