(* ===== verification/DataStream.thy ===== *)
theory DataStream
  imports System
begin

text \<open>
  A stream of data over one session: the packets a sender makes, the ring they pass through, and the calls that
  receive them. These are sequences of the operations of the other theories.
\<close>

section \<open>Sequences of calls\<close>

fun send_all :: "bytes list \<Rightarrow> WgTunnel \<times> world \<Rightarrow> (WgError + nat) list \<times> WgTunnel \<times> world" where
  "send_all [] (tun, w) = ([], tun, w)"
| "send_all (d # ds) (tun, w) =
     (let (r, t, w) = wg_send (Some tun) d w; (rs, tun, w) = send_all ds (the t, w) in (r # rs, tun, w))"

text \<open>The relay writes packets to the ring; \<open>None\<close>: it waits for the consumer.\<close>

fun feed :: "bytes list \<Rightarrow> ring \<Rightarrow> ring option" where
  "feed [] r = Some r"
| "feed (p # ps) r = (case wg_relay_input r p of None \<Rightarrow> None | Some r \<Rightarrow> feed ps r)"

text \<open>\<open>n\<close> calls of \<open>wg_recv\<close> with a buffer of \<open>len\<close> bytes: the text or the error of each.\<close>

fun recv_all :: "nat \<Rightarrow> nat \<Rightarrow> int \<Rightarrow> WgTunnel \<times> world \<Rightarrow> (WgError + bytes) list option" where
  "recv_all 0 len timeout_ms (tun, w) = Some []"
| "recv_all (Suc n) len timeout_ms (tun, w) =
     (case wg_recv (Some tun) (replicate len 0) len timeout_ms w of
        None \<Rightarrow> None
      | Some (r, buf, t, w) \<Rightarrow>
          map_option (\<lambda>rs. (case r of Inl e \<Rightarrow> Inl e | Inr k \<Rightarrow> Inr (take k buf)) # rs) (recv_all n len timeout_ms (the t, w)))"

section \<open>Sending\<close>

fun stream_packets :: "WgSession \<Rightarrow> bytes list \<Rightarrow> bytes list" where
  "stream_packets s [] = []"
| "stream_packets s (d # ds) = transport_packet s d # stream_packets (count_sent s) ds"

definition young :: "WgTunnel \<Rightarrow> world \<Rightarrow> bool" where
  "young tun w \<longleftrightarrow> relay_send w \<and> (\<forall>n. ticks w n - last_handshake (session tun) < WG_REJECT_AFTER_TIME * NS)"

lemma send_one:
  assumes "valid (session tun)" "young tun w" "sending_counter (session tun) < WG_REJECT_AFTER_MESSAGES" "length d \<le> 2016"
  shows "\<exists>tun' w'. wg_send (Some tun) d w = (Inr (length d), Some tun', w') \<and> session tun' = count_sent (session tun) \<and>
    young tun' w' \<and> sent_log w' = sent_log w @ [ToRelay None (transport_packet (session tun) d)]"
proof -
  have "wg_session_expired tun w = (False, w\<lparr>tick_pos := Suc (tick_pos w)\<rparr>)" using assms(1-3)
    by (simp add: wg_session_expired_def young_def wg_time_now_def Let_def not_le)
  then show ?thesis using assms
    by (simp add: wg_send_def young_def wg_socket_send_def wg_time_now_def wg_consts WG_AEAD_TAG_LEN_def memcpy_start Let_def)
qed

lemma send_stream:
  assumes "valid (session tun)" "young tun w" "sending_counter (session tun) = of_nat k" "k + length ds < 2 ^ 63"
    and "\<forall>d \<in> set ds. length d \<le> 2016"
  shows "\<exists>tun' w'. send_all ds (tun, w) = (map (\<lambda>d. Inr (length d)) ds, tun', w') \<and>
    sent_log w' = sent_log w @ map (ToRelay None) (stream_packets (session tun) ds)"
  using assms
proof (induction ds arbitrary: tun w k)
  case (Cons d ds)
  have "sending_counter (session tun) < WG_REJECT_AFTER_MESSAGES"
    using Cons.prems(3,4) by (simp add: word_less_nat_alt wg_consts unat_of_nat)
  then obtain tun1 w1 where s: "wg_send (Some tun) d w = (Inr (length d), Some tun1, w1)" "session tun1 = count_sent (session tun)"
      "young tun1 w1" "sent_log w1 = sent_log w @ [ToRelay None (transport_packet (session tun) d)]"
    using send_one [OF Cons.prems(1,2), of d] Cons.prems(5) by auto
  obtain tun2 w2 where "send_all ds (tun1, w1) = (map (\<lambda>d. Inr (length d)) ds, tun2, w2)"
      "sent_log w2 = sent_log w1 @ map (ToRelay None) (stream_packets (session tun1) ds)"
    using Cons.IH [of tun1 w1 "Suc k"] Cons.prems s by (auto simp: add.commute)
  then show ?case using s by auto
qed simp

section \<open>The ring\<close>

lemma feed_holds:
  assumes "ring_holds H c r" "length H + length ps < 2 ^ 32" "length H + length ps \<le> c + 252" "\<forall>p \<in> set ps. length p \<le> 2044"
  shows "\<exists>r'. feed ps r = Some r' \<and> ring_holds (H @ ps) c r'"
  using assms
proof (induction ps arbitrary: H r)
  case (Cons p ps)
  have "wg_relay_input r p = Some (ring_put r p)"
    using Cons.prems ring_holds_full [OF Cons.prems(1)] by (auto simp: wg_relay_input_def RING_DATA_MAX_def)
  moreover have "ring_holds (H @ [p]) c (ring_put r p)"
    using Cons.prems by (intro ring_holds_put) (simp_all add: RING_DATA_MAX_def)
  ultimately show ?case using Cons.IH [of "H @ [p]" "ring_put r p"] Cons.prems by auto
qed simp

section \<open>Receiving\<close>

text \<open>Every poll finds the ring \<open>r\<close> before its deadline; the next packet to read is number \<open>i\<close>.\<close>

definition sees :: "ring \<Rightarrow> int \<Rightarrow> nat \<Rightarrow> world \<Rightarrow> bool" where
  "sees r timeout_ms i w \<longleftrightarrow> relay_send w \<and> rseq w = of_nat i \<and>
     (\<forall>k. \<exists>now. ring_views w k = [(now, r)] \<and> (\<forall>n. now < ticks w n + of_int timeout_ms * 1000000))"

lemma sees_recv:
  assumes "sees r ms i w" "ring_holds H (length H) r" "i < length H" "length H \<le> 256" "H ! i \<noteq> []" "length (H ! i) \<le> 2048"
  shows "\<exists>w'. wg_socket_recv tun buf WG_MAX_PACKET_SIZE ms w = Some (Inr (length (H ! i)), memcpy_at buf 0 (H ! i), tun, w') \<and>
    sees r ms (Suc i) w'"
proof -
  have it: "recv_iter r (of_nat i) 2048 = Got (of_nat (Suc i)) (H ! i)"
    using recv_iter_near [OF assms(2,3), of 2048] assms(4-6) by (simp add: round_at_def)
  obtain now where now: "ring_views w (view_pos w) = [(now, r)]" "\<And>n. now < ticks w n + of_int ms * 1000000"
    using assms(1) unfolding sees_def by blast
  show ?thesis using assms(1) now it
    by (simp add: wg_socket_recv_def wg_time_now_def sees_def WG_MAX_PACKET_SIZE_def Let_def)
qed

lemma in_order_accept:
  assumes "ring_rel rc (k - 1, {..<k})" "k < 2 ^ 63"
  shows "fst (wg_counter_validate rc (of_nat k)) \<and> ring_rel (snd (wg_counter_validate rc (of_nat k))) (Suc k - 1, {..<Suc k})"
proof -
  have u: "unat (of_nat k :: u64) = k" using assms(2) by (simp add: unat_of_nat)
  have o: "\<not> out_of_range (k - 1) k" using assms(2) by (intro out_of_range_new) simp_all
  have "live (k - 1) k" by (auto simp: live_def)
  then have "\<not> aliased (k - 1) (unat (of_nat k :: u64))" unfolding u by (simp add: aliased_def)
  from validate_refines [OF assms(1) this] show ?thesis
    using o unfolding u by (simp add: lessThan_Suc max_def split: if_splits)
qed

text \<open>The receiving session has accepted exactly the packets before number \<open>k\<close> of the sending session.\<close>

definition follows :: "WgSession \<Rightarrow> WgSession \<Rightarrow> nat \<Rightarrow> bool" where
  "follows s t k \<longleftrightarrow> valid t \<and> receiving_key t = sending_key s \<and> local_index t = remote_index s \<and>
     sending_counter s = of_nat k \<and> ring_rel (replay t) (k - 1, {..<k})"

lemma recv_one:
  assumes "follows s (session tun) k" "k < 2 ^ 63" "sees r ms i w" "ring_holds H (length H) r" "i < length H" "length H \<le> 256"
    and "H ! i = transport_packet s d" "0 < length d" "length d \<le> 2012" "length d \<le> len"
  shows "\<exists>tun' w'. wg_recv (Some tun) (replicate len 0) len ms w = Some (Inr (length d), memcpy_at (replicate len 0) 0 d, Some tun', w') \<and>
    follows (count_sent s) (session tun') (Suc k) \<and> sees r ms (Suc i) w'"
proof -
  have "H ! i \<noteq> []" "length (H ! i) = 32 + length d" using assms(7) by (simp_all flip: length_0_conv)
  then obtain w1 where sr: "wg_socket_recv tun (replicate WG_MAX_PACKET_SIZE 0) WG_MAX_PACKET_SIZE ms w =
      Some (Inr (32 + length d), transport_packet s d @ drop (32 + length d) (replicate WG_MAX_PACKET_SIZE 0), tun, w1)" and w1: "sees r ms (Suc i) w1"
    using sees_recv [OF assms(3-6), of tun "replicate WG_MAX_PACKET_SIZE 0"] assms(7,9) by (auto simp: memcpy_start)
  have dec: "wg_aead_decrypt (sending_key s) c (wg_aead_encrypt (sending_key s) c d []) [] = Some d" for c
    by (simp add: aead_decrypt_iff)
  have v: "fst (wg_counter_validate (replay (session tun)) (sending_counter s))"
      "ring_rel (snd (wg_counter_validate (replay (session tun)) (sending_counter s))) (Suc k - 1, {..<Suc k})"
    using in_order_accept [of "replay (session tun)" k] assms(1,2) by (simp_all add: follows_def)
  obtain rc where rc: "wg_counter_validate (replay (session tun)) (sending_counter s) = (True, rc)" using v(1) by (metis prod.collapse)
  have "sees r ms (Suc i) (w1\<lparr>tick_pos := x\<rparr>)" for x using w1 by (simp add: sees_def)
  then show ?thesis using assms(1,8,10) sr dec rc v(2)
    by (simp add: wg_recv_def follows_def packet_fields sizeof_transport_def WG_AEAD_TAG_LEN_def wg_time_now_def Let_def add.commute)
qed

lemma recv_stream:
  assumes "follows s (session tun) k" "k + length ds < 2 ^ 63" "sees r ms i w" "ring_holds H (length H) r" "length H \<le> 256"
    and "drop i H = stream_packets s ds" "i \<le> length H" "\<forall>d \<in> set ds. 0 < length d \<and> length d \<le> 2012 \<and> length d \<le> len"
  shows "recv_all (length ds) len ms (tun, w) = Some (map Inr ds)"
  using assms
proof (induction ds arbitrary: s tun k i w)
  case (Cons d ds)
  have i: "i < length H" using Cons.prems(6,7) by (cases "i = length H") auto
  then have h: "H ! i = transport_packet s d" "drop (Suc i) H = stream_packets (count_sent s) ds"
    using Cons.prems(6) by (metis Cons_nth_drop_Suc list.inject stream_packets.simps(2))+
  have d: "0 < length d" "length d \<le> 2012" "length d \<le> len" using Cons.prems(8) by auto
  obtain tun1 w1 where r: "wg_recv (Some tun) (replicate len 0) len ms w = Some (Inr (length d), memcpy_at (replicate len 0) 0 d, Some tun1, w1)"
      "follows (count_sent s) (session tun1) (Suc k)" "sees r ms (Suc i) w1"
    using recv_one [OF Cons.prems(1) _ Cons.prems(3,4) i Cons.prems(5) h(1) d] Cons.prems(2) by auto
  have "recv_all (length ds) len ms (tun1, w1) = Some (map Inr ds)"
    using Cons.IH [OF r(2) _ r(3) Cons.prems(4,5) h(2)] Cons.prems(2,8) i by simp
  then show ?case using r(1) by (simp add: memcpy_start)
qed simp

lemma paired_follows: "paired s t \<Longrightarrow> follows s t 0"
  using ring_rel_init by (simp add: paired_def follows_def)

lemma stream_sizes:
  "\<forall>d \<in> set ds. length d \<le> n \<Longrightarrow> length (stream_packets s ds) = length ds \<and> (\<forall>q \<in> set (stream_packets s ds). length q \<le> 32 + n)"
  by (induction ds arbitrary: s) auto

lemma response_clock:
  assumes "wg_handshake_response A m st w = (WG_OK, A2, st', w')"
  shows "last_handshake (session A2) = ticks w (tick_pos w) \<and> ticks w' = ticks w \<and> relay_send w' = relay_send w"
  using assms by (auto simp: wg_handshake_response_def wg_time_now_def split_def Let_def split: if_splits)

end
