(* ===== verification/Primality.thy ===== *)
theory Primality
  imports Complex_Main
begin

text \<open>
  The number \<open>2^255 - 19\<close> of \<open>library/crypto/monocypher.c\<close> is prime. The inversion of the
  code relies on it: it computes an inverse square root and decides by Euler's criterion which of two candidates it has.
  This theory holds Euclid's lemma, Fermat's theorem, a form of Pocklington's criterion and the rules that compute powers
  modulo a number by rewriting of numerals; \<open>Certificate\<close> applies them.
\<close>

section \<open>Prime numbers\<close>

definition is_prime :: "int \<Rightarrow> bool" where
  "is_prime p \<longleftrightarrow> 1 < p \<and> (\<forall>d. 0 < d \<and> d dvd p \<longrightarrow> d = 1 \<or> d = p)"

lemma is_prime_gt: "is_prime p \<Longrightarrow> 1 < p"
  by (simp add: is_prime_def)

lemma prime_coprime:
  assumes "is_prime p" and "\<not> p dvd a"
  shows "coprime p a"
proof -
  have "gcd p a dvd p" "0 < gcd p a" using is_prime_gt [OF assms(1)] by auto
  then have "gcd p a = 1 \<or> gcd p a = p" using assms(1) unfolding is_prime_def by blast
  moreover have "gcd p a \<noteq> p" using assms(2) by (metis gcd_dvd2)
  ultimately show ?thesis by (simp add: coprime_iff_gcd_eq_1)
qed

lemma euclid: "is_prime p \<Longrightarrow> p dvd a * b \<Longrightarrow> p dvd a \<or> p dvd b"
  using prime_coprime coprime_dvd_mult_right_iff by blast

lemma prime_dvd_power: "is_prime p \<Longrightarrow> p dvd a ^ n \<Longrightarrow> p dvd a"
  by (induction n) (use euclid is_prime_gt in force)+

lemma prime_divisor:
  assumes "1 < n"
  shows "\<exists>r. is_prime r \<and> r dvd n"
  using assms
proof (induction "nat n" arbitrary: n rule: less_induct)
  case less
  show ?case
  proof (cases "is_prime n")
    case False
    then obtain d where d: "0 < d" "d dvd n" "d \<noteq> 1" "d \<noteq> n" using less.prems by (auto simp: is_prime_def)
    then have "1 < d" "d < n" using zdvd_imp_le [OF d(2)] less.prems by linarith+
    then obtain r where "is_prime r" "r dvd d" using less.hyps [of d] by auto
    then show ?thesis using d(2) dvd_trans by blast
  qed auto
qed

section \<open>Fermat's theorem\<close>

lemma prime_dvd_binomial:
  assumes "is_prime (int p)" and "0 < k" "k < p"
  shows "int p dvd int (p choose k)"
proof -
  have "k * (p choose k) = p * (p - 1 choose (k - 1))" using times_binomial_minus1_eq [of k p] assms(2) by simp
  then have "int p dvd int k * int (p choose k)" by (metis dvd_triv_left of_nat_mult)
  moreover have "\<not> int p dvd int k" using assms(2,3) by (auto dest: zdvd_imp_le)
  ultimately show ?thesis using euclid [OF assms(1)] by blast
qed

lemma fermat_nat:
  assumes "is_prime (int p)"
  shows "int p dvd int a ^ p - int a"
proof (induction a)
  case 0
  then show ?case using is_prime_gt [OF assms] by (simp add: power_0_left)
next
  case (Suc a)
  have p: "1 < p" using is_prime_gt [OF assms] by simp
  have s: "{..p} = insert 0 (insert p {0<..<p})" using p by auto
  have "(int a + 1) ^ p = (\<Sum>k\<le>p. int (p choose k) * int a ^ k)" by (simp add: binomial_ring)
  also have "\<dots> = 1 + (int a ^ p + (\<Sum>k\<in>{0<..<p}. int (p choose k) * int a ^ k))"
    unfolding s using p by simp
  finally have "int (Suc a) ^ p - int (Suc a) = (int a ^ p - int a) + (\<Sum>k\<in>{0<..<p}. int (p choose k) * int a ^ k)"
    by (simp add: algebra_simps)
  moreover have "int p dvd (\<Sum>k\<in>{0<..<p}. int (p choose k) * int a ^ k)"
    by (rule dvd_sum) (use prime_dvd_binomial [OF assms] in auto)
  ultimately show ?case using Suc.IH dvd_add by metis
qed

lemma fermat:
  assumes "is_prime p" and "\<not> p dvd a"
  shows "a ^ nat (p - 1) mod p = 1"
proof -
  have p: "1 < p" "nat p = Suc (nat (p - 1))" using is_prime_gt [OF assms(1)] by auto
  define b where "b = nat (a mod p)"
  have b: "int b = a mod p" using p(1) by (simp add: b_def)
  have "p dvd int b ^ nat p - int b" using fermat_nat [of "nat p" b] assms(1) p(1) by simp
  then have "p dvd int b * (int b ^ nat (p - 1) - 1)" by (simp add: p(2) right_diff_distrib)
  moreover have "\<not> p dvd int b" using assms(2) unfolding b by (simp add: dvd_eq_mod_eq_0)
  ultimately have "p dvd int b ^ nat (p - 1) - 1" using euclid [OF assms(1)] by blast
  then have "int b ^ nat (p - 1) mod p = 1 mod p" by (simp add: mod_eq_dvd_iff)
  then show ?thesis using p(1) by (simp add: b power_mod)
qed

text \<open>Euler's criterion, as far as the inversion needs it.\<close>

lemma euler:
  assumes "is_prime p" and "p - 1 = 2 * int h" and "\<not> p dvd a"
  shows "a ^ h mod p = 1 \<or> a ^ h mod p = p - 1"
proof -
  have p: "1 < p" using is_prime_gt [OF assms(1)] .
  have "nat (p - 1) = h + h" using assms(2) by linarith
  then have "a ^ h * a ^ h mod p = 1 mod p" using fermat [OF assms(1,3)] p by (simp add: power_add)
  then have "p dvd (a ^ h - 1) * (a ^ h + 1)" by (simp add: mod_eq_dvd_iff algebra_simps)
  then have "p dvd a ^ h - 1 \<or> p dvd a ^ h - (- 1)" using euclid [OF assms(1)] by simp
  then have "a ^ h mod p = 1 mod p \<or> a ^ h mod p = (- 1) mod p" by (simp only: mod_eq_dvd_iff)
  then show ?thesis using p by (auto simp: zmod_minus1)
qed

section \<open>Pocklington's criterion\<close>

lemma order_dvd:
  assumes "is_prime r" and "is_prime q" and "b ^ nat q mod r = 1" and "b mod r \<noteq> 1"
  shows "q dvd r - 1"
proof (rule ccontr)
  assume "\<not> q dvd r - 1"
  then have c: "coprime q (r - 1)" by (rule prime_coprime [OF assms(2)])
  have r: "1 < r" and q: "1 < q" using assms(1,2) by (simp_all add: is_prime_gt)
  have "coprime (nat q) (nat (r - 1))" using c r q by (simp add: coprime_int_iff [symmetric])
  then have "gcd (nat q) (nat (r - 1)) = 1" "nat q \<noteq> 0" using q by simp_all
  then obtain x y where xy: "nat q * x = nat (r - 1) * y + 1" by (metis bezout_nat)
  have "\<not> r dvd b"
  proof
    assume "r dvd b"
    moreover have "b dvd b ^ nat q" using q by (intro dvd_power) simp
    ultimately have "r dvd b ^ nat q" by (rule dvd_trans)
    then show False using assms(3) by simp
  qed
  then have f: "b ^ nat (r - 1) mod r = 1" by (rule fermat [OF assms(1)])
  have one: "(c ^ k) mod r = 1" if "c mod r = 1" for c :: int and k
    using that r power_mod [of c r k] by simp
  have "b ^ (nat q * x) mod r = 1" using one [OF assms(3)] by (simp add: power_mult)
  moreover have "b ^ (nat (r - 1) * y + 1) mod r = b mod r"
  proof -
    have "(b ^ nat (r - 1)) ^ y * b mod r = 1 * b mod r"
      using mod_mult_left_eq [of "(b ^ nat (r - 1)) ^ y" r b] one [OF f, of y] by (simp only: mult_1)
    then show ?thesis by (simp only: power_add power_mult power_one_right mult_1)
  qed
  ultimately show False using assms(4) xy by simp
qed

lemma pocklington:
  assumes q: "is_prime q" and n: "n = q * m + 1" "1 < n"
    and b: "b ^ nat q mod n = 1" and u: "(b - 1) * u mod n = 1"
    and m: "m < q * q" "m div q + 1 < m mod q"
  shows "is_prime n"
proof (rule ccontr)
  assume "\<not> is_prime n"
  obtain r where r: "is_prime r" "r dvd n" using prime_divisor [OF n(2)] by blast
  then obtain s where s: "n = r * s" by auto
  have q1: "1 < q" and r1: "1 < r" using q r(1) by (simp_all add: is_prime_gt)
  have "s \<noteq> 1" using s r(1) \<open>\<not> is_prime n\<close> by auto
  moreover have "0 < s" using s n(2) r1 by (metis less_trans zero_less_mult_pos zero_less_one)
  ultimately have s1: "1 < s" by simp
  have "b ^ nat q mod r = 1" using b r r1 by (metis mod_mod_cancel mod_pos_pos_trivial zero_le_one)
  moreover have "b mod r \<noteq> 1"
  proof
    assume "b mod r = 1"
    then have "r dvd b - 1" using r1 by (metis mod_eq_dvd_iff mod_mod_trivial mod_pos_pos_trivial zero_le_one)
    then have "(b - 1) * u mod r = 0" by (simp add: dvd_eq_mod_eq_0 [symmetric])
    moreover have "(b - 1) * u mod r = 1" using u r r1 by (metis mod_mod_cancel mod_pos_pos_trivial zero_le_one)
    ultimately show False by simp
  qed
  ultimately have "q dvd r - 1" by (rule order_dvd [OF r(1) q])
  then obtain a where a: "r = q * a + 1" by (metis add.commute diff_add_cancel dvdE)
  have "s - 1 = q * (m - a * s)" using s n(1) a by (simp add: algebra_simps)
  then obtain c where c: "s = q * c + 1" by (metis add.commute diff_add_cancel)
  have ac: "1 \<le> a" "1 \<le> c" using a c r1 s1 q1 by (smt (verit) mult_nonneg_nonpos)+
  have "q * m = q * (a * c * q + (a + c))" using s n(1) a c by (simp add: algebra_simps)
  then have meq: "m = a * c * q + (a + c)" using q1 by simp
  have le: "a + c \<le> a * c + 1" using ac mult_nonneg_nonneg [of "a - 1" "c - 1"] by (simp add: algebra_simps)
  show False
  proof (cases "a + c < q")
    case True
    then have "m mod q = a + c" "m div q = a * c" using ac q1 by (simp_all add: meq)
    then show False using m(2) le by linarith
  next
    case False
    then have "(q - 1) * q \<le> a * c * q" using le q1 by (intro mult_right_mono) linarith+
    then show False using False m(1) meq by (simp add: algebra_simps)
  qed
qed

text \<open>Small primes by trial division.\<close>

lemma trial_division:
  assumes "1 < n" and "0 \<le> k" and "\<forall>d \<in> {2..k}. n mod d \<noteq> 0" and "n < (k + 1) * (k + 1)"
  shows "is_prime n"
proof (rule ccontr)
  assume "\<not> is_prime n"
  then obtain d where d: "0 < d" "d dvd n" "d \<noteq> 1" "d \<noteq> n" using assms(1) by (auto simp: is_prime_def)
  then obtain e where e: "n = d * e" by auto
  have "0 < d * e" using e assms(1) by simp
  then have "0 < e" "e \<noteq> 1" using e d(1,4) zero_less_mult_pos by auto
  then have g: "2 \<le> d" "2 \<le> e" using d(1,3) by linarith+
  then have "k < d" "k < e" using assms(3) e by force+
  then have "(k + 1) * (k + 1) \<le> d * e" using assms(2) by (intro mult_mono) linarith+
  then show False using assms(4) e by linarith
qed

section \<open>Powers modulo a number, by rewriting\<close>

text \<open>A step of a computed power: a square or a product with the base, reduced by a given quotient.\<close>

datatype pow_step = Sq int | Mu int

primrec chain :: "int \<Rightarrow> int \<Rightarrow> pow_step list \<Rightarrow> int \<Rightarrow> int" where
  "chain n b [] x = x"
| "chain n b (s # ss) x = chain n b ss (case s of Sq q \<Rightarrow> x * x - q * n | Mu q \<Rightarrow> x * b - q * n)"

primrec chain_exp :: "pow_step list \<Rightarrow> nat \<Rightarrow> nat" where
  "chain_exp [] e = e"
| "chain_exp (s # ss) e = chain_exp ss (case s of Sq q \<Rightarrow> e + e | Mu q \<Rightarrow> e + 1)"

lemma mod_minus_mult: "(x - q * n) mod n = x mod (n :: int)"
  using mod_mult_self1 [of x "- q" n] by simp

lemma chain_pow:
  "x mod n = b ^ e mod n \<Longrightarrow> chain n b ss x mod n = b ^ chain_exp ss e mod n"
proof (induction ss arbitrary: x e)
  case (Cons s ss)
  have sq: "x * x mod n = b ^ (e + e) mod n" using mod_mult_cong [OF Cons.prems Cons.prems] by (simp only: power_add)
  have mu: "x * b mod n = b ^ (e + 1) mod n"
    using mod_mult_cong [OF Cons.prems refl, of b] by (simp only: power_add power_one_right)
  show ?case
  proof (cases s)
    case (Sq q)
    then show ?thesis using Cons.IH [of "x * x - q * n" "e + e"] sq by (simp only: mod_minus_mult chain.simps chain_exp.simps pow_step.case)
  next
    case (Mu q)
    then show ?thesis using Cons.IH [of "x * b - q * n" "e + 1"] mu by (simp only: mod_minus_mult chain.simps chain_exp.simps pow_step.case)
  qed
qed simp

lemma chain_one: "chain n b ss b = 1 \<Longrightarrow> 1 < n \<Longrightarrow> b ^ chain_exp ss 1 mod n = 1"
  using chain_pow [of b n b 1 ss] by simp

lemma chain_append: "chain n b (ss @ ts) x = chain n b ts (chain n b ss x)"
  by (induction ss arbitrary: x) simp_all

lemma chain_rules:
  "chain n b (Sq q # ss) (numeral x) = chain n b ss (numeral (Num.sqr x) - q * n)"
  "chain n b (Mu q # ss) (numeral x) = chain n b ss (numeral x * b - q * n)"
  "chain n b (Sq q # ss) 1 = chain n b ss (1 - q * n)"
  "chain n b [] y = y"
  by (simp_all add: sqr_conv_mult)

lemmas chain_simps = chain_rules sqr.simps arith_simps

lemma exp_rules:
  "chain_exp (Sq q # ss) (numeral k) = chain_exp ss (numeral (num.Bit0 k))"
  "chain_exp (Mu q # ss) (numeral k) = chain_exp ss (numeral (k + num.One))"
  "chain_exp (Sq q # ss) 1 = chain_exp ss 2"
  "chain_exp [] e = e"
  by (simp_all add: numeral_Bit0)

lemmas exp_simps = exp_rules append.simps add_num_simps

section \<open>The modulus of the field\<close>

text \<open>Powers of two modulo \<open>2^255 - 19\<close>: what exceeds 255 bits is folded back, 19 times.\<close>

abbreviation p25519 :: int where
  "p25519 \<equiv> 57896044618658097711785492504343953926634992332820282019728792003956564819949"

lemma p25519_eq: "p25519 = 2 ^ 255 - 19"
  by simp

definition fold255 :: "int \<Rightarrow> int" where
  "fold255 x = x mod 2 ^ 255 + 19 * (x div 2 ^ 255)"

lemma fold255_mod: "fold255 x mod p25519 = x mod p25519"
proof -
  have "x = x div 2 ^ 255 * 2 ^ 255 + x mod 2 ^ 255" by simp
  then have "x - fold255 x = x div 2 ^ 255 * p25519" unfolding fold255_def p25519_eq by (simp add: algebra_simps)
  then show ?thesis by (metis dvd_triv_right mod_eq_dvd_iff)
qed

definition next_pow :: "bool \<Rightarrow> int \<Rightarrow> int" where
  "next_pow d x = fold255 (fold255 (if d then 2 * (x * x) else x * x))"

lemma next_pow_mod:
  assumes "x mod p25519 = 2 ^ e mod p25519"
  shows "next_pow True x mod p25519 = 2 ^ (2 * e + 1) mod p25519" "next_pow False x mod p25519 = 2 ^ (2 * e) mod p25519"
proof -
  have sq: "x * x mod p25519 = 2 ^ (2 * e) mod p25519"
    using mod_mult_cong [OF assms assms] by (simp only: mult_2 power_add)
  then show "next_pow False x mod p25519 = 2 ^ (2 * e) mod p25519" by (simp only: next_pow_def fold255_mod if_False)
  show "next_pow True x mod p25519 = 2 ^ (2 * e + 1) mod p25519"
    using mod_mult_cong [OF refl sq, of 2] by (simp only: next_pow_def fold255_mod if_True power_add power_one_right mult.commute)
qed

text \<open>Squaring and doubling \<open>n\<close> times.\<close>

primrec pow_run :: "nat \<Rightarrow> int \<Rightarrow> int" where
  "pow_run 0 x = x"
| "pow_run (Suc n) x = pow_run n (next_pow True x)"

lemma pow_run_mod:
  "x mod p25519 = 2 ^ (2 ^ k - 1) mod p25519 \<Longrightarrow> pow_run n x mod p25519 = 2 ^ (2 ^ (k + n) - 1) mod p25519"
proof (induction n arbitrary: x k)
  case (Suc n)
  have "0 < (2 :: nat) ^ k" by simp
  then have "2 * (2 ^ k - 1) + 1 = 2 ^ Suc k - (1 :: nat)" unfolding power_Suc by linarith
  then have "next_pow True x mod p25519 = 2 ^ (2 ^ Suc k - 1) mod p25519" using next_pow_mod(1) [OF Suc.prems] by (simp only:)
  from Suc.IH [OF this] show ?case by (simp only: pow_run.simps add_Suc_right add_Suc)
qed (simp only: pow_run.simps add_0_right)

text \<open>One step for each bit of the exponent.\<close>

primrec pow_bits :: "bool list \<Rightarrow> int \<Rightarrow> int" where
  "pow_bits [] x = x"
| "pow_bits (d # ds) x = pow_bits ds (next_pow d x)"

primrec bits_exp :: "bool list \<Rightarrow> nat \<Rightarrow> nat" where
  "bits_exp [] e = e"
| "bits_exp (d # ds) e = bits_exp ds (if d then 2 * e + 1 else 2 * e)"

lemma pow_bits_mod: "x mod p25519 = 2 ^ e mod p25519 \<Longrightarrow> pow_bits ds x mod p25519 = 2 ^ bits_exp ds e mod p25519"
proof (induction ds arbitrary: x e)
  case (Cons d ds)
  show ?case
    by (cases d; simp only: pow_bits.simps bits_exp.simps if_True if_False)
      (rule Cons.IH [OF next_pow_mod(1) [OF Cons.prems]], rule Cons.IH [OF next_pow_mod(2) [OF Cons.prems]])
qed (simp only: pow_bits.simps bits_exp.simps)

subsection \<open>Folding of numerals\<close>

fun low_bits :: "nat \<Rightarrow> num \<Rightarrow> num option" where
  "low_bits 0 x = None"
| "low_bits (Suc n) num.One = Some num.One"
| "low_bits (Suc n) (num.Bit0 x) = map_option num.Bit0 (low_bits n x)"
| "low_bits (Suc n) (num.Bit1 x) = (case low_bits n x of None \<Rightarrow> Some num.One | Some y \<Rightarrow> Some (num.Bit1 y))"

fun high_bits :: "nat \<Rightarrow> num \<Rightarrow> num option" where
  "high_bits 0 x = Some x"
| "high_bits (Suc n) num.One = None"
| "high_bits (Suc n) (num.Bit0 x) = high_bits n x"
| "high_bits (Suc n) (num.Bit1 x) = high_bits n x"

definition num_val :: "num option \<Rightarrow> int" where
  "num_val v = (case v of None \<Rightarrow> 0 | Some x \<Rightarrow> numeral x)"

lemma split_bits:
  "num_val (low_bits n x) = numeral x mod 2 ^ n \<and> num_val (high_bits n x) = numeral x div 2 ^ n"
proof (induction n x rule: low_bits.induct)
  case (3 n x)
  have b: "(numeral (num.Bit0 x) :: int) = 2 * numeral x" by simp
  have v: "num_val (map_option num.Bit0 v) = 2 * num_val v" for v by (cases v) (simp_all add: num_val_def)
  show ?case using 3 unfolding b low_bits.simps high_bits.simps power_Suc v
    by (simp only: mult_mod_right [symmetric] div_mult_mult1 zero_neq_numeral [symmetric] not_False_eq_True)
next
  case (4 n x)
  have b: "(numeral (num.Bit1 x) :: int) = 1 + 2 * numeral x" by simp
  have v: "num_val (case v of None \<Rightarrow> Some num.One | Some y \<Rightarrow> Some (num.Bit1 y)) = 1 + 2 * num_val v" for v
    by (cases v) (simp_all add: num_val_def)
  have "(0 :: int) \<le> 2 ^ n" by simp
  then show ?case using 4 unfolding b low_bits.simps high_bits.simps power_Suc v
    by (simp only: pos_zmod_mult_2 pos_zdiv_mult_2)
next
  case (2 n)
  have "(1 :: int) < 2 ^ Suc n" by (rule one_less_power) simp_all
  then show ?case by (simp add: num_val_def)
qed (simp add: num_val_def)

definition fold_num :: "num \<Rightarrow> num" where
  "fold_num x = (case high_bits 255 x of None \<Rightarrow> x
     | Some h \<Rightarrow> (case low_bits 255 x of None \<Rightarrow> num.Bit1 (num.Bit1 (num.Bit0 (num.Bit0 num.One))) * h
         | Some l \<Rightarrow> l + num.Bit1 (num.Bit1 (num.Bit0 (num.Bit0 num.One))) * h))"

lemma fold_numeral: "fold255 (numeral x) = numeral (fold_num x)"
proof -
  have s: "fold255 (numeral x) = num_val (low_bits 255 x) + 19 * num_val (high_bits 255 x)"
    using split_bits [of 255 x] by (simp only: fold255_def)
  have "num_val (low_bits 255 x) = numeral x" if "high_bits 255 x = None"
  proof -
    have "(numeral x :: int) div 2 ^ 255 = 0" using split_bits [of 255 x] that by (simp only: num_val_def option.case)
    then have "(numeral x :: int) mod 2 ^ 255 = numeral x" using minus_mod_eq_mult_div [of "numeral x :: int" "2 ^ 255"] by simp
    then show ?thesis using split_bits [of 255 x] by (simp only:)
  qed
  then show ?thesis unfolding s fold_num_def
    by (cases "high_bits 255 x"; cases "low_bits 255 x") (simp_all add: num_val_def)
qed

lemma next_pow_num:
  "next_pow True (numeral x) = numeral (fold_num (fold_num (num.Bit0 (Num.sqr x))))"
  "next_pow False (numeral x) = numeral (fold_num (fold_num (Num.sqr x)))"
proof -
  have "(2 :: int) * (numeral x * numeral x) = numeral (num.Bit0 (Num.sqr x))" "(numeral x :: int) * numeral x = numeral (Num.sqr x)"
    by (simp_all add: sqr_conv_mult)
  then show "next_pow True (numeral x) = numeral (fold_num (fold_num (num.Bit0 (Num.sqr x))))"
    "next_pow False (numeral x) = numeral (fold_num (fold_num (Num.sqr x)))"
    by (simp_all only: next_pow_def if_True if_False fold_numeral)
qed

lemmas fold_num_255 = fold_num_def [unfolded eval_nat_numeral pred_numeral_simps BitM.simps]

lemmas run_simps = eval_nat_numeral pred_numeral_simps BitM.simps pow_run.simps pow_bits.simps next_pow_num fold_num_255
  sqr.simps add_num_simps mult_num_simps high_bits.simps low_bits.simps option.case option.map

end
