(* ===== verification/FieldValue.thy ===== *)
theory FieldValue
  imports Fe25519 Primality
begin

text \<open>
  What the field arithmetic of \<open>library/crypto/monocypher.c\<close> computes: the value of ten limbs, the bounds
  under which no 32 or 64 bit integer of the code overflows, and that every operation computes the operation of its
  name modulo \<open>2^255 - 19\<close> within these bounds.
\<close>

unbundle bit_operations_syntax

section \<open>Values and bounds\<close>

definition limb_val :: "int \<Rightarrow> int \<Rightarrow> int \<Rightarrow> int \<Rightarrow> int \<Rightarrow> int \<Rightarrow> int \<Rightarrow> int \<Rightarrow> int \<Rightarrow> int \<Rightarrow> int" where
  "limb_val t0 t1 t2 t3 t4 t5 t6 t7 t8 t9 =
     t0 + t1 * 2 ^ 26 + t2 * 2 ^ 51 + t3 * 2 ^ 77 + t4 * 2 ^ 102 +
     t5 * 2 ^ 128 + t6 * 2 ^ 153 + t7 * 2 ^ 179 + t8 * 2 ^ 204 + t9 * 2 ^ 230"

definition fe_val :: "fe \<Rightarrow> int" where
  "fe_val f = limb_val (f ! 0) (f ! 1) (f ! 2) (f ! 3) (f ! 4) (f ! 5) (f ! 6) (f ! 7) (f ! 8) (f ! 9)"

text \<open>Bounds of the even and of the odd limbs. Results of a carry are \<open>carried\<close>, their sums and differences are \<open>loose\<close>.\<close>

definition limbs_in :: "int \<Rightarrow> int \<Rightarrow> fe \<Rightarrow> bool" where
  "limbs_in a b f \<longleftrightarrow> length f = 10 \<and>
     \<bar>f ! 0\<bar> \<le> a \<and> \<bar>f ! 1\<bar> \<le> b \<and> \<bar>f ! 2\<bar> \<le> a \<and> \<bar>f ! 3\<bar> \<le> b \<and> \<bar>f ! 4\<bar> \<le> a \<and> \<bar>f ! 5\<bar> \<le> b \<and>
     \<bar>f ! 6\<bar> \<le> a \<and> \<bar>f ! 7\<bar> \<le> b \<and> \<bar>f ! 8\<bar> \<le> a \<and> \<bar>f ! 9\<bar> \<le> b"

abbreviation carried :: "fe \<Rightarrow> bool" where
  "carried \<equiv> limbs_in 33554432 16908288"

abbreviation loose :: "fe \<Rightarrow> bool" where
  "loose \<equiv> limbs_in 67108864 33816576"

lemma ten_limbs:
  assumes "length f = 10"
  obtains f0 f1 f2 f3 f4 f5 f6 f7 f8 f9 where "f = [f0, f1, f2, f3, f4, f5, f6, f7, f8, f9 :: int]"
  using assms by (auto simp: numeral_eq_Suc length_Suc_conv)

lemma limbs_in_ten:
  "limbs_in a b [f0, f1, f2, f3, f4, f5, f6, f7, f8, f9] \<longleftrightarrow>
     \<bar>f0\<bar> \<le> a \<and> \<bar>f1\<bar> \<le> b \<and> \<bar>f2\<bar> \<le> a \<and> \<bar>f3\<bar> \<le> b \<and> \<bar>f4\<bar> \<le> a \<and>
     \<bar>f5\<bar> \<le> b \<and> \<bar>f6\<bar> \<le> a \<and> \<bar>f7\<bar> \<le> b \<and> \<bar>f8\<bar> \<le> a \<and> \<bar>f9\<bar> \<le> b"
  by (simp add: limbs_in_def)

lemma fe_val_ten: "fe_val [f0, f1, f2, f3, f4, f5, f6, f7, f8, f9] = limb_val f0 f1 f2 f3 f4 f5 f6 f7 f8 f9"
  by (simp add: fe_val_def)

lemma limbs_in_len: "limbs_in a b f \<Longrightarrow> length f = 10"
  by (simp add: limbs_in_def)

lemma limbs_in_mono: "limbs_in a b f \<Longrightarrow> a \<le> a' \<Longrightarrow> b \<le> b' \<Longrightarrow> limbs_in a' b' f"
  unfolding limbs_in_def by (elim conjE, intro conjI) (assumption | erule (1) order_trans)+

lemma carried_loose: "carried f \<Longrightarrow> loose f"
  by (erule limbs_in_mono) simp_all

section \<open>Carries\<close>

lemma carry26_bounds: "- 33554432 \<le> t - carry26 t * 67108864" "t - carry26 t * 67108864 < 33554432"
proof -
  have "carry26 t = (t + 33554432) div 67108864" by (simp add: carry26_def drop_bit_eq_div)
  then show "- 33554432 \<le> t - carry26 t * 67108864" "t - carry26 t * 67108864 < 33554432"
    using div_mult_mod_eq [of "t + 33554432" 67108864] pos_mod_bound [of 67108864 "t + 33554432"] pos_mod_sign [of 67108864 "t + 33554432"]
    by linarith+
qed

lemma carry25_bounds: "- 16777216 \<le> t - carry25 t * 33554432" "t - carry25 t * 33554432 < 16777216"
proof -
  have "carry25 t = (t + 16777216) div 33554432" by (simp add: carry25_def drop_bit_eq_div)
  then show "- 16777216 \<le> t - carry25 t * 33554432" "t - carry25 t * 33554432 < 16777216"
    using div_mult_mod_eq [of "t + 16777216" 33554432] pos_mod_bound [of 33554432 "t + 16777216"] pos_mod_sign [of 33554432 "t + 16777216"]
    by linarith+
qed

text \<open>The twelve carries of \<open>FE_CARRY\<close> on limbs of at most 62 bits.\<close>

lemma FE_CARRY_chain:
  fixes t0 t1 t2 t3 t4 t5 t6 t7 t8 t9 :: int
  obtains c0 c1 c2 c3 c4 c5 c6 c7 c8 c9 c4' c0' where
    "FE_CARRY t0 t1 t2 t3 t4 t5 t6 t7 t8 t9 =
       [t0 - c0 * 67108864 + c9 * 19 - c0' * 67108864, t1 + c0 - c1 * 33554432 + c0', t2 + c1 - c2 * 67108864,
        t3 + c2 - c3 * 33554432, t4 - c4 * 67108864 + c3 - c4' * 67108864, t5 + c4 - c5 * 33554432 + c4',
        t6 + c5 - c6 * 67108864, t7 + c6 - c7 * 33554432, t8 + c7 - c8 * 67108864, t9 + c8 - c9 * 33554432]"
    "c0 = carry26 t0" "c4 = carry26 t4" "c1 = carry25 (t1 + c0)" "c5 = carry25 (t5 + c4)"
    "c2 = carry26 (t2 + c1)" "c6 = carry26 (t6 + c5)" "c3 = carry25 (t3 + c2)" "c7 = carry25 (t7 + c6)"
    "c4' = carry26 (t4 - c4 * 67108864 + c3)" "c8 = carry26 (t8 + c7)" "c9 = carry25 (t9 + c8)"
    "c0' = carry26 (t0 - c0 * 67108864 + c9 * 19)"
  by (rule that [OF _ refl refl refl refl refl refl refl refl refl refl refl refl]) (simp add: FE_CARRY_def Let_def)

lemma FE_CARRY_val:
  "\<exists>k. fe_val (FE_CARRY t0 t1 t2 t3 t4 t5 t6 t7 t8 t9) = limb_val t0 t1 t2 t3 t4 t5 t6 t7 t8 t9 - k * p25519"
proof -
  obtain c0 c1 c2 c3 c4 c5 c6 c7 c8 c9 c4' c0' where
    "FE_CARRY t0 t1 t2 t3 t4 t5 t6 t7 t8 t9 =
       [t0 - c0 * 67108864 + c9 * 19 - c0' * 67108864, t1 + c0 - c1 * 33554432 + c0', t2 + c1 - c2 * 67108864,
        t3 + c2 - c3 * 33554432, t4 - c4 * 67108864 + c3 - c4' * 67108864, t5 + c4 - c5 * 33554432 + c4',
        t6 + c5 - c6 * 67108864, t7 + c6 - c7 * 33554432, t8 + c7 - c8 * 67108864, t9 + c8 - c9 * 33554432]"
    by (rule FE_CARRY_chain)
  then have "fe_val (FE_CARRY t0 t1 t2 t3 t4 t5 t6 t7 t8 t9) = limb_val t0 t1 t2 t3 t4 t5 t6 t7 t8 t9 - c9 * p25519"
    by (simp add: fe_val_ten limb_val_def algebra_simps)
  then show ?thesis by blast
qed

lemma FE_CARRY_carried:
  assumes "\<forall>t \<in> {t0, t1, t2, t3, t4, t5, t6, t7, t8, t9}. \<bar>t\<bar> \<le> 2 ^ 61"
  shows "carried (FE_CARRY t0 t1 t2 t3 t4 t5 t6 t7 t8 t9)"
proof -
  obtain c0 c1 c2 c3 c4 c5 c6 c7 c8 c9 c4' c0' where
    e: "FE_CARRY t0 t1 t2 t3 t4 t5 t6 t7 t8 t9 =
       [t0 - c0 * 67108864 + c9 * 19 - c0' * 67108864, t1 + c0 - c1 * 33554432 + c0', t2 + c1 - c2 * 67108864,
        t3 + c2 - c3 * 33554432, t4 - c4 * 67108864 + c3 - c4' * 67108864, t5 + c4 - c5 * 33554432 + c4',
        t6 + c5 - c6 * 67108864, t7 + c6 - c7 * 33554432, t8 + c7 - c8 * 67108864, t9 + c8 - c9 * 33554432]"
    and c: "c0 = carry26 t0" "c4 = carry26 t4" "c1 = carry25 (t1 + c0)" "c5 = carry25 (t5 + c4)"
    "c2 = carry26 (t2 + c1)" "c6 = carry26 (t6 + c5)" "c3 = carry25 (t3 + c2)" "c7 = carry25 (t7 + c6)"
    "c4' = carry26 (t4 - c4 * 67108864 + c3)" "c8 = carry26 (t8 + c7)" "c9 = carry25 (t9 + c8)"
    "c0' = carry26 (t0 - c0 * 67108864 + c9 * 19)"
    by (rule FE_CARRY_chain)
  note b0 = carry26_bounds [of t0, folded c] and b4 = carry26_bounds [of t4, folded c]
  note b1 = carry25_bounds [of "t1 + c0", folded c] and b5 = carry25_bounds [of "t5 + c4", folded c]
  note b2 = carry26_bounds [of "t2 + c1", folded c] and b6 = carry26_bounds [of "t6 + c5", folded c]
  note b3 = carry25_bounds [of "t3 + c2", folded c] and b7 = carry25_bounds [of "t7 + c6", folded c]
  note b4' = carry26_bounds [of "t4 - c4 * 67108864 + c3", folded c] and b8 = carry26_bounds [of "t8 + c7", folded c]
  note b9 = carry25_bounds [of "t9 + c8", folded c] and b0' = carry26_bounds [of "t0 - c0 * 67108864 + c9 * 19", folded c]
  have t: "\<bar>t0\<bar> \<le> 2 ^ 61" "\<bar>t1\<bar> \<le> 2 ^ 61" "\<bar>t2\<bar> \<le> 2 ^ 61" "\<bar>t3\<bar> \<le> 2 ^ 61" "\<bar>t4\<bar> \<le> 2 ^ 61"
    "\<bar>t5\<bar> \<le> 2 ^ 61" "\<bar>t6\<bar> \<le> 2 ^ 61" "\<bar>t7\<bar> \<le> 2 ^ 61" "\<bar>t8\<bar> \<le> 2 ^ 61" "\<bar>t9\<bar> \<le> 2 ^ 61"
    using assms by simp_all
  have "\<bar>c0\<bar> \<le> 2 ^ 37" using b0 t(1) by simp
  then have "\<bar>c1\<bar> \<le> 2 ^ 37" using b1 t(2) by simp
  then have "\<bar>c2\<bar> \<le> 2 ^ 37" using b2 t(3) by simp
  then have c3: "\<bar>c3\<bar> \<le> 2 ^ 37" using b3 t(4) by simp
  then have c4': "\<bar>c4'\<bar> \<le> 131072" using b4 b4' by simp
  have "\<bar>c4\<bar> \<le> 2 ^ 37" using b4 t(5) by simp
  then have "\<bar>c5\<bar> \<le> 2 ^ 37" using b5 t(6) by simp
  then have "\<bar>c6\<bar> \<le> 2 ^ 37" using b6 t(7) by simp
  then have "\<bar>c7\<bar> \<le> 2 ^ 37" using b7 t(8) by simp
  then have "\<bar>c8\<bar> \<le> 2 ^ 37" using b8 t(9) by simp
  then have "\<bar>c9\<bar> \<le> 2 ^ 37" using b9 t(10) by simp
  then have c0': "\<bar>c0'\<bar> \<le> 131072" using b0 b0' by simp
  show ?thesis unfolding e limbs_in_ten using b0' b1 b2 b3 b4' b5 b6 b7 b8 b9 c0' c4' by (intro conjI) linarith+
qed

section \<open>Multiplication\<close>

text \<open>A product of limbs, with what exceeds 255 bits folded back 19 times.\<close>

lemma mul_limbs:
  "limb_val
      (f0 * g0 + (f1 * 2) * (g9 * 19) + f2 * (g8 * 19) + (f3 * 2) * (g7 * 19) + f4 * (g6 * 19) + (f5 * 2) * (g5 *
       19) + f6 * (g4 * 19) + (f7 * 2) * (g3 * 19) + f8 * (g2 * 19) + (f9 * 2) * (g1 * 19))
      (f0 * g1 + f1 * g0 + f2 * (g9 * 19) + f3 * (g8 * 19) + f4 * (g7 * 19) + f5 * (g6 * 19) + f6 * (g5 * 19) + f7 *
       (g4 * 19) + f8 * (g3 * 19) + f9 * (g2 * 19))
      (f0 * g2 + (f1 * 2) * g1 + f2 * g0 + (f3 * 2) * (g9 * 19) + f4 * (g8 * 19) + (f5 * 2) * (g7 * 19) + f6 * (g6 *
       19) + (f7 * 2) * (g5 * 19) + f8 * (g4 * 19) + (f9 * 2) * (g3 * 19))
      (f0 * g3 + f1 * g2 + f2 * g1 + f3 * g0 + f4 * (g9 * 19) + f5 * (g8 * 19) + f6 * (g7 * 19) + f7 * (g6 * 19) +
       f8 * (g5 * 19) + f9 * (g4 * 19))
      (f0 * g4 + (f1 * 2) * g3 + f2 * g2 + (f3 * 2) * g1 + f4 * g0 + (f5 * 2) * (g9 * 19) + f6 * (g8 * 19) + (f7 *
       2) * (g7 * 19) + f8 * (g6 * 19) + (f9 * 2) * (g5 * 19))
      (f0 * g5 + f1 * g4 + f2 * g3 + f3 * g2 + f4 * g1 + f5 * g0 + f6 * (g9 * 19) + f7 * (g8 * 19) + f8 * (g7 * 19)
       + f9 * (g6 * 19))
      (f0 * g6 + (f1 * 2) * g5 + f2 * g4 + (f3 * 2) * g3 + f4 * g2 + (f5 * 2) * g1 + f6 * g0 + (f7 * 2) * (g9 * 19)
       + f8 * (g8 * 19) + (f9 * 2) * (g7 * 19))
      (f0 * g7 + f1 * g6 + f2 * g5 + f3 * g4 + f4 * g3 + f5 * g2 + f6 * g1 + f7 * g0 + f8 * (g9 * 19) + f9 * (g8 *
       19))
      (f0 * g8 + (f1 * 2) * g7 + f2 * g6 + (f3 * 2) * g5 + f4 * g4 + (f5 * 2) * g3 + f6 * g2 + (f7 * 2) * g1 + f8 *
       g0 + (f9 * 2) * (g9 * 19))
      (f0 * g9 + f1 * g8 + f2 * g7 + f3 * g6 + f4 * g5 + f5 * g4 + f6 * g3 + f7 * g2 + f8 * g1 + f9 * g0) =
   limb_val f0 f1 f2 f3 f4 f5 f6 f7 f8 f9 * limb_val g0 g1 g2 g3 g4 g5 g6 g7 g8 g9 - (
      (2 * f1 * g9 + f2 * g8 + 2 * f3 * g7 + f4 * g6 + 2 * f5 * g5 + f6 * g4 + 2 * f7 * g3 + f8 * g2 + 2 * f9 * g1) +
      (f2 * g9 + f3 * g8 + f4 * g7 + f5 * g6 + f6 * g5 + f7 * g4 + f8 * g3 + f9 * g2) * 2 ^ 26 +
      (2 * f3 * g9 + f4 * g8 + 2 * f5 * g7 + f6 * g6 + 2 * f7 * g5 + f8 * g4 + 2 * f9 * g3) * 2 ^ 51 +
      (f4 * g9 + f5 * g8 + f6 * g7 + f7 * g6 + f8 * g5 + f9 * g4) * 2 ^ 77 +
      (2 * f5 * g9 + f6 * g8 + 2 * f7 * g7 + f8 * g6 + 2 * f9 * g5) * 2 ^ 102 +
      (f6 * g9 + f7 * g8 + f8 * g7 + f9 * g6) * 2 ^ 128 +
      (2 * f7 * g9 + f8 * g8 + 2 * f9 * g7) * 2 ^ 153 +
      (f8 * g9 + f9 * g8) * 2 ^ 179 +
      (2 * f9 * g9) * 2 ^ 204) * p25519"
  unfolding limb_val_def by algebra

lemma sq_limbs:
  "limb_val
      (f0 * f0 + (f1 * 2) * (f9 * 38) + (f2 * 2) * (f8 * 19) + (f3 * 2) * (f7 * 38) + (f4 * 2) * (f6 * 19) + f5 *
       (f5 * 38))
      ((f0 * 2) * f1 + f2 * (f9 * 38) + (f3 * 2) * (f8 * 19) + f4 * (f7 * 38) + (f5 * 2) * (f6 * 19))
      ((f0 * 2) * f2 + (f1 * 2) * f1 + (f3 * 2) * (f9 * 38) + (f4 * 2) * (f8 * 19) + (f5 * 2) * (f7 * 38) + f6 * (f6
       * 19))
      ((f0 * 2) * f3 + (f1 * 2) * f2 + f4 * (f9 * 38) + (f5 * 2) * (f8 * 19) + f6 * (f7 * 38))
      ((f0 * 2) * f4 + (f1 * 2) * (f3 * 2) + f2 * f2 + (f5 * 2) * (f9 * 38) + (f6 * 2) * (f8 * 19) + f7 * (f7 * 38))
      ((f0 * 2) * f5 + (f1 * 2) * f4 + (f2 * 2) * f3 + f6 * (f9 * 38) + (f7 * 2) * (f8 * 19))
      ((f0 * 2) * f6 + (f1 * 2) * (f5 * 2) + (f2 * 2) * f4 + (f3 * 2) * f3 + (f7 * 2) * (f9 * 38) + f8 * (f8 * 19))
      ((f0 * 2) * f7 + (f1 * 2) * f6 + (f2 * 2) * f5 + (f3 * 2) * f4 + f8 * (f9 * 38))
      ((f0 * 2) * f8 + (f1 * 2) * (f7 * 2) + (f2 * 2) * f6 + (f3 * 2) * (f5 * 2) + f4 * f4 + f9 * (f9 * 38))
      ((f0 * 2) * f9 + (f1 * 2) * f8 + (f2 * 2) * f7 + (f3 * 2) * f6 + f4 * (f5 * 2)) =
   limb_val f0 f1 f2 f3 f4 f5 f6 f7 f8 f9 * limb_val f0 f1 f2 f3 f4 f5 f6 f7 f8 f9 - (
      (2 * f1 * f9 + f2 * f8 + 2 * f3 * f7 + f4 * f6 + 2 * f5 * f5 + f6 * f4 + 2 * f7 * f3 + f8 * f2 + 2 * f9 * f1) +
      (f2 * f9 + f3 * f8 + f4 * f7 + f5 * f6 + f6 * f5 + f7 * f4 + f8 * f3 + f9 * f2) * 2 ^ 26 +
      (2 * f3 * f9 + f4 * f8 + 2 * f5 * f7 + f6 * f6 + 2 * f7 * f5 + f8 * f4 + 2 * f9 * f3) * 2 ^ 51 +
      (f4 * f9 + f5 * f8 + f6 * f7 + f7 * f6 + f8 * f5 + f9 * f4) * 2 ^ 77 +
      (2 * f5 * f9 + f6 * f8 + 2 * f7 * f7 + f8 * f6 + 2 * f9 * f5) * 2 ^ 102 +
      (f6 * f9 + f7 * f8 + f8 * f7 + f9 * f6) * 2 ^ 128 +
      (2 * f7 * f9 + f8 * f8 + 2 * f9 * f7) * 2 ^ 153 +
      (f8 * f9 + f9 * f8) * 2 ^ 179 +
      (2 * f9 * f9) * 2 ^ 204) * p25519"
  unfolding limb_val_def by algebra

lemma fe_mul_ten:
  "fe_mul [f0, f1, f2, f3, f4, f5, f6, f7, f8, f9] [g0, g1, g2, g3, g4, g5, g6, g7, g8, g9] = FE_CARRY
      (f0 * g0 + (f1 * 2) * (g9 * 19) + f2 * (g8 * 19) + (f3 * 2) * (g7 * 19) + f4 * (g6 * 19) + (f5 * 2) * (g5 *
       19) + f6 * (g4 * 19) + (f7 * 2) * (g3 * 19) + f8 * (g2 * 19) + (f9 * 2) * (g1 * 19))
      (f0 * g1 + f1 * g0 + f2 * (g9 * 19) + f3 * (g8 * 19) + f4 * (g7 * 19) + f5 * (g6 * 19) + f6 * (g5 * 19) + f7 *
       (g4 * 19) + f8 * (g3 * 19) + f9 * (g2 * 19))
      (f0 * g2 + (f1 * 2) * g1 + f2 * g0 + (f3 * 2) * (g9 * 19) + f4 * (g8 * 19) + (f5 * 2) * (g7 * 19) + f6 * (g6 *
       19) + (f7 * 2) * (g5 * 19) + f8 * (g4 * 19) + (f9 * 2) * (g3 * 19))
      (f0 * g3 + f1 * g2 + f2 * g1 + f3 * g0 + f4 * (g9 * 19) + f5 * (g8 * 19) + f6 * (g7 * 19) + f7 * (g6 * 19) +
       f8 * (g5 * 19) + f9 * (g4 * 19))
      (f0 * g4 + (f1 * 2) * g3 + f2 * g2 + (f3 * 2) * g1 + f4 * g0 + (f5 * 2) * (g9 * 19) + f6 * (g8 * 19) + (f7 *
       2) * (g7 * 19) + f8 * (g6 * 19) + (f9 * 2) * (g5 * 19))
      (f0 * g5 + f1 * g4 + f2 * g3 + f3 * g2 + f4 * g1 + f5 * g0 + f6 * (g9 * 19) + f7 * (g8 * 19) + f8 * (g7 * 19)
       + f9 * (g6 * 19))
      (f0 * g6 + (f1 * 2) * g5 + f2 * g4 + (f3 * 2) * g3 + f4 * g2 + (f5 * 2) * g1 + f6 * g0 + (f7 * 2) * (g9 * 19)
       + f8 * (g8 * 19) + (f9 * 2) * (g7 * 19))
      (f0 * g7 + f1 * g6 + f2 * g5 + f3 * g4 + f4 * g3 + f5 * g2 + f6 * g1 + f7 * g0 + f8 * (g9 * 19) + f9 * (g8 *
       19))
      (f0 * g8 + (f1 * 2) * g7 + f2 * g6 + (f3 * 2) * g5 + f4 * g4 + (f5 * 2) * g3 + f6 * g2 + (f7 * 2) * g1 + f8 *
       g0 + (f9 * 2) * (g9 * 19))
      (f0 * g9 + f1 * g8 + f2 * g7 + f3 * g6 + f4 * g5 + f5 * g4 + f6 * g3 + f7 * g2 + f8 * g1 + f9 * g0)"
  by (simp add: fe_mul_def Let_def)

lemma fe_sq_ten:
  "fe_sq [f0, f1, f2, f3, f4, f5, f6, f7, f8, f9] = FE_CARRY
      (f0 * f0 + (f1 * 2) * (f9 * 38) + (f2 * 2) * (f8 * 19) + (f3 * 2) * (f7 * 38) + (f4 * 2) * (f6 * 19) + f5 *
       (f5 * 38))
      ((f0 * 2) * f1 + f2 * (f9 * 38) + (f3 * 2) * (f8 * 19) + f4 * (f7 * 38) + (f5 * 2) * (f6 * 19))
      ((f0 * 2) * f2 + (f1 * 2) * f1 + (f3 * 2) * (f9 * 38) + (f4 * 2) * (f8 * 19) + (f5 * 2) * (f7 * 38) + f6 * (f6
       * 19))
      ((f0 * 2) * f3 + (f1 * 2) * f2 + f4 * (f9 * 38) + (f5 * 2) * (f8 * 19) + f6 * (f7 * 38))
      ((f0 * 2) * f4 + (f1 * 2) * (f3 * 2) + f2 * f2 + (f5 * 2) * (f9 * 38) + (f6 * 2) * (f8 * 19) + f7 * (f7 * 38))
      ((f0 * 2) * f5 + (f1 * 2) * f4 + (f2 * 2) * f3 + f6 * (f9 * 38) + (f7 * 2) * (f8 * 19))
      ((f0 * 2) * f6 + (f1 * 2) * (f5 * 2) + (f2 * 2) * f4 + (f3 * 2) * f3 + (f7 * 2) * (f9 * 38) + f8 * (f8 * 19))
      ((f0 * 2) * f7 + (f1 * 2) * f6 + (f2 * 2) * f5 + (f3 * 2) * f4 + f8 * (f9 * 38))
      ((f0 * 2) * f8 + (f1 * 2) * (f7 * 2) + (f2 * 2) * f6 + (f3 * 2) * (f5 * 2) + f4 * f4 + f9 * (f9 * 38))
      ((f0 * 2) * f9 + (f1 * 2) * f8 + (f2 * 2) * f7 + (f3 * 2) * f6 + f4 * (f5 * 2))"
  by (simp add: fe_sq_def Let_def)

lemma abs_prod_le: "\<bar>x\<bar> \<le> a \<Longrightarrow> \<bar>y\<bar> \<le> b \<Longrightarrow> \<bar>x * y\<bar> \<le> a * (b :: int)"
  unfolding abs_mult by (rule mult_mono) auto

text \<open>
  The factors of the products are integers of 32 bits: twice, 19 times and, for the odd limbs, 38 times a limb. A product
  has at most 57 bits (58 in a square), so that a sum of ten (of six) has at most 61 and fits 64 bits with its carry.
\<close>

lemma factors_fit:
  assumes "loose f" and "i < 10"
  shows "\<bar>f ! i * 2\<bar> < 2 ^ 31" "\<bar>f ! i * 19\<bar> < 2 ^ 31" "odd i \<Longrightarrow> \<bar>f ! i * 38\<bar> < 2 ^ 31"
proof -
  have i: "i \<in> {0, 1, 2, 3, 4, 5, 6, 7, 8, 9}" using assms(2) by auto
  then have "\<bar>f ! i\<bar> \<le> 67108864" "odd i \<Longrightarrow> \<bar>f ! i\<bar> \<le> 33816576"
    using assms(1) unfolding limbs_in_def by (elim insertE; simp)+
  then show "\<bar>f ! i * 2\<bar> < 2 ^ 31" "\<bar>f ! i * 19\<bar> < 2 ^ 31" "odd i \<Longrightarrow> \<bar>f ! i * 38\<bar> < 2 ^ 31"
    by (simp_all add: abs_mult)
qed

lemma abs_sum_le: "\<bar>x\<bar> \<le> a \<Longrightarrow> \<bar>y\<bar> \<le> b \<Longrightarrow> \<bar>x + y\<bar> \<le> a + (b :: int)"
  using abs_triangle_ineq [of x y] by linarith

lemma sum10_le:
  fixes x0 x1 x2 x3 x4 x5 x6 x7 x8 x9 :: int
  assumes "\<bar>x0\<bar> \<le> 2 ^ 57" "\<bar>x1\<bar> \<le> 2 ^ 57" "\<bar>x2\<bar> \<le> 2 ^ 57" "\<bar>x3\<bar> \<le> 2 ^ 57" "\<bar>x4\<bar> \<le> 2 ^ 57"
    "\<bar>x5\<bar> \<le> 2 ^ 57" "\<bar>x6\<bar> \<le> 2 ^ 57" "\<bar>x7\<bar> \<le> 2 ^ 57" "\<bar>x8\<bar> \<le> 2 ^ 57" "\<bar>x9\<bar> \<le> 2 ^ 57"
  shows "\<bar>x0 + x1 + x2 + x3 + x4 + x5 + x6 + x7 + x8 + x9\<bar> \<le> 2 ^ 61"
proof -
  have "\<bar>x0 + x1 + x2 + x3 + x4 + x5 + x6 + x7 + x8 + x9\<bar> \<le>
    2 ^ 57 + 2 ^ 57 + 2 ^ 57 + 2 ^ 57 + 2 ^ 57 + 2 ^ 57 + 2 ^ 57 + 2 ^ 57 + 2 ^ 57 + 2 ^ 57"
    by (intro abs_sum_le assms)
  then show ?thesis by simp
qed

lemma fe_mul_carried:
  assumes "loose f" and "loose g"
  shows "carried (fe_mul f g)"
proof -
  obtain f0 f1 f2 f3 f4 f5 f6 f7 f8 f9 where f: "f = [f0, f1, f2, f3, f4, f5, f6, f7, f8, f9]"
    by (rule ten_limbs [OF limbs_in_len [OF assms(1)]])
  obtain g0 g1 g2 g3 g4 g5 g6 g7 g8 g9 where g: "g = [g0, g1, g2, g3, g4, g5, g6, g7, g8, g9]"
    by (rule ten_limbs [OF limbs_in_len [OF assms(2)]])
  have p: "\<bar>x * y\<bar> \<le> 2 ^ 57" if "\<bar>x\<bar> \<le> 67633152" "\<bar>y\<bar> \<le> 1275068416" for x y :: int
    using abs_prod_le [OF that] by simp
  have F: "\<bar>x\<bar> \<le> 67633152" if "\<bar>x\<bar> \<le> 67108864 \<or> \<bar>x\<bar> \<le> 33816576" for x :: int using that by auto
  have F2: "\<bar>x * 2\<bar> \<le> 67633152" if "\<bar>x\<bar> \<le> 33816576" for x :: int using that by simp
  have G: "\<bar>x\<bar> \<le> 1275068416" "\<bar>x * 19\<bar> \<le> 1275068416" if "\<bar>x\<bar> \<le> 67108864 \<or> \<bar>x\<bar> \<le> 33816576" for x :: int
    using that by auto
  note b = assms [unfolded f g limbs_in_ten]
  show ?thesis unfolding f g fe_mul_ten
    by (rule FE_CARRY_carried, unfold ball_simps, intro conjI TrueI)
      (rule sum10_le; rule p; (rule F2 F G(2) G(1)); simp only: b simp_thms)+
qed

lemma fe_sq_carried:
  assumes "loose f"
  shows "carried (fe_sq f)"
proof -
  obtain f0 f1 f2 f3 f4 f5 f6 f7 f8 f9 where f: "f = [f0, f1, f2, f3, f4, f5, f6, f7, f8, f9]"
    by (rule ten_limbs [OF limbs_in_len [OF assms]])
  have p: "\<bar>x * y\<bar> \<le> 2 ^ 58" if "\<bar>x\<bar> \<le> 134217728" "\<bar>y\<bar> \<le> 1285029888" for x y :: int
    using abs_prod_le [OF that] by simp
  have s5: "\<bar>x0 + x1 + x2 + x3 + x4\<bar> \<le> 2 ^ 61" and s6: "\<bar>x0 + x1 + x2 + x3 + x4 + x5\<bar> \<le> 2 ^ 61"
    if "\<bar>x0\<bar> \<le> 2 ^ 58" "\<bar>x1\<bar> \<le> 2 ^ 58" "\<bar>x2\<bar> \<le> 2 ^ 58" "\<bar>x3\<bar> \<le> 2 ^ 58" "\<bar>x4\<bar> \<le> 2 ^ 58" "\<bar>x5\<bar> \<le> 2 ^ 58"
    for x0 x1 x2 x3 x4 x5 :: int
  proof -
    have "\<bar>x0 + x1 + x2 + x3 + x4 + x5\<bar> \<le> 2 ^ 58 + 2 ^ 58 + 2 ^ 58 + 2 ^ 58 + 2 ^ 58 + 2 ^ 58"
      "\<bar>x0 + x1 + x2 + x3 + x4\<bar> \<le> 2 ^ 58 + 2 ^ 58 + 2 ^ 58 + 2 ^ 58 + 2 ^ 58"
      by (intro abs_sum_le that)+
    then show "\<bar>x0 + x1 + x2 + x3 + x4\<bar> \<le> 2 ^ 61" "\<bar>x0 + x1 + x2 + x3 + x4 + x5\<bar> \<le> 2 ^ 61" by simp_all
  qed
  have F: "\<bar>x * 2\<bar> \<le> 134217728" "\<bar>x\<bar> \<le> 134217728" if "\<bar>x\<bar> \<le> 67108864 \<or> \<bar>x\<bar> \<le> 33816576" for x :: int using that by auto
  have G: "\<bar>x * 2\<bar> \<le> 1285029888" "\<bar>x * 19\<bar> \<le> 1285029888" "\<bar>x\<bar> \<le> 1285029888"
    if "\<bar>x\<bar> \<le> 67108864 \<or> \<bar>x\<bar> \<le> 33816576" for x :: int using that by auto
  have G38: "\<bar>x * 38\<bar> \<le> 1285029888" if "\<bar>x\<bar> \<le> 33816576" for x :: int using that by simp
  note b = assms [unfolded f limbs_in_ten]
  show ?thesis unfolding f fe_sq_ten
    by (rule FE_CARRY_carried, unfold ball_simps, intro conjI TrueI)
      ((rule s6 | rule s5 [where ?x5.0 = 0]); (rule p)?; (rule F G38 G)?; simp only: b simp_thms abs_zero zero_le_power zero_le_numeral)+
qed

lemma fe_mul_small_carried:
  assumes "loose f"
  shows "carried (fe_mul_small f 121666)"
proof -
  obtain f0 f1 f2 f3 f4 f5 f6 f7 f8 f9 where f: "f = [f0, f1, f2, f3, f4, f5, f6, f7, f8, f9]"
    by (rule ten_limbs [OF limbs_in_len [OF assms]])
  have p: "\<bar>x * 121666\<bar> \<le> 2 ^ 61" if "\<bar>x\<bar> \<le> 67108864 \<or> \<bar>x\<bar> \<le> 33816576" for x :: int using that by auto
  note b = assms [unfolded f limbs_in_ten]
  have "fe_mul_small f 121666 = FE_CARRY (f0 * 121666) (f1 * 121666) (f2 * 121666) (f3 * 121666) (f4 * 121666)
    (f5 * 121666) (f6 * 121666) (f7 * 121666) (f8 * 121666) (f9 * 121666)"
    by (simp add: fe_mul_small_def f)
  then show ?thesis
    by (simp only:) (rule FE_CARRY_carried, unfold ball_simps, intro conjI TrueI; rule p; simp only: b simp_thms)
qed

section \<open>Values modulo the prime\<close>

definition fval :: "fe \<Rightarrow> int" where
  "fval f = fe_val f mod p25519"

lemma fval_range: "0 \<le> fval f" "fval f < p25519"
  by (simp_all add: fval_def)

lemma fval_mod [simp]: "fval f mod p25519 = fval f"
  by (simp add: fval_def)

lemma fval_fold: "fe_val f = v - k * p25519 \<Longrightarrow> fval f = v mod p25519"
  unfolding fval_def by (simp only: mod_minus_mult)

lemma fval_carry: "fval (FE_CARRY t0 t1 t2 t3 t4 t5 t6 t7 t8 t9) = limb_val t0 t1 t2 t3 t4 t5 t6 t7 t8 t9 mod p25519"
  using FE_CARRY_val fval_fold by meson

lemma fval_mul:
  assumes "length f = 10" "length g = 10"
  shows "fval (fe_mul f g) = fval f * fval g mod p25519"
proof -
  obtain f0 f1 f2 f3 f4 f5 f6 f7 f8 f9 where f: "f = [f0, f1, f2, f3, f4, f5, f6, f7, f8, f9]"
    by (rule ten_limbs [OF assms(1)])
  obtain g0 g1 g2 g3 g4 g5 g6 g7 g8 g9 where g: "g = [g0, g1, g2, g3, g4, g5, g6, g7, g8, g9]"
    by (rule ten_limbs [OF assms(2)])
  have "fval (fe_mul f g) = fe_val f * fe_val g mod p25519"
    unfolding f g fe_mul_ten fval_carry mul_limbs fe_val_ten by (rule mod_minus_mult)
  then show ?thesis unfolding fval_def by (simp only: mod_mult_eq)
qed

lemma fval_sq:
  assumes "length f = 10"
  shows "fval (fe_sq f) = fval f * fval f mod p25519"
proof -
  obtain f0 f1 f2 f3 f4 f5 f6 f7 f8 f9 where f: "f = [f0, f1, f2, f3, f4, f5, f6, f7, f8, f9]"
    by (rule ten_limbs [OF assms])
  have "fval (fe_sq f) = fe_val f * fe_val f mod p25519"
    unfolding f fe_sq_ten fval_carry sq_limbs fe_val_ten by (rule mod_minus_mult)
  then show ?thesis unfolding fval_def by (simp only: mod_mult_eq)
qed

lemma fval_mul_small: "fval (fe_mul_small f g) = g * fval f mod p25519"
proof -
  have "limb_val (f ! 0 * g) (f ! 1 * g) (f ! 2 * g) (f ! 3 * g) (f ! 4 * g) (f ! 5 * g) (f ! 6 * g) (f ! 7 * g)
    (f ! 8 * g) (f ! 9 * g) = g * fe_val f"
    unfolding fe_val_def limb_val_def by algebra
  then have "fval (fe_mul_small f g) = g * fe_val f mod p25519" by (simp only: fe_mul_small_def fval_carry)
  then show ?thesis unfolding fval_def by (simp only: mod_mult_right_eq)
qed

section \<open>Operations limb by limb\<close>

lemma fe_neg_in: "limbs_in a b f \<Longrightarrow> limbs_in a b (fe_neg f)"
  by (simp add: limbs_in_def fe_neg_def)

lemma limbs_in_add:
  assumes "limbs_in a b f" and "limbs_in c d g"
  shows "limbs_in (a + c) (b + d) (fe_add f g)"
proof -
  have "fe_add f g ! i = f ! i + g ! i" if "i < 10" for i using assms that by (simp add: fe_add_def limbs_in_def)
  moreover have "length (fe_add f g) = 10" using assms by (simp add: fe_add_def limbs_in_def)
  ultimately show ?thesis using assms unfolding limbs_in_def
    by (elim conjE, intro conjI) (simp_all add: abs_sum_le)
qed

lemma fe_add_loose: "carried f \<Longrightarrow> carried g \<Longrightarrow> loose (fe_add f g)"
  using limbs_in_add [of 33554432 16908288 f 33554432 16908288 g] by simp

lemma fe_sub_add: "length f = length g \<Longrightarrow> fe_sub f g = fe_add f (fe_neg g)"
  unfolding fe_sub_def fe_add_def fe_neg_def by (induction f g rule: list_induct2) simp_all

lemma fe_sub_loose: "carried f \<Longrightarrow> carried g \<Longrightarrow> loose (fe_sub f g)"
  using fe_add_loose [of f "fe_neg g"] fe_neg_in [of _ _ g] by (simp add: fe_sub_add limbs_in_len)

lemma fval_add: "length f = 10 \<Longrightarrow> length g = 10 \<Longrightarrow> fval (fe_add f g) = (fval f + fval g) mod p25519"
  unfolding fval_def mod_add_eq by (simp add: fe_val_def limb_val_def fe_add_def algebra_simps)

lemma fval_sub: "length f = 10 \<Longrightarrow> length g = 10 \<Longrightarrow> fval (fe_sub f g) = (fval f - fval g) mod p25519"
  unfolding fval_def mod_diff_eq by (simp add: fe_val_def limb_val_def fe_sub_def algebra_simps)

lemma fval_neg: "length f = 10 \<Longrightarrow> fval (fe_neg f) = (- fval f) mod p25519"
  unfolding fval_def mod_minus_eq by (simp add: fe_val_def limb_val_def fe_neg_def algebra_simps)

lemma xor_swap: "(a XOR b) XOR a = (b :: int)" "a XOR (a XOR b) = (b :: int)" "b XOR (a XOR b) = (a :: int)"
  by (simp_all add: xor.assoc xor.commute xor.left_commute)

lemma map2_xor_zero: "length f = length g \<Longrightarrow> map2 (XOR) f (map2 (\<lambda>a c. (a XOR c) AND 0) f g) = (f :: int list)"
  "length f = length g \<Longrightarrow> map2 (XOR) g (map2 (\<lambda>a c. (a XOR c) AND 0) f g) = (g :: int list)"
  by (induction f g rule: list_induct2) simp_all

lemma map2_xor_swap: "length f = length g \<Longrightarrow> map2 (XOR) f (map2 (\<lambda>a c. (a XOR c) AND - 1) f g) = (g :: int list)"
  "length f = length g \<Longrightarrow> map2 (XOR) g (map2 (\<lambda>a c. (a XOR c) AND - 1) f g) = (f :: int list)"
  by (induction f g rule: list_induct2) (simp_all add: xor_swap)

lemma fe_cswap_bit:
  assumes "length f = length g" and "b = 0 \<or> b = 1"
  shows "fe_cswap f g b = (if b = 1 then (g, f) else (f, g))"
  using assms by (auto simp: fe_cswap_def Let_def map2_xor_zero [simplified] map2_xor_swap [simplified])

lemma fe_ccopy_bit:
  assumes "length f = length g" and "b = 0 \<or> b = 1"
  shows "fe_ccopy f g b = (if b = 1 then g else f)"
  using assms by (auto simp: fe_ccopy_def Let_def map2_xor_zero [simplified] map2_xor_swap [simplified])

end
