(* ===== verification/FieldBytes.thy ===== *)
theory FieldBytes
  imports FieldValue Poly1305
begin

text \<open>
  Reading and writing field elements, \<open>fe_frombytes\<close> and \<open>fe_tobytes\<close> of \<open>library/crypto/monocypher.c\<close>: 32 bytes are
  read as a little-endian number below \<open>2^255\<close>, and the bytes written are those of the least residue of the value.
\<close>

unbundle bit_operations_syntax

section \<open>Reading\<close>

lemma load24_num:
  assumes "3 \<le> length s"
  shows "unat (load24_le s) = le_num (take 3 s)" "unat (load24_le s) < 2 ^ 24"
proof -
  define z where "z = take 3 s @ [0]"
  have z: "z ! 0 = s ! 0" "z ! 1 = s ! 1" "z ! 2 = s ! 2" "z ! 3 = 0" "length z = 4"
    using assms by (simp_all add: z_def nth_append)
  have "load24_le s = load32_le z" by (simp add: load24_le_def load32_le_def z del: One_nat_def)
  then show "unat (load24_le s) = le_num (take 3 s)"
    using load32_num [of z] z(5) by (simp add: z_def le_num_append)
  then show "unat (load24_le s) < 2 ^ 24" using le_num_bound [of "take 3 s"] assms by simp
qed

lemma uint_push24:
  assumes "unat (w :: u32) < 2 ^ 24" and "k \<le> 8"
  shows "uint (push_bit k w) = 2 ^ k * int (unat w)"
proof -
  have "2 ^ k * unat w < 2 ^ 8 * 2 ^ 24"
    using assms by (intro mult_le_less_imp_less power_increasing) simp_all
  then have "unat (of_nat (2 ^ k * unat w) :: u32) = 2 ^ k * unat w" unfolding unat_of_nat by simp
  moreover have "push_bit k w = of_nat (2 ^ k * unat w)" using push_of_nat [of k "unat w", where ?'a = 32] by simp
  ultimately have "unat (push_bit k w) = 2 ^ k * unat w" by (simp only:)
  then show ?thesis by (metis of_nat_mult of_nat_numeral of_nat_power uint_nat)
qed

lemma le_num_split: "k \<le> length s \<Longrightarrow> le_num s = le_num (take k s) + 256 ^ k * le_num (drop k s)"
  using le_num_append [of "take k s" "drop k s"] by simp

lemma mask23_num: "unat ((w :: u32) AND 0x7fffff) = unat w mod 2 ^ 23"
proof -
  have "(0x7fffff :: u32) = mask 23" by (simp add: mask_eq_exp_minus_1)
  then have "w AND 0x7fffff = of_nat (unat w mod 2 ^ 23)"
    using mask_of_nat [of 23 "unat w", where ?'a = 32] by (simp only:) simp
  moreover have "unat (of_nat (unat w mod 2 ^ 23) :: u32) = unat w mod 2 ^ 23"
    unfolding unat_of_nat by (rule mod_less) (rule less_trans [OF mod_less_divisor], simp_all)
  ultimately show ?thesis by (simp only:)
qed

text \<open>The topmost bit is masked off.\<close>

lemma mod_top:
  fixes x y :: nat
  assumes "x < 2 ^ 232"
  shows "(x + 2 ^ 232 * y) mod 2 ^ 255 = x + 2 ^ 232 * (y mod 2 ^ 23)"
proof -
  have "2 ^ 232 * y = 2 ^ 232 * (y mod 2 ^ 23 + 2 ^ 23 * (y div 2 ^ 23))" by (simp only: mod_mult_div_eq)
  also have "\<dots> = 2 ^ 232 * (y mod 2 ^ 23) + y div 2 ^ 23 * 2 ^ 255" unfolding distrib_left by simp
  finally have "x + 2 ^ 232 * y = (x + 2 ^ 232 * (y mod 2 ^ 23)) + y div 2 ^ 23 * 2 ^ 255" by (simp only: add.assoc)
  moreover have "y mod 2 ^ 23 \<le> 2 ^ 23 - 1" using mod_less_divisor [of "2 ^ 23" y] by simp
  then have "2 ^ 232 * (y mod 2 ^ 23) \<le> 2 ^ 232 * (2 ^ 23 - 1)" by (rule mult_le_mono2)
  then have "x + 2 ^ 232 * (y mod 2 ^ 23) < 2 ^ 255" using assms by simp
  ultimately show ?thesis by (simp only: mod_mult_self1 mod_less)
qed

text \<open>The ten fields of the bytes, before the carry.\<close>

lemma frombytes_limbs:
  assumes "length s = 32"
  shows "limb_val (uint (load32_le s)) (uint (push_bit 6 (load24_le (drop 4 s)))) (uint (push_bit 5 (load24_le (drop 7 s))))
      (uint (push_bit 3 (load24_le (drop 10 s)))) (uint (push_bit 2 (load24_le (drop 13 s)))) (uint (load32_le (drop 16 s)))
      (uint (push_bit 7 (load24_le (drop 20 s)))) (uint (push_bit 5 (load24_le (drop 23 s))))
      (uint (push_bit 4 (load24_le (drop 26 s)))) (uint (push_bit 2 (load24_le (drop 29 s) AND 0x7fffff))) =
    int (le_num s mod 2 ^ 255)"
proof -
  define a where "a = le_num (take 4 s)"
  define b where "b i = le_num (take 3 (drop i s))" for i
  define c where "c = le_num (take 4 (drop 16 s))"
  have l: "unat (load24_le (drop i s)) = b i" "b i < 2 ^ 24" if "i \<le> 29" for i
    using load24_num [of "drop i s"] assms that by (simp_all add: b_def)
  have u: "uint (push_bit k (load24_le (drop i s))) = 2 ^ k * int (b i)" if "i \<le> 29" "k \<le> 8" for i k
    using uint_push24 [of "load24_le (drop i s)" k] l [OF that(1)] that(2) by simp
  have "b 29 mod 2 ^ 23 < 2 ^ 24" by (rule less_trans [OF mod_less_divisor]) simp_all
  then have u29: "uint (push_bit 2 (load24_le (drop 29 s) AND 0x7fffff)) = 2 ^ 2 * int (b 29 mod 2 ^ 23)"
    using uint_push24 [of "load24_le (drop 29 s) AND 0x7fffff" 2] mask23_num [of "load24_le (drop 29 s)"] l [of 29] by simp
  have u0: "uint (load32_le s) = int a" "uint (load32_le (drop 16 s)) = int c"
    using load32_num [of s] load32_num [of "drop 16 s"] assms by (simp_all add: a_def c_def uint_nat)
  have "le_num s = a + 2 ^ 32 * b 4 + 2 ^ 56 * b 7 + 2 ^ 80 * b 10 + 2 ^ 104 * b 13 + 2 ^ 128 * c +
      2 ^ 160 * b 20 + 2 ^ 184 * b 23 + 2 ^ 208 * b 26 + 2 ^ 232 * b 29" (is "_ = ?x + _")
    using le_num_split [of 4 s] le_num_split [of 3 "drop 4 s"] le_num_split [of 3 "drop 7 s"] le_num_split [of 3 "drop 10 s"]
      le_num_split [of 3 "drop 13 s"] le_num_split [of 4 "drop 16 s"] le_num_split [of 3 "drop 20 s"]
      le_num_split [of 3 "drop 23 s"] le_num_split [of 3 "drop 26 s"] assms
    by (simp add: a_def b_def c_def)
  moreover have "le_num s = le_num (take 29 s) + 2 ^ 232 * b 29" "le_num (take 29 s) < 2 ^ 232"
    using le_num_split [of 29 s] le_num_bound [of "take 29 s"] assms by (simp_all add: b_def)
  ultimately have "le_num s mod 2 ^ 255 = ?x + 2 ^ 232 * (b 29 mod 2 ^ 23)" using mod_top [of ?x "b 29"] by simp
  then show ?thesis unfolding u29 by (simp add: limb_val_def u u0)
qed

lemma fe_frombytes_limbs:
  "fe_frombytes s = FE_CARRY (uint (load32_le s)) (uint (push_bit 6 (load24_le (drop 4 s))))
      (uint (push_bit 5 (load24_le (drop 7 s)))) (uint (push_bit 3 (load24_le (drop 10 s))))
      (uint (push_bit 2 (load24_le (drop 13 s)))) (uint (load32_le (drop 16 s)))
      (uint (push_bit 7 (load24_le (drop 20 s)))) (uint (push_bit 5 (load24_le (drop 23 s))))
      (uint (push_bit 4 (load24_le (drop 26 s)))) (uint (push_bit 2 (load24_le (drop 29 s) AND 0x7fffff)))"
proof -
  have "drop_bit 1 0xffffff = (0x7fffff :: u32)" by simp
  then show ?thesis by (simp only: fe_frombytes_def fe_frombytes_mask_def Let_def)
qed

lemma fe_frombytes_carried: "carried (fe_frombytes s)"
proof -
  have "\<bar>uint (w :: u32)\<bar> \<le> 2 ^ 61" for w using uint_lt2p [of w] by simp
  then show ?thesis unfolding fe_frombytes_limbs by (intro FE_CARRY_carried) (simp only: ball_simps simp_thms)
qed

lemma fval_frombytes: "length s = 32 \<Longrightarrow> fval (fe_frombytes s) = int (le_num s mod 2 ^ 255) mod p25519"
  unfolding fe_frombytes_limbs fval_carry by (simp only: frombytes_limbs)

section \<open>Writing\<close>

lemma div_step: "(x div 2 ^ k + y) div 2 ^ m = (x + y * 2 ^ k) div 2 ^ (k + m)" for x y :: int
  by (simp add: power_add zdiv_zmult2_eq add.commute)

text \<open>A pass over the limbs that carries rounded down carries the quotient by \<open>2^255\<close> out of the last one.\<close>

definition carry_out :: "int \<Rightarrow> int \<Rightarrow> int \<Rightarrow> int \<Rightarrow> int \<Rightarrow> int \<Rightarrow> int \<Rightarrow> int \<Rightarrow> int \<Rightarrow> int \<Rightarrow> int \<Rightarrow> int" where
  "carry_out q t0 t1 t2 t3 t4 t5 t6 t7 t8 t9 =
     ((((((((((q + t0) div 2 ^ 26 + t1) div 2 ^ 25 + t2) div 2 ^ 26 + t3) div 2 ^ 25 + t4) div 2 ^ 26 + t5) div 2 ^ 25 +
       t6) div 2 ^ 26 + t7) div 2 ^ 25 + t8) div 2 ^ 26 + t9) div 2 ^ 25"

lemma carry_out_div:
  "carry_out q t0 t1 t2 t3 t4 t5 t6 t7 t8 t9 = (q + limb_val t0 t1 t2 t3 t4 t5 t6 t7 t8 t9) div 2 ^ 255"
  unfolding carry_out_def limb_val_def by (simp only: div_step add_numeral_left arith_simps add.assoc)

lemma upto_five: "[0..<5] = [0, 1, 2, 3, 4 :: nat]"
  by (simp add: upt_rec)

lemma nth_ten:
  "[t0, t1, t2, t3, t4, t5, t6, t7, t8, t9] ! 0 = t0" "[t0, t1, t2, t3, t4, t5, t6, t7, t8, t9] ! 1 = t1"
  "[t0, t1, t2, t3, t4, t5, t6, t7, t8, t9] ! 2 = t2" "[t0, t1, t2, t3, t4, t5, t6, t7, t8, t9] ! 3 = t3"
  "[t0, t1, t2, t3, t4, t5, t6, t7, t8, t9] ! 4 = t4" "[t0, t1, t2, t3, t4, t5, t6, t7, t8, t9] ! 5 = t5"
  "[t0, t1, t2, t3, t4, t5, t6, t7, t8, t9] ! 6 = t6" "[t0, t1, t2, t3, t4, t5, t6, t7, t8, t9] ! 7 = t7"
  "[t0, t1, t2, t3, t4, t5, t6, t7, t8, t9] ! 8 = t8" "[t0, t1, t2, t3, t4, t5, t6, t7, t8, t9] ! 9 = t9"
  by simp_all

lemma upd_ten:
  "[t0, t1, t2, t3, t4, t5, t6, t7, t8, t9][0 := x] = [x, t1, t2, t3, t4, t5, t6, t7, t8, t9]"
  "[t0, t1, t2, t3, t4, t5, t6, t7, t8, t9][1 := x] = [t0, x, t2, t3, t4, t5, t6, t7, t8, t9]"
  "[t0, t1, t2, t3, t4, t5, t6, t7, t8, t9][2 := x] = [t0, t1, x, t3, t4, t5, t6, t7, t8, t9]"
  "[t0, t1, t2, t3, t4, t5, t6, t7, t8, t9][3 := x] = [t0, t1, t2, x, t4, t5, t6, t7, t8, t9]"
  "[t0, t1, t2, t3, t4, t5, t6, t7, t8, t9][4 := x] = [t0, t1, t2, t3, x, t5, t6, t7, t8, t9]"
  "[t0, t1, t2, t3, t4, t5, t6, t7, t8, t9][5 := x] = [t0, t1, t2, t3, t4, x, t6, t7, t8, t9]"
  "[t0, t1, t2, t3, t4, t5, t6, t7, t8, t9][6 := x] = [t0, t1, t2, t3, t4, t5, x, t7, t8, t9]"
  "[t0, t1, t2, t3, t4, t5, t6, t7, t8, t9][7 := x] = [t0, t1, t2, t3, t4, t5, t6, x, t8, t9]"
  "[t0, t1, t2, t3, t4, t5, t6, t7, t8, t9][8 := x] = [t0, t1, t2, t3, t4, t5, t6, t7, x, t9]"
  "[t0, t1, t2, t3, t4, t5, t6, t7, t8, t9][9 := x] = [t0, t1, t2, t3, t4, t5, t6, t7, t8, x]"
  by simp_all

lemma index_ten:
  "2 * 0 = (0 :: nat)" "2 * 1 = (2 :: nat)" "2 * 2 = (4 :: nat)" "2 * 3 = (6 :: nat)" "2 * 4 = (8 :: nat)"
  "0 * 2 = (0 :: nat)" "1 * 2 = (2 :: nat)" "2 * 2 = (4 :: nat)" "3 * 2 = (6 :: nat)" "4 * 2 = (8 :: nat)"
  "0 + 1 = (1 :: nat)" "2 + 1 = (3 :: nat)" "4 + 1 = (5 :: nat)" "6 + 1 = (7 :: nat)" "8 + 1 = (9 :: nat)"
  by simp_all

lemmas ten_simps = fold_simps index_ten nth_ten upd_ten drop_bit_eq_div

lemma tobytes_q_ten:
  "tobytes_q [t0, t1, t2, t3, t4, t5, t6, t7, t8, t9] =
     carry_out ((19 * t9 + 2 ^ 24) div 2 ^ 25) t0 t1 t2 t3 t4 t5 t6 t7 t8 t9"
  unfolding tobytes_q_def carry_out_def upto_five by (simp only: ten_simps)

text \<open>The carries of \<open>tobytes_reduce\<close>.\<close>

lemma tobytes_reduce_chain:
  obtains c0 c1 c2 c3 c4 c5 c6 c7 c8 c9 where
    "fst (tobytes_reduce [t0, t1, t2, t3, t4, t5, t6, t7, t8, t9] q) =
       [t0 + q - c0 * 2 ^ 26, t1 + c0 - c1 * 2 ^ 25, t2 + c1 - c2 * 2 ^ 26, t3 + c2 - c3 * 2 ^ 25,
        t4 + c3 - c4 * 2 ^ 26, t5 + c4 - c5 * 2 ^ 25, t6 + c5 - c6 * 2 ^ 26, t7 + c6 - c7 * 2 ^ 25,
        t8 + c7 - c8 * 2 ^ 26, t9 + c8 - c9 * 2 ^ 25]"
    "c0 = (t0 + q) div 2 ^ 26" "c1 = (t1 + c0) div 2 ^ 25" "c2 = (t2 + c1) div 2 ^ 26" "c3 = (t3 + c2) div 2 ^ 25"
    "c4 = (t4 + c3) div 2 ^ 26" "c5 = (t5 + c4) div 2 ^ 25" "c6 = (t6 + c5) div 2 ^ 26" "c7 = (t7 + c6) div 2 ^ 25"
    "c8 = (t8 + c7) div 2 ^ 26" "c9 = (t9 + c8) div 2 ^ 25"
  by (rule that [OF _ refl refl refl refl refl refl refl refl refl refl])
    (simp only: tobytes_reduce_def upto_five ten_simps Let_def prod.case fst_conv)

lemma rem_range: "0 \<le> x - x div 2 ^ k * 2 ^ k" "x - x div 2 ^ k * 2 ^ k < 2 ^ k" for x :: int
  by (simp_all add: minus_div_mult_eq_mod)

lemma tobytes_reduce_canonical:
  obtains r0 r1 r2 r3 r4 r5 r6 r7 r8 r9 where
    "fst (tobytes_reduce [t0, t1, t2, t3, t4, t5, t6, t7, t8, t9] q) = [r0, r1, r2, r3, r4, r5, r6, r7, r8, r9]"
    "limb_val r0 r1 r2 r3 r4 r5 r6 r7 r8 r9 = (limb_val t0 t1 t2 t3 t4 t5 t6 t7 t8 t9 + q) mod 2 ^ 255"
    "\<forall>r \<in> {r0, r2, r4, r6, r8}. 0 \<le> r \<and> r < 2 ^ 26" "\<forall>r \<in> {r1, r3, r5, r7, r9}. 0 \<le> r \<and> r < 2 ^ 25"
proof -
  obtain c0 c1 c2 c3 c4 c5 c6 c7 c8 c9 where
    e: "fst (tobytes_reduce [t0, t1, t2, t3, t4, t5, t6, t7, t8, t9] q) =
       [t0 + q - c0 * 2 ^ 26, t1 + c0 - c1 * 2 ^ 25, t2 + c1 - c2 * 2 ^ 26, t3 + c2 - c3 * 2 ^ 25,
        t4 + c3 - c4 * 2 ^ 26, t5 + c4 - c5 * 2 ^ 25, t6 + c5 - c6 * 2 ^ 26, t7 + c6 - c7 * 2 ^ 25,
        t8 + c7 - c8 * 2 ^ 26, t9 + c8 - c9 * 2 ^ 25]"
    and c: "c0 = (t0 + q) div 2 ^ 26" "c1 = (t1 + c0) div 2 ^ 25" "c2 = (t2 + c1) div 2 ^ 26" "c3 = (t3 + c2) div 2 ^ 25"
    "c4 = (t4 + c3) div 2 ^ 26" "c5 = (t5 + c4) div 2 ^ 25" "c6 = (t6 + c5) div 2 ^ 26" "c7 = (t7 + c6) div 2 ^ 25"
    "c8 = (t8 + c7) div 2 ^ 26" "c9 = (t9 + c8) div 2 ^ 25"
    by (rule tobytes_reduce_chain)
  have "c9 = (limb_val t0 t1 t2 t3 t4 t5 t6 t7 t8 t9 + q) div 2 ^ 255"
    using carry_out_div [of q t0 t1 t2 t3 t4 t5 t6 t7 t8 t9] by (simp only: carry_out_def c add.commute)
  moreover have "limb_val (t0 + q - c0 * 2 ^ 26) (t1 + c0 - c1 * 2 ^ 25) (t2 + c1 - c2 * 2 ^ 26) (t3 + c2 - c3 * 2 ^ 25)
      (t4 + c3 - c4 * 2 ^ 26) (t5 + c4 - c5 * 2 ^ 25) (t6 + c5 - c6 * 2 ^ 26) (t7 + c6 - c7 * 2 ^ 25)
      (t8 + c7 - c8 * 2 ^ 26) (t9 + c8 - c9 * 2 ^ 25) =
    limb_val t0 t1 t2 t3 t4 t5 t6 t7 t8 t9 + q - c9 * 2 ^ 255"
    unfolding limb_val_def by algebra
  ultimately have v: "limb_val (t0 + q - c0 * 2 ^ 26) (t1 + c0 - c1 * 2 ^ 25) (t2 + c1 - c2 * 2 ^ 26) (t3 + c2 - c3 * 2 ^ 25)
      (t4 + c3 - c4 * 2 ^ 26) (t5 + c4 - c5 * 2 ^ 25) (t6 + c5 - c6 * 2 ^ 26) (t7 + c6 - c7 * 2 ^ 25)
      (t8 + c7 - c8 * 2 ^ 26) (t9 + c8 - c9 * 2 ^ 25) = (limb_val t0 t1 t2 t3 t4 t5 t6 t7 t8 t9 + q) mod 2 ^ 255"
    by (simp only: minus_div_mult_eq_mod)
  show thesis
    by (rule that [OF e v]; unfold ball_simps; intro conjI TrueI; (simp only: c rem_range)?)
qed

text \<open>The sign of a carried value is that of its last limb.\<close>

lemma carried_range:
  assumes "carried [t0, t1, t2, t3, t4, t5, t6, t7, t8, t9]"
  shows "\<bar>limb_val t0 t1 t2 t3 t4 t5 t6 t7 t8 t9 - t9 * 2 ^ 230\<bar> < 2 ^ 230"
    "\<bar>limb_val t0 t1 t2 t3 t4 t5 t6 t7 t8 t9\<bar> < 2 ^ 254 + 2 ^ 250"
proof -
  have l: "\<bar>t0\<bar> \<le> 33554432" "\<bar>t1 * 2 ^ 26\<bar> \<le> 16908288 * 2 ^ 26" "\<bar>t2 * 2 ^ 51\<bar> \<le> 33554432 * 2 ^ 51"
    "\<bar>t3 * 2 ^ 77\<bar> \<le> 16908288 * 2 ^ 77" "\<bar>t4 * 2 ^ 102\<bar> \<le> 33554432 * 2 ^ 102" "\<bar>t5 * 2 ^ 128\<bar> \<le> 16908288 * 2 ^ 128"
    "\<bar>t6 * 2 ^ 153\<bar> \<le> 33554432 * 2 ^ 153" "\<bar>t7 * 2 ^ 179\<bar> \<le> 16908288 * 2 ^ 179" "\<bar>t8 * 2 ^ 204\<bar> \<le> 33554432 * 2 ^ 204"
    "\<bar>t9 * 2 ^ 230\<bar> \<le> 16908288 * 2 ^ 230"
    using assms unfolding limbs_in_ten by (simp_all add: abs_mult)
  have v: "limb_val t0 t1 t2 t3 t4 t5 t6 t7 t8 t9 - t9 * 2 ^ 230 = t0 + t1 * 2 ^ 26 + t2 * 2 ^ 51 + t3 * 2 ^ 77 + t4 * 2 ^ 102 +
     t5 * 2 ^ 128 + t6 * 2 ^ 153 + t7 * 2 ^ 179 + t8 * 2 ^ 204" by (simp add: limb_val_def)
  have "\<bar>t0 + t1 * 2 ^ 26 + t2 * 2 ^ 51 + t3 * 2 ^ 77 + t4 * 2 ^ 102 + t5 * 2 ^ 128 + t6 * 2 ^ 153 + t7 * 2 ^ 179 + t8 * 2 ^ 204\<bar> \<le>
    33554432 + 16908288 * 2 ^ 26 + 33554432 * 2 ^ 51 + 16908288 * 2 ^ 77 + 33554432 * 2 ^ 102 + 16908288 * 2 ^ 128 +
    33554432 * 2 ^ 153 + 16908288 * 2 ^ 179 + 33554432 * 2 ^ 204"
    by (intro abs_sum_le l(1-9))
  also have "\<dots> < (2 :: int) ^ 230" by simp
  finally show s: "\<bar>limb_val t0 t1 t2 t3 t4 t5 t6 t7 t8 t9 - t9 * 2 ^ 230\<bar> < 2 ^ 230" unfolding v .
  have "16908288 * 2 ^ 230 + 2 ^ 230 \<le> (2 :: int) ^ 254 + 2 ^ 250" by simp
  then show "\<bar>limb_val t0 t1 t2 t3 t4 t5 t6 t7 t8 t9\<bar> < 2 ^ 254 + 2 ^ 250"
    using s l(10) abs_triangle_ineq [of "limb_val t0 t1 t2 t3 t4 t5 t6 t7 t8 t9 - t9 * 2 ^ 230" "t9 * 2 ^ 230"]
    unfolding diff_add_cancel by linarith
qed

lemma tobytes_q_sign:
  assumes "carried [t0, t1, t2, t3, t4, t5, t6, t7, t8, t9]"
  shows "tobytes_q [t0, t1, t2, t3, t4, t5, t6, t7, t8, t9] =
    (if limb_val t0 t1 t2 t3 t4 t5 t6 t7 t8 t9 < 0 then - 1 else 0)"
proof -
  let ?v = "limb_val t0 t1 t2 t3 t4 t5 t6 t7 t8 t9"
  define q where "q = (19 * t9 + 2 ^ 24) div 2 ^ 25"
  have t9: "\<bar>t9\<bar> \<le> 16908288" using assms by (simp only: limbs_in_ten)
  have q: "\<bar>q\<bar> \<le> 16" using t9 unfolding q_def by (simp add: abs_le_iff) linarith
  have r: "\<bar>?v - t9 * 2 ^ 230\<bar> < 2 ^ 230" "\<bar>?v\<bar> < 2 ^ 254 + 2 ^ 250" by (rule carried_range [OF assms])+
  have "(q + ?v) div 2 ^ 255 = (if ?v < 0 then - 1 else 0)"
  proof (cases "?v < 0")
    case True
    have "t9 \<le> 0"
    proof (rule ccontr)
      assume "\<not> t9 \<le> 0"
      then have "1 * 2 ^ 230 \<le> t9 * 2 ^ 230" by (intro mult_right_mono) simp_all
      then show False using True r(1) by linarith
    qed
    then have "q \<le> 0" unfolding q_def by simp
    then have "- (2 ^ 255) \<le> q + ?v" "q + ?v < 0" using True q r(2) by simp_all
    then show ?thesis using True by (simp add: div_pos_neg_trivial)
  next
    case False
    have "0 \<le> t9"
    proof (rule ccontr)
      assume "\<not> 0 \<le> t9"
      then have "t9 * 2 ^ 230 \<le> - 1 * 2 ^ 230" by (intro mult_right_mono) simp_all
      then show False using False r(1) by linarith
    qed
    then have "0 \<le> q" unfolding q_def by simp
    then have "0 \<le> q + ?v" "q + ?v < 2 ^ 255" using False q r(2) by simp_all
    then show ?thesis using False by (simp add: div_pos_pos_trivial)
  qed
  then show ?thesis unfolding tobytes_q_ten carry_out_div q_def .
qed

text \<open>After the reduction the limbs hold the least residue of the value.\<close>

lemma reduced_value:
  fixes v :: int
  assumes "\<bar>v\<bar> < 2 ^ 254 + 2 ^ 250"
  shows "(v + (if v < 0 then - 1 else 0) * 19) mod 2 ^ 255 = v mod p25519"
proof (cases "v < 0")
  case True
  have "(v - 19) mod 2 ^ 255 = (v - 19 + 2 ^ 255) mod 2 ^ 255" by (simp only: mod_add_self2)
  also have "\<dots> = v - 19 + 2 ^ 255" using True assms by (intro mod_pos_pos_trivial) simp_all
  also have "\<dots> = (v + p25519) mod p25519" using True assms by (subst mod_pos_pos_trivial) simp_all
  finally show ?thesis using True by simp
next
  case False
  then show ?thesis using assms by (simp add: mod_pos_pos_trivial)
qed

text \<open>The eight words written.\<close>

lemma or_of_nat32:
  assumes "x < 2 ^ k" and "x + 2 ^ k * y < 2 ^ 32"
  shows "(of_nat x :: u32) OR of_nat (2 ^ k * y) = of_nat (x + 2 ^ k * y)"
proof (rule unsigned_word_eqI [where ?'a = nat])
  have "unat (of_nat x :: u32) = x" "unat (of_nat (2 ^ k * y) :: u32) = 2 ^ k * y"
    "unat (of_nat (x + 2 ^ k * y) :: u32) = x + 2 ^ k * y"
    unfolding unat_of_nat using assms(2) by simp_all
  then show "unat ((of_nat x :: u32) OR of_nat (2 ^ k * y)) = unat (of_nat (x + 2 ^ k * y) :: u32)"
    unfolding unsigned_or_eq using or_range [OF assms(1), of y] by (simp only:)
qed

lemma of_nat_mod32: "(of_nat (n mod 2 ^ 32) :: u32) = of_nat n"
  by (rule unsigned_word_eqI [where ?'a = nat]) (simp add: unat_of_nat)

lemma word_join:
  assumes "x < 2 ^ k" and "k \<le> 32"
  shows "(of_nat x :: u32) OR push_bit k (of_nat y) = of_nat (x + 2 ^ k * y)"
proof -
  define z where "z = y mod 2 ^ (32 - k)"
  have k: "2 ^ k * 2 ^ (32 - k) = (2 :: nat) ^ 32" using assms(2) by (simp flip: power_add)
  have z: "2 ^ k * y mod 2 ^ 32 = 2 ^ k * z" unfolding z_def k [symmetric] by (rule mult_mod_right [symmetric])
  have "z + 1 \<le> 2 ^ (32 - k)" unfolding z_def using mod_less_divisor [of "2 ^ (32 - k)" y] by (simp add: Suc_le_eq)
  then have "2 ^ k * (z + 1) \<le> 2 ^ 32" unfolding k [symmetric] by (rule mult_le_mono2)
  then have "x + 2 ^ k * z < 2 ^ 32" using assms(1) by simp
  then have "(of_nat x :: u32) OR of_nat (2 ^ k * z) = of_nat (x + 2 ^ k * z)" by (rule or_of_nat32 [OF assms(1)])
  moreover have "(of_nat (2 ^ k * z) :: u32) = of_nat (2 ^ k * y)" unfolding z [symmetric] by (rule of_nat_mod32)
  ultimately show ?thesis unfolding push_of_nat by (simp only: of_nat_add)
qed

lemma pack_step:
  assumes "x < 2 ^ k" and "k + l = 32" and "m' = 4 + m"
  shows "nat_to_le m' (x + (2 ^ k * y + 2 ^ 32 * z)) =
    store32_le (of_nat x OR push_bit k (of_nat y)) @ nat_to_le m (y div 2 ^ l + z)"
proof -
  have k: "k \<le> 32" and "2 ^ 32 = 2 ^ k * (2 :: nat) ^ l" using assms(2) by (simp_all flip: power_add)
  moreover have "(x + 2 ^ k * y) div 2 ^ k = y" using assms(1) by simp
  ultimately have "(x + 2 ^ k * y) div 2 ^ 32 = y div 2 ^ l" by (simp only: div_mult2_eq)
  then show ?thesis unfolding word_join [OF assms(1) k] assms(3) add.assoc [symmetric] le_word_step by (simp only:)
qed

lemma tobytes_pack_num:
  assumes "n0 < 2 ^ 26" "n1 < 2 ^ 25" "n2 < 2 ^ 26" "n3 < 2 ^ 25" "n4 < 2 ^ 26"
    "n5 < 2 ^ 25" "n6 < 2 ^ 26" "n7 < 2 ^ 25" "n8 < 2 ^ 26" "n9 < 2 ^ 25"
  shows "tobytes_pack [int n0, int n1, int n2, int n3, int n4, int n5, int n6, int n7, int n8, int n9] =
    nat_to_le 32 (n0 + (2 ^ 26 * n1 + 2 ^ 32 * (2 ^ 19 * n2 + 2 ^ 32 * (2 ^ 13 * n3 + 2 ^ 32 * (2 ^ 6 * n4 + 2 ^ 32 *
      (n5 + (2 ^ 25 * n6 + 2 ^ 32 * (2 ^ 19 * n7 + 2 ^ 32 * (2 ^ 12 * n8 + 2 ^ 32 * (2 ^ 6 * n9))))))))))"
proof -
  have d: "drop_bit k (of_nat n :: u32) = of_nat (n div 2 ^ k)" if "n < 2 ^ 26" for k n
    using drop_of_nat32 [of n k] that by simp
  have n: "n1 < 2 ^ 26" "n3 < 2 ^ 26" "n7 < 2 ^ 26" using assms(2,4,8) by simp_all
  have q: "n1 div 2 ^ 6 < 2 ^ 19" "n2 div 2 ^ 13 < 2 ^ 13" "n3 div 2 ^ 19 < 2 ^ 6" "n6 div 2 ^ 7 < 2 ^ 19" "n7 div 2 ^ 13 < 2 ^ 12"
    "n8 div 2 ^ 20 < 2 ^ 6" "n4 div 2 ^ 26 = 0"
    using assms by (simp_all add: div_less_iff_less_mult)
  note p0 = pack_step [OF assms(1), of 6 32 28] and p1 = pack_step [OF q(1), of 13 28 24] and p2 = pack_step [OF q(2), of 19 24 20]
    and p3 = pack_step [OF q(3), of 26 20 16] and p4 = pack_step [OF assms(6), of 7 16 12] and p5 = pack_step [OF q(4), of 13 12 8]
    and p6 = pack_step [OF q(5), of 20 8 4]
  have p7: "nat_to_le 4 (n8 div 2 ^ 20 + 2 ^ 6 * n9) = store32_le (of_nat (n8 div 2 ^ 20) OR push_bit 6 (of_nat n9))"
    by (simp only: word_join [OF q(6)] store32_of_nat arith_simps)
  have w: "word_of_int (int k) = (of_nat k :: u32)" for k by simp
  show ?thesis unfolding tobytes_pack_def Let_def nth_ten w d [OF n(1)] d [OF n(2)] d [OF n(3)]
      d [OF assms(3)] d [OF assms(7)] d [OF assms(9)]
    by (simp only: p0 p1 p2 p3 p4 p5 p6 p7 q(7) add_0 arith_simps)
qed

lemma fe_tobytes_least:
  assumes "carried h"
  shows "fe_tobytes h = nat_to_le 32 (nat (fval h))"
proof -
  obtain t0 t1 t2 t3 t4 t5 t6 t7 t8 t9 where h: "h = [t0, t1, t2, t3, t4, t5, t6, t7, t8, t9]"
    by (rule ten_limbs [OF limbs_in_len [OF assms]])
  note c = assms [unfolded h]
  obtain r0 r1 r2 r3 r4 r5 r6 r7 r8 r9 where
    r: "fst (tobytes_reduce h (tobytes_q h * 19)) = [r0, r1, r2, r3, r4, r5, r6, r7, r8, r9]"
    and v: "limb_val r0 r1 r2 r3 r4 r5 r6 r7 r8 r9 = (limb_val t0 t1 t2 t3 t4 t5 t6 t7 t8 t9 + tobytes_q h * 19) mod 2 ^ 255"
    and b: "\<forall>r \<in> {r0, r2, r4, r6, r8}. 0 \<le> r \<and> r < 2 ^ 26" "\<forall>r \<in> {r1, r3, r5, r7, r9}. 0 \<le> r \<and> r < 2 ^ 25"
    unfolding h by (rule tobytes_reduce_canonical)
  have "limb_val r0 r1 r2 r3 r4 r5 r6 r7 r8 r9 = fval h"
    unfolding v h tobytes_q_sign [OF c] reduced_value [OF carried_range(2) [OF c]] by (simp only: fval_def fe_val_ten)
  moreover obtain n0 n1 n2 n3 n4 n5 n6 n7 n8 n9 where
    n: "r0 = int n0" "r1 = int n1" "r2 = int n2" "r3 = int n3" "r4 = int n4"
      "r5 = int n5" "r6 = int n6" "r7 = int n7" "r8 = int n8" "r9 = int n9"
    using b zero_le_imp_eq_int by (metis insertCI)
  moreover have l: "n0 < 2 ^ 26" "n1 < 2 ^ 25" "n2 < 2 ^ 26" "n3 < 2 ^ 25" "n4 < 2 ^ 26"
    "n5 < 2 ^ 25" "n6 < 2 ^ 26" "n7 < 2 ^ 25" "n8 < 2 ^ 26" "n9 < 2 ^ 25"
    using b unfolding n by simp_all
  ultimately have "nat (fval h) = n0 + (2 ^ 26 * n1 + 2 ^ 32 * (2 ^ 19 * n2 + 2 ^ 32 * (2 ^ 13 * n3 + 2 ^ 32 * (2 ^ 6 * n4 + 2 ^ 32 *
      (n5 + (2 ^ 25 * n6 + 2 ^ 32 * (2 ^ 19 * n7 + 2 ^ 32 * (2 ^ 12 * n8 + 2 ^ 32 * (2 ^ 6 * n9)))))))))"
    by (simp add: limb_val_def)
  then show ?thesis unfolding fe_tobytes_def r n tobytes_pack_num [OF l] by (simp only:)
qed

end
