(* ===== verification/Certificate.thy ===== *)
theory Certificate
  imports Primality
begin

text \<open>
  A certificate that \<open>2^255 - 19\<close> is prime: a chain of primes, each the large factor of the next minus one, with an
  element of that order. The quotients of the reductions are given, so that every step of a power is one square or
  product and one subtraction. The powers of two modulo the last prime are reduced by folding.
\<close>

section \<open>The chain of certificates\<close>

lemma prime_u: "is_prime 991"
  by (rule trial_division [where k = 31]) (simp, simp, code_simp, simp)

definition prime_t_steps :: "pow_step list" where
"prime_t_steps = [Sq 1376726, Mu 774522, Sq 6625813, Mu 1193242, Sq 7747497, Mu 2012303, Sq 5368926, Sq 3398944, Mu
   2148569, Sq 234153, Mu 195630, Sq 4909068, Mu 772774, Sq 2958046, Mu 2456714, Sq 6872110, Mu 1307045]"

lemma prime_t_steps_run: "chain 8574133 3435729 prime_t_steps 3435729 =
    1"
  unfolding prime_t_steps_def by (simp only: chain_simps)

lemma prime_t_exp: "chain_exp (prime_t_steps) 1 = 991"
  by (simp only: prime_t_steps_def exp_simps)

lemma prime_t: "is_prime 8574133"
proof (rule pocklington [OF prime_u, where m = 8652])
  let ?b = "3435729 :: int"
  have "chain 8574133 ?b (prime_t_steps) ?b = 1"
    by (simp only: chain_append prime_t_steps_run)
  then have "?b ^ chain_exp (prime_t_steps) 1 mod 8574133 = 1" by (rule chain_one) simp
  then show "?b ^ nat 991 mod 8574133 = 1"
    by (simp only: prime_t_exp nat_numeral)
  show "(?b - 1) * 1014251 mod 8574133 = 1" by simp
qed simp_all

definition prime_s_steps :: "pow_step list" where
"prime_s_steps = [Sq 585276009466472, Sq 74596583223300, Sq 10851953017714, Sq 16458659019002, Sq 526881666920155, Sq
   1521329548793915, Mu 91190502356579, Sq 314199499905003, Sq 1561746025954846, Mu 351843686631655, Sq
   1871022815267149, Mu 66430821239896, Sq 117050771264077, Sq 406621672129529, Mu 1028621161746300, Sq
   1717197400666580, Sq 274161398760401, Mu 168068390712382, Sq 624453378483741, Sq 1874187831867743, Sq
   1113345060731486, Mu 657932870742959, Sq 1653580215887711, Sq 248479878550901, Mu 91051799940749, Sq
   154878903173901, Mu 606879580462158, Sq 50199675054245, Sq 281262561783692, Mu 632990297738272, Sq
   1288791759499647, Sq 480123057488833, Mu 448814534773895]"

lemma prime_s_steps_run: "chain 1919519569386763 1059928654987441 prime_s_steps 1059928654987441 =
    1"
  unfolding prime_s_steps_def by (simp only: chain_simps)

lemma prime_s_exp: "chain_exp (prime_s_steps) 1 = 8574133"
  by (simp only: prime_s_steps_def exp_simps)

lemma prime_s: "is_prime 1919519569386763"
proof (rule pocklington [OF prime_t, where m = 223873314])
  let ?b = "1059928654987441 :: int"
  have "chain 1919519569386763 ?b (prime_s_steps) ?b = 1"
    by (simp only: chain_append prime_s_steps_run)
  then have "?b ^ chain_exp (prime_s_steps) 1 mod 1919519569386763 = 1" by (rule chain_one) simp
  then show "?b ^ nat 8574133 mod 1919519569386763 = 1"
    by (simp only: prime_s_exp nat_numeral)
  show "(?b - 1) * 1290547218147893 mod 1919519569386763 = 1" by simp
qed simp_all

definition prime_r_steps :: "pow_step list" where
"prime_r_steps = [Sq 42682667773232268908414017687438046, Mu 43167941454978631853885532493949764, Sq
   1704804192405731279737627904507422, Sq 322393624243290837381199608455, Mu 17242930842531343492042401309098551, Sq
   754658628359550589924993813264442, Mu 44885053517926231977951274358462984, Sq 25422203068193056891041644502487381,
   Sq 34407740899438114764535399580280571, Mu 54734475141785150176454090562513827, Sq
   9808163637598135403272131796267207, Sq 2603502244084601673036428407930800, Sq 18133012002749197640021129008412144,
   Sq 68488320487820852693680135519074494, Mu 35691285335268854832693215772895031, Sq
   26698749989116566583575785553969701, Mu 30829578000266422385391535031786900, Sq 3115771156118959595468564969629432,
   Mu 29695408078762780592442511714877699, Sq 730616304749782310959424184321, Sq 68207756706945927034860657168529418,
   Sq 3366722188364485494000464704922514, Mu 32817123564796105957546781321704412, Sq
   766695770156751960061421594445302, Sq 72953358783499368629595614446925480, Mu 22448103304257207187218578648877541,
   Sq 559461975150145453687258686838385, Sq 24017947105189956925118291322555313, Mu
   40291180958917862938427239325921830, Sq 894789392291130386748223669787196, Mu 22348400038553320152252583613025332,
   Sq 3396362144726706123781895481899201, Mu 22945342578498811126148818162058805, Sq
   1224216534602642292381448468437180, Mu 49516226855366120671909334056079781, Sq 69387732586316482150369421071802866,
   Mu 51449853075928900328024514284640737, Sq 3167647752087569441554968090963106, Sq
   944815024393513024985962526866608, Mu 10271198633307099535452332332253414, Sq 1613479781328479465639793051223655,
   Sq 2641738950619894507590785452807825, Sq 37526914823943958910080381260554357, Sq
   26871925135651925933812383086651105, Sq 30446519833863040573779245929834467, Mu
   21158231927495784635471207646264028, Sq 9440080022894247132141175071273717, Sq 24050643229381293002752198397144717,
   Sq 19054431800903764400105031593211033, Mu 18603328427563793255683330482902394, Sq
   2013370752222354783810455807157140, Sq 1003326754032217339821580787477747, Mu 47958030347309184641852713906083014,
   Sq 27693560414414528431216449307394349, Sq 62114115077357068251183257580271704, Sq
   6495149359602180723693337486668727, Mu 56602068603462949642767972201015117, Sq 2581947600107605706462303626171683,
   Mu 36668384451806535047313919122866432, Sq 55479759697138254179825709808748625, Mu
   30785058154398312611651986303205923, Sq 27117305289104624766705239956373212, Sq
   31709738843901400648792627658332937, Mu 37315475900659884539699508020469460, Sq
   68391263965941036794183684091547211, Sq 15634116355205325020052829918971681, Sq
   21061015730378805098826059511387286, Sq 3977212407571928205963724511970200, Sq 2065687892958114948186276876399224,
   Mu 19348241911641249879669491713674382, Sq 39431463799781294555109685238030663, Sq
   10569202816768767948240748534860388, Mu 43815776709512256766166920489406651, Sq
   37984406223556856190287473984044584, Mu 49240474670391259850952302711305239]"

lemma prime_r_steps_run: "chain 75445702479781427272750846543864801 56747016255153332959347766392083459 prime_r_steps 56747016255153332959347766392083459 =
    1"
  unfolding prime_r_steps_def by (simp only: chain_simps)

lemma prime_r_exp: "chain_exp (prime_r_steps) 1 = 1919519569386763"
  by (simp only: prime_r_steps_def exp_simps)

lemma prime_r: "is_prime 75445702479781427272750846543864801"
proof (rule pocklington [OF prime_s, where m = 39304471641247389600])
  let ?b = "56747016255153332959347766392083459 :: int"
  have "chain 75445702479781427272750846543864801 ?b (prime_r_steps) ?b = 1"
    by (simp only: chain_append prime_r_steps_run)
  then have "?b ^ chain_exp (prime_r_steps) 1 mod 75445702479781427272750846543864801 = 1" by (rule chain_one) simp
  then show "?b ^ nat 1919519569386763 mod 75445702479781427272750846543864801 = 1"
    by (simp only: prime_r_exp nat_numeral)
  show "(?b - 1) * 74602835786463724888147869570305675 mod 75445702479781427272750846543864801 = 1" by simp
qed simp_all

definition prime_q_steps1 :: "pow_step list" where
"prime_q_steps1 = [Sq 65205092805010724058509481693911802619497405283393978071762564183930444, Mu
   67108776754716563558359131737122969815423170650741816270466108813239670, Sq
   48754033455787053227143250412045333334252480844947036772933228974055733, Mu
   16062869737830452286135292225366587270596661777555495181428833768230351, Sq
   1992044547522082840579823863848383951479760126893298429157976816839057, Sq
   77495087822445039079237264852361491862349524716315893842090587760477, Mu
   14353425086282504865737892801806681191071694404662773140019397762072761, Sq
   25811195467384353434457944471153312082667498091259637099023528689681779, Sq
   39586705650244590695114303733652350290825800877551089867879372803562923, Sq
   1719359524721729166941880383596714815496190213261955054039419103370057, Sq
   57059728776402460545016788136365993048673996778021577359657008303012132, Sq
   5254082551642884870011616403604822228042039257669484825247234726285907, Mu
   11664012020694149654050661273693827585045177861513306420757057816684433, Sq
   3671169224758582565215260573731736558182603699177323017635958900429533, Mu
   8720186023837842309767968243216656650878169910138828063952753679830250, Sq
   49457816986520061052599828384610406585150744543594384139565917418218757, Mu
   58785274864172564978238097271020834217664697322979236184322714387021570, Sq
   3227023997730027750792216689738321783827199670966315820861771213203059, Mu
   26610247660490374552054940016104018364878402077384779744687697381681945, Sq
   11276933891097541106464235840547451075223872140517113775716415003063673, Mu
   57875955052131959558502596530324751273525002035917155990402107957411303, Sq
   26602779239921558788100578704185384953606828239746201324354901174354861, Sq
   47368825971504306033897494700467706248979121775547851107423351671733895, Sq
   33741417690624116755479172582783739043935572728498516834502474980944029, Sq
   19152177423829149052695310406872935094047919710772752700298999907421803, Sq
   68030315171967995624612023372973203793377214663234964543718524123344646, Mu
   49025061969894815286382672160878370128335376781274009396112150831644401, Sq
   3246073522717165390452652653399498760296061110700142160580998009540588, Sq
   67685711579467504042020316749784514532869345476316547024711972559743930, Mu
   37219694950425653862102296185332327637520676949714989786509485013580225]"

lemma prime_q_steps1_run: "chain 74058212732561358302231226437062788676166966415465897661863160754340907 69490809710348678725736597923071784769591275419387514694139338586948360 prime_q_steps1 69490809710348678725736597923071784769591275419387514694139338586948360 =
    3813330949319903746706357158824799547867432834979888866162030837075565"
  unfolding prime_q_steps1_def by (simp only: chain_simps)

definition prime_q_steps2 :: "pow_step list" where
"prime_q_steps2 = [Sq 196352199067417461586538443491426526047572085524668185936767153628965, Sq
   40043779383283579835539427345705655331709482317719760620099548571901320, Mu
   23539675661558012232298456547767905733907991314407689878651609924483279, Sq
   24985600616398588476382660049299169997743606881761720902256868822427871, Sq
   28013885066242269479414017535318597878811308220692180015997314870649215, Sq
   34249023559248143987794474991313829488921458333334835164171686982698733, Mu
   7561146440667794974608053673946236214971220586135317968429200450155468, Sq
   12265475625868077988065236866554469718489044089065477196321414362409142, Sq
   26689041771813581363380054609209693809111114489788329739337277570061037, Sq
   16499872207280321900179574448284649955831219928363297244469708580385072, Sq
   9890158973842764382112685306967015267831400813015361299506339412315039, Mu
   51216118948826337561448492802124399820274916464456518651862656646570861, Sq
   8189918376804531515019646162821105934229566551986171142858254659619616, Mu
   25983430764161101014843601966375779213667230034178689103714190041938609, Sq
   15119421676554684452994739473067336927314888216892096428379405400378566, Mu
   57606319428775264901460797103922311334590154155581923553275258987235413, Sq
   49460243766368912895369284531014703936433329475250143928248516387071258, Sq
   59703783316854360543473686271218222885712683409227846422244892485008601, Mu
   23595946996193845935960268753943988643992004739927462772895180512696304, Sq
   263564422116533214393332283404658758901866257377273961427067469841220, Mu
   67208599099045115917747962944181933971886561148223622861679083926670477, Sq
   66214005086249253360918057493976021345058515020597983734481941087258877, Mu
   15018689340246172964656092481139191702453203241408251988468295986589023, Sq
   369778876740107772530320027032034935752067621280820209089429776356115, Mu
   16431989887486870082753651452953517014627514238468363765682353232225426, Sq
   46624889278103816124299780701435866171754795843127711460850521153151417, Sq
   1121945544442864793568882036408278439350928599833624924415931836106136, Mu
   2526661726763840876788438902282405926214657634834609147754987782055538, Sq
   42001011064232579314635855604726054825791334143320717714621909947461369, Mu
   24775668487527579274730279228878205837523061080061206676130742974624860]"

lemma prime_q_steps2_run: "chain 74058212732561358302231226437062788676166966415465897661863160754340907 69490809710348678725736597923071784769591275419387514694139338586948360 prime_q_steps2 3813330949319903746706357158824799547867432834979888866162030837075565 =
    28155963719885292663869233263185011440794308128056499501030933989264660"
  unfolding prime_q_steps2_def by (simp only: chain_simps)

definition prime_q_steps3 :: "pow_step list" where
"prime_q_steps3 = [Sq 10704529096027493516037434422122975800621396136341392691888139893058473, Mu
   67576053677180330616629943233089163057864940632717198085502128324908644, Sq
   20568886201696959215637305926335050245365419721114267411974152033892708, Sq
   14594552379243094315235564341915492122223041191843309119298066224582439, Sq
   856224790580052648252299607152212072189013623184275505554596131482877, Sq
   13403013605414843918867045137427116402619455850082241461207262329311297, Sq
   3679275102475609907240638876579281944543892446948478182562086072149, Sq
   54657292555168066080301140898266457306844266982155826042111064728784748, Sq
   42738964943021804069947805343069192078977057644627253621634363969057860, Mu
   56205855445438440236647810987738117080710262840673622649599182826979733, Sq
   21167059843573265940468394185102077516431699487291598051644216090572862, Sq
   4887397071614313035138393844401345559971169193937482126138499577974131, Mu
   18583681278401715142462043954640822404743085539767961164081728777971741, Sq
   471133309775613513804156902465727190351247947935434179165677761001309, Sq
   49732110164126861449830064672323737440126069532694360385137330888591845, Mu
   22821544648871855760513227236970689698521603379489326161688890430263565, Sq
   10821354606241405317794069652878288959864772123749136179126587037146337, Mu
   63094737944137360166187736190325576317940489773958894676842222411024999, Sq
   49493950184732922062618604491832068055065704410839160204936910378105841, Sq
   9229230604839820148052983257870110306586399473899350493420252141743732, Mu
   67340915076543384513009003184130505597310359112906807477410026726079663, Sq
   3074592691184918147012371785573497143633698834739218891079059484857158, Sq
   8708192061399118207022194496784019117026021617358432798585932307902202, Sq
   2167227369559085140387686768707649366183382497312460294858956601574189, Sq
   41501344011055878027643310336518411140250074860301155159649017640292832, Sq
   31316633190646780728872806054252730655893188300041124740030491933550437, Mu
   27441812164163053134291350223640052757847712613260698417090983914692235, Sq
   373969890312900118544229126412572430169734908288163451271111946862383, Sq
   38688609440843711594316916478688868534955272662912979965440702112866707, Mu
   54317239511560344076899158100271338562567700196816271730110459001874524]"

lemma prime_q_steps3_run: "chain 74058212732561358302231226437062788676166966415465897661863160754340907 69490809710348678725736597923071784769591275419387514694139338586948360 prime_q_steps3 28155963719885292663869233263185011440794308128056499501030933989264660 =
    28741354823994296104102599167852568318234805925763761286590825576274052"
  unfolding prime_q_steps3_def by (simp only: chain_simps)

definition prime_q_steps4 :: "pow_step list" where
"prime_q_steps4 = [Sq 11154272384371786707675360186922517067854776095864250549691304733472193, Mu
   9753884413545468491735223752452997229226578631209222447755767141750354, Sq
   66745213961716712285034807504196165748305986619441218882659596756894301, Mu
   26689592992122105573968516746931357266504905926683550465438161709441499, Sq
   495573918218776861380724171170418784838998889059210415490969498773328, Mu
   60640824705736395538887086456924856282947218605859274906178996780823542, Sq
   989704628073063231095820929019139151043285892299353321348922055185932, Sq
   18267759353532207287850845191533534497452139509581697424459241542928740, Sq
   5122671840209806959243918648614486318311731927635657571519742729909160, Mu
   16066525013127683941679139187632153290609120369601453348169778737255281, Sq
   15184578705937526338526358130788060576123757098324868410199272675449356, Sq
   35975334465651789807785177244734236811536386770838770066952163788661616, Sq
   739274289414022646774464145240794244789092288023062619159609308135695, Mu
   31543624804143795401372149552915992081545793673204590011312017661732400, Sq
   475385250379037911428009816078093438984740553851885802262762110947451, Mu
   13452116438780701927195980153696448685219192449278152595987828510904498, Sq
   36466999030324605872082704842055594744717493798636621540665652048406948, Sq
   55004364641658049268359706502261789168972459018865883579382640152360359, Mu
   21829330322759278034277462956182953248690603805369642106925978877366230, Sq
   1861417083375131924960273513537136971098806446276249139986536237447695, Mu
   35391430490981821719144748504152791201964658868197925618944096232753167, Sq
   47367715441001941765585224182725185753889923557605212507899915190210918, Mu
   12674574165301964505604330386436462672418603274578541889088401142548999, Sq
   46415819834257952514320518238710910999477737200338844505459032051911712, Mu
   36650037069100384833547429129123105587514032731558891090824558060714992, Sq
   1246914328207901965502055734768863998105084011736624059396702840171716, Sq
   411163978793913020809755564137080449168040554734500982072209574661681, Sq
   20680203824837290405677642799755814983843657334489347001551863326444898, Sq
   75029254196689794430275267164123708730657508367121999897084790701015, Sq
   66256509922562041776007394466599533436829780029580822964288723670445917]"

lemma prime_q_steps4_run: "chain 74058212732561358302231226437062788676166966415465897661863160754340907 69490809710348678725736597923071784769591275419387514694139338586948360 prime_q_steps4 28741354823994296104102599167852568318234805925763761286590825576274052 =
    21096274322495181654056228316694004908583996016909017325399247074749681"
  unfolding prime_q_steps4_def by (simp only: chain_simps)

definition prime_q_steps5 :: "pow_step list" where
"prime_q_steps5 = [Mu 19795200700236032567627679408872024934274778346093238382124088317352464, Sq
   3617414423056635936164762571874875245632601679595711958371020546856789, Mu
   54619076298411294535919018338255534466571299997354744143184092305831927, Sq
   71314974975200237269576219547222593489964896670541065193354625386437375, Mu
   5605000442312209084657542412497824648948151226264505795909561492386768, Sq
   25524501183175336964893809329725528581276922837225211827632694692920017, Sq
   67545246814914206555510569272041410566927562837474306531880467245350535, Sq
   2433811652954976446060677822264118504712033849679919066133967844411249, Mu
   19573171462138868370597061816294790746578931010824396237925858755621860, Sq
   58597769147144158860280490858118705987368021379214692177348956682345935, Mu
   50978107636977944895883400349337756630531496002185406468732525757895695, Sq
   11162313869968576515117901105762276234650500029858282335513160301618019, Mu
   26021926029705267306572385665179760247177316692952380056917083498482706, Sq
   32485039313650495733778635901500989062662224396470847936228617904626554, Sq
   12015572869932427919200703816676405295190818850461994554887197143694409, Sq
   67645410464056020291764130372201244713728318268693952233537681964055978, Mu
   4481464758201904612982906281703871931913990366860139741262820846553342, Sq
   2404181834683087747573735740496693382824306071752325178736159234308968, Sq
   12911890733443662437870278040266188928121363695954865311490784876767423, Mu
   61867585502088436564056292990031118840903759777216446308235688345952388, Sq
   7395346814834053161877071080853646497522339231157375605502364060337947, Sq
   5574733482811244416150700755546758509533645355876461549431049288844139, Mu
   8461816785630873519629144540758674407849527313528842800763268139437516, Sq
   73063314519516522595067256047994990589025411354408059274244836846212388, Mu
   55585556555868434557961957481260651888940438833367041915890425569110408, Sq
   41480766939531886757752126080578861010283027324772500907309750197605960, Sq
   49395696636338470509773213147369423275155950816694401315599061755072271, Mu
   26321995030059542187392211992399305672098535795321082300499076396491368, Sq
   22535225817822580475519486307097207275372423197513404460453010476385460, Mu
   30436625674361816423063821037764902312924634725134499166843372323385690]"

lemma prime_q_steps5_run: "chain 74058212732561358302231226437062788676166966415465897661863160754340907 69490809710348678725736597923071784769591275419387514694139338586948360 prime_q_steps5 21096274322495181654056228316694004908583996016909017325399247074749681 =
    15151217314024759360594537935714382483680489456364192473979144464918530"
  unfolding prime_q_steps5_def by (simp only: chain_simps)

definition prime_q_steps6 :: "pow_step list" where
"prime_q_steps6 = [Sq 3099715448518685330731312581106687872287884043853220667458884116402562, Sq
   20801555119138840270325815258914311696646353856782977944637692196616791, Sq
   4402266398855072408339201084159379108419914924117673180691019192438839, Mu
   41274422245873464419576769973861877198521597167538645368041074959575125, Sq
   30367920777232129737365332987832592167098977868788655489964996288999037, Sq
   11298777996592259094026465602406538519439907213081122675098930372451111, Sq
   47827324963318527226872765211885122871788173377908600896210549462544749, Sq
   14866586650519854300916907170797561111957928368969584812869041382607893, Mu
   22355399220105113948387135333194952395221317176037053679233075792785398, Sq
   20002206472258976189974690351086820492846459329747843790756595422885157, Mu
   45412459443297955005665002142502904683064377528452142724603826936777894, Sq
   70868603250153519378692636054206735112269282144954987635334025317336552, Mu
   7465074707932490213541332621627190996967475363880004591218042675552023, Sq
   6094822037954634333781480133724469997040453822377760382967329043139679, Mu
   9134943146323052919360786964091734127958690349699166205912217736325330, Sq
   2249738784554913891590711062235887986955683583338371044713315653267054, Mu
   38018361285673923921986679794750033810570273275652288554627546840233233, Sq
   101817610682277321359453038157104900226200602485406133978052427895134, Sq
   62272853866573745222688651779577081439260343594998990237507930535249240, Sq
   20839886359199365023455090999758192084558698981523213750387234013997285, Sq
   445583823130102042323416983019884121463496204912738054085708061107101, Sq
   761836012509048889151232221825974324058459990596777649045071413693108, Mu
   63164892100600648141694461383294205373336902973130516144913564536463157]"

lemma prime_q_steps6_run: "chain 74058212732561358302231226437062788676166966415465897661863160754340907 69490809710348678725736597923071784769591275419387514694139338586948360 prime_q_steps6 15151217314024759360594537935714382483680489456364192473979144464918530 =
    1"
  unfolding prime_q_steps6_def by (simp only: chain_simps)

lemma prime_q_exp: "chain_exp (prime_q_steps1 @ prime_q_steps2 @ prime_q_steps3 @ prime_q_steps4 @ prime_q_steps5 @ prime_q_steps6) 1 = 75445702479781427272750846543864801"
  by (simp only: prime_q_steps1_def prime_q_steps2_def prime_q_steps3_def prime_q_steps4_def prime_q_steps5_def prime_q_steps6_def exp_simps)

lemma prime_q: "is_prime 74058212732561358302231226437062788676166966415465897661863160754340907"
proof (rule pocklington [OF prime_r, where m = 981609426360740691344999861639072106])
  let ?b = "69490809710348678725736597923071784769591275419387514694139338586948360 :: int"
  have "chain 74058212732561358302231226437062788676166966415465897661863160754340907 ?b (prime_q_steps1 @ prime_q_steps2 @ prime_q_steps3 @ prime_q_steps4 @ prime_q_steps5 @ prime_q_steps6) ?b = 1"
    by (simp only: chain_append prime_q_steps1_run prime_q_steps2_run prime_q_steps3_run prime_q_steps4_run prime_q_steps5_run prime_q_steps6_run)
  then have "?b ^ chain_exp (prime_q_steps1 @ prime_q_steps2 @ prime_q_steps3 @ prime_q_steps4 @ prime_q_steps5 @ prime_q_steps6) 1 mod 74058212732561358302231226437062788676166966415465897661863160754340907 = 1" by (rule chain_one) simp
  then show "?b ^ nat 75445702479781427272750846543864801 mod 74058212732561358302231226437062788676166966415465897661863160754340907 = 1"
    by (simp only: prime_q_exp nat_numeral)
  show "(?b - 1) * 70463328703800545008217672123162676565183935400628861884889913886334520 mod 74058212732561358302231226437062788676166966415465897661863160754340907 = 1" by simp
qed simp_all

lemma run1: "pow_run 42 2 =
    46131046929608509272025581854558611791457008173809605434919116803945800816936"
  by (simp only: run_simps)

lemma run2: "pow_run 42 46131046929608509272025581854558611791457008173809605434919116803945800816936 =
    34173355633475482035240025096660577257963197104544359244241478442929630901715"
  by (simp only: run_simps)

lemma run3: "pow_run 42 34173355633475482035240025096660577257963197104544359244241478442929630901715 =
    50503907384779849179363696987365820920550266664725850379172394941928600753056"
  by (simp only: run_simps)

lemma run4: "pow_run 41 50503907384779849179363696987365820920550266664725850379172394941928600753056 =
    43360846569293993820275693050384192156330769926392333168517301831384209752435"
  by (simp only: run_simps)

lemma run5: "pow_run 41 43360846569293993820275693050384192156330769926392333168517301831384209752435 =
    24779736756518239262134786564833979098176951288651987557576585047857040035462"
  by (simp only: run_simps)

lemma run6: "pow_run 41 24779736756518239262134786564833979098176951288651987557576585047857040035462 =
    57692109581687170544952182944730090749826224675958039702824471609347838771772"
  by (simp only: run_simps)

lemma last_steps:
  "pow_bits [False, True, True, False, False]
     57692109581687170544952182944730090749826224675958039702824471609347838771772 = p25519 + 1"
  by (simp only: run_simps arith_simps)

text \<open>\<open>2\<close> to the power \<open>2^255 - 20\<close>.\<close>

lemma two_pow: "2 ^ (2 ^ 255 - 20) mod p25519 = 1"
proof -
  define a where "a = pow_run 41 (pow_run 41 (pow_run 41 (pow_run 42 (pow_run 42 (pow_run 42 2)))))"
  have "(2 :: int) mod p25519 = 2 ^ (2 ^ 1 - 1) mod p25519" by simp
  then have "a mod p25519 = 2 ^ (2 ^ (1 + 42 + 42 + 42 + 41 + 41 + 41) - 1) mod p25519"
    unfolding a_def by (intro pow_run_mod)
  moreover have "1 + 42 + 42 + 42 + 41 + 41 + 41 = (250 :: nat)" by simp
  ultimately have "a mod p25519 = 2 ^ (2 ^ 250 - 1) mod p25519" by (simp only:)
  from pow_bits_mod [OF this] have "pow_bits [False, True, True, False, False] a mod p25519 =
    2 ^ bits_exp [False, True, True, False, False] (2 ^ 250 - 1) mod p25519" .
  moreover have "a = 57692109581687170544952182944730090749826224675958039702824471609347838771772"
    unfolding a_def by (simp only: run1 run2 run3 run4 run5 run6)
  moreover have "bits_exp [False, True, True, False, False] (2 ^ 250 - 1) = 2 ^ 255 - 20" by simp
  ultimately have "2 ^ (2 ^ 255 - 20) mod p25519 = (p25519 + 1) mod p25519" by (simp only: last_steps)
  also have "\<dots> = 1" by simp
  finally show ?thesis .
qed

text \<open>\<open>2\<close> to the power \<open>781764\<close>, an element of the order of the large prime.\<close>

definition small_exp :: "bool list" where
  "small_exp = [False, True, True, True, True, True, False, True, True, False,
     True, True, True, False, False, False, True, False, False]"

lemma small_exp_run: "pow_bits small_exp 2 = 427094198651976259540344842774561673889945192655078505504941250475370961481"
  unfolding small_exp_def by (simp only: run_simps)

lemma two_pow_small: "(2 :: int) ^ 781764 mod p25519 = 427094198651976259540344842774561673889945192655078505504941250475370961481"
proof -
  have "(2 :: int) mod p25519 = 2 ^ 1 mod p25519" by simp
  then have "pow_bits small_exp 2 mod p25519 = 2 ^ bits_exp small_exp 1 mod p25519" by (rule pow_bits_mod)
  moreover have "bits_exp small_exp 1 = 781764" by (simp add: small_exp_def)
  ultimately have "(2 :: int) ^ 781764 mod p25519 = 427094198651976259540344842774561673889945192655078505504941250475370961481 mod p25519" by (simp only: small_exp_run)
  also have "\<dots> = 427094198651976259540344842774561673889945192655078505504941250475370961481" by simp
  finally show ?thesis .
qed

theorem prime_25519: "is_prime p25519"
proof (rule pocklington [OF prime_q, where m = 781764])
  let ?b = "427094198651976259540344842774561673889945192655078505504941250475370961481 :: int"
  have "nat 74058212732561358302231226437062788676166966415465897661863160754340907 * 781764 = 2 ^ 255 - 20" by simp
  then have "(2 ^ 781764) ^ nat 74058212732561358302231226437062788676166966415465897661863160754340907 mod p25519 = 1"
    using two_pow by (simp only: power_mult [symmetric] mult.commute)
  then show "?b ^ nat 74058212732561358302231226437062788676166966415465897661863160754340907 mod p25519 = 1"
    using power_mod [of "2 ^ 781764" p25519 "nat 74058212732561358302231226437062788676166966415465897661863160754340907"] by (simp only: two_pow_small)
  show "(?b - 1) * 55540832096118778044507775605005710249233119951144946814680141076505643269084 mod p25519 = 1" by simp
qed simp_all

end
