(* ===== verification/FieldInverse.thy ===== *)
theory FieldInverse
  imports X25519 FieldBytes Certificate
begin

text \<open>
  Inversion in the field, \<open>invsqrt\<close> and \<open>fe_invert\<close> of \<open>library/crypto/monocypher.c\<close>: the chain of squares and
  products computes the power \<open>(p - 5) / 8\<close>, the comparison with \<open>-1\<close> decides between the two candidates of the inverse
  square root, and the result is the power \<open>p - 2\<close>. The last step needs that \<open>p\<close> is prime.
\<close>

unbundle bit_operations_syntax

section \<open>Comparison\<close>

lemma le_num_nat: "n < 256 ^ k \<Longrightarrow> le_num (nat_to_le k n) = n"
proof (induction k arbitrary: n)
  case (Suc k)
  then have "n div 256 < 256 ^ k" by (simp add: div_less_iff_less_mult mult.commute)
  then show ?case using Suc.IH [of "n div 256"] by (simp add: unat_of_nat)
qed simp

lemma tobytes_inj:
  assumes "carried f" and "carried g"
  shows "fe_tobytes f = fe_tobytes g \<longleftrightarrow> fval f = fval g"
proof
  have "nat (fval h) < 256 ^ 32" for h using fval_range [of h] by (simp add: nat_less_iff)
  moreover assume "fe_tobytes f = fe_tobytes g"
  ultimately have "nat (fval f) = nat (fval g)" using assms by (metis fe_tobytes_least le_num_nat)
  then show "fval f = fval g" using fval_range [of f] fval_range [of g] by simp
qed (use assms in \<open>simp add: fe_tobytes_least\<close>)

lemma fe_isequal_val:
  assumes "carried f" and "carried g"
  shows "fe_isequal f g = (if fval f = fval g then 1 else 0)"
proof -
  have "length (fe_tobytes f) = 32" "length (fe_tobytes g) = 32" using assms by (simp_all add: fe_tobytes_least)
  then show ?thesis using assms by (simp add: fe_isequal_def verify32 tobytes_inj)
qed

section \<open>Powers\<close>

lemmas carried_len = limbs_in_len [of 33554432 16908288]

definition is_power :: "int \<Rightarrow> nat \<Rightarrow> fe \<Rightarrow> bool" where
  "is_power x e f \<longleftrightarrow> carried f \<and> fval f = x ^ e mod p25519"

named_theorems powers

lemma is_power_mul [powers]: "is_power x a f \<Longrightarrow> is_power x b g \<Longrightarrow> is_power x (a + b) (fe_mul f g)"
  unfolding is_power_def
  by (simp add: fe_mul_carried carried_loose fval_mul carried_len power_add mod_mult_eq del: fval_mod)

lemma is_power_sq [powers]: "is_power x a f \<Longrightarrow> is_power x (2 * a) (fe_sq f)"
  unfolding is_power_def mult_2
  by (simp add: fe_sq_carried carried_loose fval_sq carried_len power_add mod_mult_eq del: fval_mod)

lemma is_power_sqn [powers]: "is_power x a f \<Longrightarrow> is_power x (2 ^ n * a) (fe_sqn n f)"
proof (induction n)
  case (Suc n)
  then show ?case using is_power_sq [of x "2 ^ n * a" "fe_sqn n f"] by (simp add: fe_sqn_def mult.assoc)
qed (simp add: fe_sqn_def)

lemma pow_p58_power:
  assumes "is_power x 1 f"
  shows "is_power x (2 ^ 252 - 3) (pow_p58 f)"
proof -
  have "\<exists>e. is_power x e (pow_p58 f) \<and> e = 2 ^ 252 - 3"
    unfolding pow_p58_def Let_def by (rule exI, rule conjI, (rule powers assms)+) simp
  then show ?thesis by blast
qed

section \<open>The inverse\<close>

lemma sqrtm1_carried: "carried sqrtm1" "carried fe_0" "carried fe_1"
  by (simp_all add: limbs_in_def sqrtm1_def fe_0_def fe_1_def numeral_eq_Suc)

lemma fval_consts: "fval fe_0 = 0" "fval fe_1 = 1"
  by (simp_all add: fval_def fe_val_def limb_val_def fe_0_def fe_1_def)

lemma fval_sqrtm1: "fval sqrtm1 = 19681161376707505956807079304988542015446066515923890162744021073123829784752"
  by (simp add: fval_def fe_val_def limb_val_def sqrtm1_def)

lemma sqrtm1_square: "fval sqrtm1 * fval sqrtm1 mod p25519 = p25519 - 1"
  unfolding fval_sqrtm1 by simp

lemma is_power_base: "is_power (x ^ k) e f \<longleftrightarrow> is_power x (k * e) f"
  by (simp add: is_power_def power_mult)

lemma is_power_self: "carried f \<Longrightarrow> is_power (fval f) 1 f"
  by (simp add: is_power_def)

text \<open>
  The candidate that \<open>invsqrt\<close> returns for a square \<open>x^2\<close>. The comparison with \<open>- sqrtm1\<close> never holds for
  a square, whose quartic is a square root of one.
\<close>

lemma invsqrt_root:
  assumes f: "is_power x 2 f" and q: "x ^ (2 ^ 254 - 10) mod p25519 \<in> {0, 1, p25519 - 1}"
  shows "fst (invsqrt f) = (if x ^ (2 ^ 254 - 10) mod p25519 = p25519 - 1 then fe_mul (pow_p58 f) sqrtm1 else pow_p58 f)"
proof -
  let ?t = "pow_p58 f" and ?m = "fe_neg fe_1" and ?s = "fe_neg sqrtm1"
  define u where "u = fe_mul (fe_sq ?t) f"
  have "is_power (x ^ 2) 1 f" using f by (simp only: is_power_base mult_1_right)
  then have t: "is_power x (2 * (2 ^ 252 - 3)) ?t" by (simp only: pow_p58_power flip: is_power_base)
  have "is_power x (2 * (2 * (2 ^ 252 - 3)) + 2) u" unfolding u_def by (rule powers t f)+
  moreover have "2 * (2 * (2 ^ 252 - 3)) + 2 = 2 ^ 254 - (10 :: nat)" by simp
  ultimately have u: "carried u" "fval u = x ^ (2 ^ 254 - 10) mod p25519" by (simp_all only: is_power_def)
  have c: "carried ?m" "carried ?s" by (simp_all add: fe_neg_in sqrtm1_carried)
  have v: "fval ?m = p25519 - 1" "fval ?s = p25519 - 19681161376707505956807079304988542015446066515923890162744021073123829784752"
    using sqrtm1_carried by (simp_all add: fval_neg carried_len fval_consts fval_sqrtm1 zmod_minus1)
  have s: "fe_isequal u ?s = 0" using q unfolding u(2) [symmetric] by (auto simp: fe_isequal_val [OF u(1) c(2)] v)
  have m: "fe_isequal u ?m = (if fval u = p25519 - 1 then 1 else 0)" by (simp only: fe_isequal_val [OF u(1) c(1)] v)
  have "length (fe_mul ?t sqrtm1) = length ?t"
    using t sqrtm1_carried(1) fe_mul_carried [of ?t sqrtm1] by (simp add: is_power_def carried_loose carried_len)
  then have "fst (invsqrt f) = (if 1 - (fe_isequal u ?m OR fe_isequal u ?s) = 1 then ?t else fe_mul ?t sqrtm1)"
    by (simp add: invsqrt_def Let_def u_def [symmetric] fe_ccopy_bit s m)
  then show ?thesis unfolding u(2) [symmetric] by (simp add: s m)
qed

lemma quartic_cases: "x ^ (2 ^ 254 - 10) mod p25519 \<in> {0, 1, p25519 - 1}"
proof (cases "p25519 dvd x")
  case True
  then have "p25519 dvd x ^ (2 ^ 254 - 10)" by (rule dvd_trans) (rule dvd_power, simp)
  then show ?thesis by (simp only: dvd_eq_mod_eq_0 insert_iff simp_thms)
next
  case False
  have "p25519 - 1 = 2 * int (2 ^ 254 - 10)" by simp
  from euler [OF prime_25519 this False] show ?thesis by blast
qed

lemma mod_square_mult: "(a * b mod p) * (a * b mod p) mod p * c mod p = (a * a * c) * (b * b) mod (p :: int)"
proof -
  have "(a * b mod p) * (a * b mod p) mod p * c mod p = (a * b) * (a * b) * c mod p"
    by (intro mod_mult_cong) (simp_all only: mod_mult_eq mod_mod_trivial)
  then show ?thesis by (simp only: ac_simps)
qed

lemma fe_invert_square:
  assumes "is_power x 1 f"
  defines "u \<equiv> x ^ (2 ^ 254 - 10) mod p25519"
  shows "carried (fe_invert f)"
    "fval (fe_invert f) = x ^ (2 ^ 254 - 11) * (if u = p25519 - 1 then p25519 - 1 else 1) mod p25519"
proof -
  let ?t = "pow_p58 (fe_sq f)" and ?s = sqrtm1
  have sq: "is_power x 2 (fe_sq f)" using is_power_sq [OF assms(1)] by (simp only: mult_1_right)
  then have "is_power (x ^ 2) 1 (fe_sq f)" by (simp only: is_power_base mult_1_right)
  then have t: "is_power x (2 * (2 ^ 252 - 3)) ?t" by (simp only: pow_p58_power flip: is_power_base)
  have "is_power x (2 * (2 * (2 ^ 252 - 3)) + 1) (fe_mul (fe_sq ?t) f)" by (rule powers t assms(1))+
  moreover have "2 * (2 * (2 ^ 252 - 3)) + 1 = 2 ^ 254 - (11 :: nat)" by simp
  ultimately have w: "carried (fe_mul (fe_sq ?t) f)" "fval (fe_mul (fe_sq ?t) f) = x ^ (2 ^ 254 - 11) mod p25519"
    by (simp_all only: is_power_def)
  have c: "carried ?t" "carried f" "carried (fe_mul ?t ?s)" "carried (fe_sq ?t)" "carried (fe_sq (fe_mul ?t ?s))"
    using t assms(1) sqrtm1_carried(1) by (simp_all add: is_power_def fe_mul_carried fe_sq_carried carried_loose)
  have "fval (fe_mul (fe_sq (fe_mul ?t ?s)) f) = (fval ?t * fval ?t * fval f) * (fval ?s * fval ?s) mod p25519"
    using c sqrtm1_carried(1) by (simp only: fval_mul fval_sq carried_len mod_square_mult)
  also have "\<dots> = fval (fe_mul (fe_sq ?t) f) * (p25519 - 1) mod p25519"
    unfolding sqrtm1_square [symmetric] using c by (simp add: fval_mul fval_sq carried_len mod_simps del: fval_mod)
  finally have n: "fval (fe_mul (fe_sq (fe_mul ?t ?s)) f) = x ^ (2 ^ 254 - 11) * (p25519 - 1) mod p25519"
    unfolding w(2) by (simp only: mod_mult_left_eq)
  have e: "fe_invert f = fe_mul (fe_sq (if u = p25519 - 1 then fe_mul ?t ?s else ?t)) f"
    unfolding fe_invert_def Let_def invsqrt_root [OF sq quartic_cases] u_def ..
  show "carried (fe_invert f)" unfolding e using c by (simp add: fe_mul_carried carried_loose)
  show "fval (fe_invert f) = x ^ (2 ^ 254 - 11) * (if u = p25519 - 1 then p25519 - 1 else 1) mod p25519"
    unfolding e using n w(2) by (cases "u = p25519 - 1") (simp_all only: if_True if_False mult_1_right simp_thms)
qed

lemma fe_invert_val:
  assumes "carried f"
  shows "fval (fe_invert f) = fval f ^ (2 ^ 255 - 21) mod p25519"
proof -
  define x where "x = fval f"
  define u where "u = x ^ (2 ^ 254 - 10) mod p25519"
  have i: "fval (fe_invert f) = x ^ (2 ^ 254 - 11) * (if u = p25519 - 1 then p25519 - 1 else 1) mod p25519"
    using fe_invert_square(2) [OF is_power_self [OF assms]] by (simp only: x_def u_def)
  have "(2 :: nat) ^ 255 - 21 = (2 ^ 254 - 11) + (2 ^ 254 - 10)" by simp
  then have p: "x ^ (2 ^ 255 - 21) mod p25519 = x ^ (2 ^ 254 - 11) * u mod p25519"
    unfolding u_def by (simp only: power_add mod_mult_right_eq)
  have "x ^ (2 ^ 254 - 11) * u mod p25519 = x ^ (2 ^ 254 - 11) * (if u = p25519 - 1 then p25519 - 1 else 1) mod p25519"
  proof (cases "u = 0")
    case True
    then have "p25519 dvd x" unfolding u_def using prime_dvd_power [OF prime_25519] by (simp only: dvd_eq_mod_eq_0)
    then have "p25519 dvd x ^ (2 ^ 254 - 11)" by (rule dvd_trans) (rule dvd_power, simp)
    then have "x ^ (2 ^ 254 - 11) * k mod p25519 = 0" for k by (simp only: dvd_eq_mod_eq_0 [symmetric] dvd_mult2)
    then show ?thesis by (simp only:)
  next
    case False
    then show ?thesis using quartic_cases [of x] by (auto simp only: u_def [symmetric] insert_iff empty_iff simp_thms if_True if_False split: if_split)
  qed
  then show ?thesis using i p by (simp only: x_def)
qed

lemmas fe_invert_carried = fe_invert_square(1) [OF is_power_self]

end
