(* ===== verification/Rfc7748.thy ===== *)
theory Rfc7748
  imports FieldInverse
begin

text \<open>
  X25519 as RFC 7748 specifies it, on integers modulo \<open>2^255 - 19\<close>, and that \<open>crypto_x25519\<close> of
  \<open>library/crypto/monocypher.c\<close> computes it for every key and every point.
\<close>

unbundle bit_operations_syntax

section \<open>Specification\<close>

text \<open>
  The scalar has its lowest three bits and its highest bit cleared and bit 254 set; the coordinate has its highest bit
  cleared and is reduced, as values that are not must be accepted. One step of the ladder is a differential addition and a doubling, and the result is \<open>x2 / z2\<close>. The swap that
  the RFC delays to the next step is done after the step here.
\<close>

definition rfc_scalar :: "bytes \<Rightarrow> nat" where
  "rfc_scalar k = 2 ^ 254 + 8 * (le_num k mod 2 ^ 254 div 8)"

definition rfc_coordinate :: "bytes \<Rightarrow> int" where
  "rfc_coordinate u = int (le_num u mod 2 ^ 255) mod p25519"

definition rfc_step :: "int \<Rightarrow> int \<times> int \<times> int \<times> int \<Rightarrow> int \<times> int \<times> int \<times> int" where
  "rfc_step x1 = (\<lambda>(x2, z2, x3, z3).
     let A = (x2 + z2) mod p25519;
         AA = A * A mod p25519;
         B = (x2 - z2) mod p25519;
         BB = B * B mod p25519;
         E = (AA - BB) mod p25519;
         C = (x3 + z3) mod p25519;
         D = (x3 - z3) mod p25519;
         DA = D * A mod p25519;
         CB = C * B mod p25519
     in (AA * BB mod p25519, E * (AA + 121665 * E) mod p25519,
         (DA + CB) * (DA + CB) mod p25519, x1 * ((DA - CB) * (DA - CB)) mod p25519))"

definition rfc_swap :: "bool \<Rightarrow> int \<times> int \<times> int \<times> int \<Rightarrow> int \<times> int \<times> int \<times> int" where
  "rfc_swap b = (\<lambda>(x2, z2, x3, z3). if b then (x3, z3, x2, z2) else (x2, z2, x3, z3))"

text \<open>The bits of the scalar from bit \<open>n - 1\<close> down to bit 0: a step works on the points in the order the bit says.\<close>

primrec rfc_ladder :: "nat \<Rightarrow> nat \<Rightarrow> int \<Rightarrow> int \<times> int \<times> int \<times> int \<Rightarrow> int \<times> int \<times> int \<times> int" where
  "rfc_ladder 0 k x1 pts = pts"
| "rfc_ladder (Suc n) k x1 pts = rfc_ladder n k x1 (rfc_swap (bit k n) (rfc_step x1 (rfc_swap (bit k n) pts)))"

definition rfc_x25519 :: "bytes \<Rightarrow> bytes \<Rightarrow> bytes" where
  "rfc_x25519 k u =
     (let x1 = rfc_coordinate u;
          (x2, z2, x3, z3) = rfc_ladder 255 (rfc_scalar k) x1 (1, 0, x1, 1)
      in nat_to_le 32 (nat (x2 * z2 ^ nat (p25519 - 2) mod p25519)))"

section \<open>The scalar\<close>

lemma bit_byte: "bit (unat (b :: u8) + 256 * n) i = (if i < 8 then bit b i else bit n (i - 8))"
proof -
  have "unat b OR 2 ^ 8 * n = unat b + 2 ^ 8 * n" by (rule or_range) simp
  then have "unat b + 256 * n = unat b OR push_bit 8 n" by (simp add: push_bit_eq_mult mult.commute)
  moreover have "bit (unat b) i = bit b i" by (simp add: bit_unsigned_iff)
  moreover have "\<not> bit b i" if "8 \<le> i" using that by simp
  ultimately show ?thesis by (auto simp: bit_or_iff bit_push_bit_iff)
qed

lemma le_num_bit: "i < 8 * length s \<Longrightarrow> bit (le_num s) i = bit (s ! (i div 8)) (i mod 8)"
proof (induction s arbitrary: i)
  case (Cons b s)
  show ?case
  proof (cases "i < 8")
    case True
    then show ?thesis by (simp add: bit_byte)
  next
    case False
    then obtain j where "i = 8 + j" by (metis le_Suc_ex not_less)
    then show ?thesis using Cons.IH [of j] Cons.prems by (simp add: bit_byte)
  qed
qed simp

lemma scalar_bit_num:
  assumes "n < 8 * length s"
  shows "scalar_bit s (int n) = of_bool (bit (le_num s) n)"
proof -
  have i: "nat (int n AND 7) = n mod 8"
  proof -
    have "int n AND 7 = int n AND mask 3" by (simp add: mask_eq_exp_minus_1)
    also have "\<dots> = int (n mod 8)" by (simp add: zmod_int take_bit_eq_mod flip: take_bit_eq_mask)
    finally show ?thesis by simp
  qed
  have j: "nat (drop_bit 3 (int n)) = n div 8" by (simp add: drop_bit_eq_div flip: zdiv_int)
  have "uint (w AND 1) = of_bool (bit w 0)" for w :: u8 by (simp add: and_one_eq bit_0 mod_2_eq_odd)
  then show ?thesis using assms by (simp add: scalar_bit_def i j le_num_bit bit_drop_bit_eq)
qed

section \<open>The ladder\<close>

definition pts_carried :: "fe \<times> fe \<times> fe \<times> fe \<Rightarrow> bool" where
  "pts_carried = (\<lambda>(x2, z2, x3, z3). carried x2 \<and> carried z2 \<and> carried x3 \<and> carried z3)"

definition pts_val :: "fe \<times> fe \<times> fe \<times> fe \<Rightarrow> int \<times> int \<times> int \<times> int" where
  "pts_val = (\<lambda>(x2, z2, x3, z3). (fval x2, fval z2, fval x3, fval z3))"

lemmas loose_len = limbs_in_len [of 67108864 33816576]

lemmas fe_bounds = fe_mul_carried fe_sq_carried fe_mul_small_carried fe_add_loose fe_sub_loose carried_loose

lemmas fe_values = fval_mul fval_sq fval_mul_small fval_add fval_sub carried_len loose_len

lemma mod_a24: "(BB + 121666 * ((AA - BB) mod p) mod p) mod p = (AA + 121665 * ((AA - BB) mod p)) mod (p :: int)"
proof -
  have "(BB + 121666 * ((AA - BB) mod p) mod p) mod p = (BB + 121666 * (AA - BB)) mod p"
    by (simp only: mod_add_right_eq mod_mult_right_eq)
  also have "BB + 121666 * (AA - BB) = AA + 121665 * (AA - BB)" by simp
  also have "(AA + 121665 * (AA - BB)) mod p = (AA + 121665 * ((AA - BB) mod p)) mod p"
    by (intro mod_add_cong refl) (simp only: mod_mult_right_eq)
  finally show ?thesis .
qed

lemma ladder_step_rfc:
  assumes "carried x1" and "pts_carried pts"
  shows "pts_carried (ladder_step x1 pts)" "pts_val (ladder_step x1 pts) = rfc_step (fval x1) (pts_val pts)"
proof -
  obtain x2 z2 x3 z3 where p: "pts = (x2, z2, x3, z3)" by (cases pts)
  have c: "carried x2" "carried z2" "carried x3" "carried z3" using assms(2) by (simp_all add: p pts_carried_def)
  define A B C D where "A = fe_add x2 z2" and "B = fe_sub x2 z2" and "C = fe_add x3 z3" and "D = fe_sub x3 z3"
  define AA BB DA CB where "AA = fe_sq A" and "BB = fe_sq B" and "DA = fe_mul D A" and "CB = fe_mul C B"
  define E where "E = fe_sub AA BB"
  define M where "M = fe_mul_small E 121666"
  note defs = A_def B_def C_def D_def AA_def BB_def DA_def CB_def E_def M_def
  have e: "ladder_step x1 pts = (fe_mul AA BB, fe_mul E (fe_add BB M), fe_sq (fe_add DA CB), fe_mul x1 (fe_sq (fe_sub DA CB)))"
    unfolding p ladder_step_def Let_def prod.case defs ..
  have l: "loose A" "loose B" "loose C" "loose D" unfolding defs using c by (simp_all add: fe_add_loose fe_sub_loose)
  then have l2: "carried AA" "carried BB" "carried DA" "carried CB"
    unfolding AA_def BB_def DA_def CB_def by (simp_all add: fe_sq_carried fe_mul_carried)
  then have l3: "loose E" "carried M" unfolding E_def M_def by (simp_all add: fe_sub_loose fe_mul_small_carried)
  have l4: "loose (fe_add BB M)" "loose (fe_add DA CB)" "loose (fe_sub DA CB)" using l2 l3(2) by (simp_all add: fe_add_loose fe_sub_loose)
  then have l5: "carried (fe_sq (fe_sub DA CB))" by (simp add: fe_sq_carried)
  show "pts_carried (ladder_step x1 pts)"
    unfolding e pts_carried_def prod.case using assms(1) l2 l3 l4 l5 by (simp add: fe_mul_carried fe_sq_carried carried_loose)
  note n = c [THEN carried_len] l [THEN loose_len] l2 [THEN carried_len] l3(1) [THEN loose_len] l3(2) [THEN carried_len]
    l4 [THEN loose_len] l5 [THEN carried_len] assms(1) [THEN carried_len]
  have v: "fval A = (fval x2 + fval z2) mod p25519" "fval B = (fval x2 - fval z2) mod p25519"
    "fval C = (fval x3 + fval z3) mod p25519" "fval D = (fval x3 - fval z3) mod p25519"
    unfolding A_def B_def C_def D_def by (simp_all only: fval_add fval_sub n)
  have w: "fval AA = fval A * fval A mod p25519" "fval BB = fval B * fval B mod p25519" "fval DA = fval D * fval A mod p25519"
    "fval CB = fval C * fval B mod p25519"
    unfolding AA_def BB_def DA_def CB_def by (simp_all only: fval_mul fval_sq n)
  have vE: "fval E = (fval AA - fval BB) mod p25519" unfolding E_def by (simp only: fval_sub n)
  have "fval (fe_add BB M) = (fval AA + 121665 * fval E) mod p25519"
    using mod_a24 [of "fval BB" "fval AA" p25519] fval_mul_small [of E 121666, folded M_def] by (simp only: fval_add n vE)
  then have "fval (fe_mul E (fe_add BB M)) = fval E * (fval AA + 121665 * fval E) mod p25519"
    by (simp only: fval_mul n mod_mult_right_eq)
  moreover have "fval (fe_sq (fe_add DA CB)) = (fval DA + fval CB) * (fval DA + fval CB) mod p25519"
    by (simp only: fval_sq fval_add n mod_mult_eq)
  moreover have "fval (fe_sq (fe_sub DA CB)) = (fval DA - fval CB) * (fval DA - fval CB) mod p25519"
    by (simp only: fval_sq fval_sub n mod_mult_eq)
  then have "fval (fe_mul x1 (fe_sq (fe_sub DA CB))) = fval x1 * ((fval DA - fval CB) * (fval DA - fval CB)) mod p25519"
    by (simp only: fval_mul n mod_mult_right_eq)
  moreover have "fval (fe_mul AA BB) = fval AA * fval BB mod p25519" by (simp only: fval_mul n)
  moreover have "rfc_step (fval x1) (pts_val pts) = (fval AA * fval BB mod p25519, fval E * (fval AA + 121665 * fval E) mod p25519,
      (fval DA + fval CB) * (fval DA + fval CB) mod p25519, fval x1 * ((fval DA - fval CB) * (fval DA - fval CB)) mod p25519)"
    unfolding p pts_val_def rfc_step_def prod.case Let_def by (simp only: v w vE)
  ultimately show "pts_val (ladder_step x1 pts) = rfc_step (fval x1) (pts_val pts)"
    unfolding e by (simp only: pts_val_def prod.case)
qed

lemma ladder_swap_rfc:
  assumes "pts_carried pts" and "s = 0 \<or> s = 1"
  shows "pts_carried (ladder_swap pts s)" "pts_val (ladder_swap pts s) = rfc_swap (s = 1) (pts_val pts)"
proof -
  obtain x2 z2 x3 z3 where p: "pts = (x2, z2, x3, z3)" by (cases pts)
  have c: "carried x2" "carried z2" "carried x3" "carried z3" using assms(1) by (simp_all add: p pts_carried_def)
  then have l: "length x2 = length x3" "length z2 = length z3" by (simp_all only: carried_len)
  have "ladder_swap pts s = (if s = 1 then (x3, z3, x2, z2) else (x2, z2, x3, z3))"
    using fe_cswap_bit [OF l(1) assms(2)] fe_cswap_bit [OF l(2) assms(2)] by (simp add: p ladder_swap_def)
  then show "pts_carried (ladder_swap pts s)" "pts_val (ladder_swap pts s) = rfc_swap (s = 1) (pts_val pts)"
    using c by (simp_all only: p pts_carried_def pts_val_def rfc_swap_def prod.case split: if_split) simp_all
qed

lemma rfc_swap_swap: "rfc_swap a (rfc_swap b pts) = rfc_swap (a \<noteq> b) pts"
  by (auto simp: rfc_swap_def split: prod.splits)

text \<open>The code carries the swap of a step over to the next one.\<close>

lemma ladder_rfc:
  assumes "carried x1" and "pts_carried pts" and "s = 0 \<or> s = 1" and "n \<le> 8 * length k"
    and "ladder n k x1 (pts, s) = (pts', s')"
  shows "pts_carried pts' \<and> (s' = 0 \<or> s' = 1) \<and>
    rfc_swap (s' = 1) (pts_val pts') = rfc_ladder n (le_num k) (fval x1) (rfc_swap (s = 1) (pts_val pts))"
  using assms(2-)
proof (induction n arbitrary: pts s)
  case (Suc n)
  define b where "b = bit (le_num k) n"
  have sb: "scalar_bit k (int n) = of_bool b" using scalar_bit_num [of n k] Suc.prems(3) by (simp add: b_def)
  have x: "s XOR of_bool b = of_bool (b \<noteq> (s = 1))" using Suc.prems(2) by (cases b) auto
  let ?q = "ladder_swap pts (of_bool (b \<noteq> (s = 1)))"
  have "pts_carried (ladder_swap pts (of_bool d))" "pts_val (ladder_swap pts (of_bool d)) = rfc_swap d (pts_val pts)" for d
    using ladder_swap_rfc [OF Suc.prems(1), of "of_bool d"] by (cases d, simp_all)+
  then have q: "pts_carried ?q" "pts_val ?q = rfc_swap (b \<noteq> (s = 1)) (pts_val pts)" by blast+
  note st = ladder_step_rfc [OF assms(1) q(1)]
  have r: "ladder n k x1 (ladder_step x1 ?q, of_bool b) = (pts', s')" using Suc.prems(4) by (simp add: sb x)
  have b01: "of_bool b = (0 :: int) \<or> of_bool b = (1 :: int)" "n \<le> 8 * length k" using Suc.prems(3) by simp_all
  show ?case
    using Suc.IH [OF st(1) b01 r] by (simp only: st(2) q(2) rfc_ladder.simps rfc_swap_swap b_def [symmetric] of_bool_eq_1_iff)
qed simp

section \<open>The key\<close>

lemma trim_byte0: "unat ((b :: u8) AND 248) = 8 * (unat b div 8)"
proof -
  have "b AND 248 = push_bit 3 (drop_bit 3 b)" by (rule u8_eqI) (simp_all add: bit_simps)
  moreover have "unat b div 8 * 8 < 256" using le_less_trans [OF div_times_less_eq_dividend unat_u8_less] .
  ultimately show ?thesis
    by (simp add: unsigned_push_bit_eq unsigned_drop_bit_eq) (simp add: take_bit_eq_mod push_bit_eq_mult drop_bit_eq_div)
qed

lemma trim_byte31: "unat ((b :: u8) AND 127 OR 64) = 64 + unat b mod 64"
proof -
  have "b AND 127 OR 64 = take_bit 6 b OR 64" by (rule u8_eqI) (simp_all add: bit_simps)
  then have "unat (b AND 127 OR 64) = unat b mod 2 ^ 6 OR 2 ^ 6 * 1"
    by (simp add: unsigned_or_eq unsigned_take_bit_eq) (simp add: take_bit_eq_mod)
  also have "\<dots> = unat b mod 2 ^ 6 + 2 ^ 6 * 1" by (rule or_range) simp
  finally show ?thesis by simp
qed

lemma split_key:
  assumes "length (k :: bytes) = 32"
  obtains a m z where "k = a # m @ [z]" "length m = 30"
  using assms by (cases k; cases "tl k" rule: rev_cases) auto

lemma scalar_num:
  fixes a m z :: nat
  assumes "a < 256" "m < 256 ^ 30"
  shows "8 * (a div 8) + 256 * (m + 256 ^ 30 * (64 + z mod 64)) =
    2 ^ 254 + 8 * ((a + 256 * (m + 256 ^ 30 * z)) mod 2 ^ 254 div 8)"
proof -
  define r where "r = a + 256 * (m + 256 ^ 30 * (z mod 64))"
  have "256 * (m + 256 ^ 30 * (z mod 64)) + 256 \<le> 256 * (256 ^ 30 * 64)"
  proof -
    have "m + 256 ^ 30 * (z mod 64) + 1 \<le> 256 ^ 30 * (z mod 64 + 1)" using assms(2) by simp
    also have "\<dots> \<le> 256 ^ 30 * 64" by (rule mult_le_mono2) (simp add: Suc_le_eq)
    finally show ?thesis by simp
  qed
  then have "r < 2 ^ 254" using assms(1) unfolding r_def by simp
  moreover have "a + 256 * (m + 256 ^ 30 * z) = r + z div 64 * 2 ^ 254"
  proof -
    have "a + 256 * (m + 256 ^ 30 * (z mod 64 + 64 * (z div 64))) = r + z div 64 * 2 ^ 254"
      unfolding r_def distrib_left by simp
    then show ?thesis by (simp only: mod_mult_div_eq)
  qed
  ultimately have "(a + 256 * (m + 256 ^ 30 * z)) mod 2 ^ 254 = r" by (simp only: mod_mult_self1 mod_less)
  moreover have "r div 8 = a div 8 + 32 * (m + 256 ^ 30 * (z mod 64))" unfolding r_def by (simp add: div_add1_eq)
  ultimately show ?thesis by simp
qed

lemma trim_scalar_num:
  assumes "length k = 32"
  shows "length (crypto_eddsa_trim_scalar k) = 32" "le_num (crypto_eddsa_trim_scalar k) = rfc_scalar k"
proof -
  obtain a m z where k: "k = a # m @ [z]" "length m = 30" using assms by (rule split_key)
  have "(m @ [y])[30 := x] = m @ [x]" "(m @ [y]) ! 30 = y" for x y using k(2) by (simp_all add: list_update_append nth_append)
  then have t: "crypto_eddsa_trim_scalar k = (a AND 248) # m @ [z AND 127 OR 64]"
    using k(2) by (simp add: crypto_eddsa_trim_scalar_def k(1) Let_def)
  then show "length (crypto_eddsa_trim_scalar k) = 32" using k(2) by simp
  have "le_num m < 256 ^ 30" using le_num_bound [of m] k(2) by simp
  note n = scalar_num [OF unat_u8_less this]
  have "le_num (crypto_eddsa_trim_scalar k) = 8 * (unat a div 8) + 256 * (le_num m + 256 ^ 30 * (64 + unat z mod 64))"
    unfolding t by (simp add: le_num_append k(2) trim_byte0 trim_byte31)
  moreover have "le_num k = unat a + 256 * (le_num m + 256 ^ 30 * unat z)" unfolding k(1) by (simp add: le_num_append k(2))
  ultimately show "le_num (crypto_eddsa_trim_scalar k) = rfc_scalar k" by (simp only: rfc_scalar_def n)
qed

section \<open>The key exchange\<close>

text \<open>
  C11: X25519 is computed as RFC 7748 defines it: for every secret key and every public key of 32 bytes \<open>crypto_x25519\<close>
  returns the bytes of the least residue of \<open>x2 z2^(p-2)\<close>, where \<open>x2\<close> and \<open>z2\<close> are the results of the Montgomery
  ladder of the clamped key on the coordinate, computed with exact integers modulo \<open>p = 2^255 - 19\<close>. The code computes
  on ten limbs that are only partly carried, delays its swaps, and inverts through an inverse square root.
\<close>

theorem x25519_rfc7748:
  assumes "length k = 32" and "length u = 32"
  shows "crypto_x25519 k u = rfc_x25519 k u"
proof -
  define s where "s = crypto_eddsa_trim_scalar k"
  define x1 where "x1 = fe_frombytes u"
  have s: "length s = 32" "le_num s = rfc_scalar k" unfolding s_def by (rule trim_scalar_num [OF assms(1)])+
  have x1: "carried x1" "fval x1 = rfc_coordinate u"
    unfolding x1_def rfc_coordinate_def by (rule fe_frombytes_carried, rule fval_frombytes [OF assms(2)])
  obtain pts t where l: "ladder 255 s x1 ((fe_1, fe_0, x1, fe_1), 0) = (pts, t)" by fastforce
  have i: "pts_carried (fe_1, fe_0, x1, fe_1)" "pts_val (fe_1, fe_0, x1, fe_1) = (1, 0, fval x1, 1)"
    using x1(1) by (simp_all add: pts_carried_def pts_val_def sqrtm1_carried fval_consts)
  have r: "pts_carried pts" "t = 0 \<or> t = 1" "rfc_swap (t = 1) (pts_val pts) =
      rfc_ladder 255 (rfc_scalar k) (rfc_coordinate u) (1, 0, rfc_coordinate u, 1)"
    using ladder_rfc [OF x1(1) i(1) _ _ l] by (simp_all add: s i(2) x1(2) rfc_swap_def)
  obtain x2 z2 x3 z3 where p: "ladder_swap pts t = (x2, z2, x3, z3)" by (cases "ladder_swap pts t")
  note w = ladder_swap_rfc [OF r(1,2), unfolded p]
  have c: "carried x2" "carried z2" using w(1) by (simp_all add: pts_carried_def)
  have v: "rfc_ladder 255 (rfc_scalar k) (rfc_coordinate u) (1, 0, rfc_coordinate u, 1) = (fval x2, fval z2, fval x3, fval z3)"
    using w(2) unfolding r(3) by (simp add: pts_val_def)
  have n: "carried (fe_invert z2)" by (rule fe_invert_carried [OF c(2)])
  have e: "nat (p25519 - 2) = 2 ^ 255 - 21" by simp
  have "fval (fe_mul x2 (fe_invert z2)) = fval x2 * fval z2 ^ nat (p25519 - 2) mod p25519"
    unfolding e by (simp only: fval_mul c n carried_len fe_invert_val mod_mult_right_eq)
  moreover have "crypto_x25519 k u = fe_tobytes (fe_mul x2 (fe_invert z2))"
    unfolding crypto_x25519_def scalarmult_def Let_def s_def [symmetric] x1_def [symmetric] l p prod.case ..
  moreover have "carried (fe_mul x2 (fe_invert z2))" by (rule fe_mul_carried) (rule carried_loose c n)+
  ultimately show ?thesis unfolding rfc_x25519_def Let_def v prod.case by (simp only: fe_tobytes_least)
qed

lemma rfc_zero: "rfc_ladder n k 0 (0, 0, 0, 0) = (0, 0, 0, 0)"
proof -
  have "rfc_step 0 (0, 0, 0, 0) = (0, 0, 0, 0)" unfolding rfc_step_def prod.case Let_def by simp
  moreover have "rfc_swap b (0, 0, 0, 0) = (0, 0, 0, 0)" for b by (simp add: rfc_swap_def)
  ultimately show ?thesis by (induction n) (simp_all only: rfc_ladder.simps)
qed

text \<open>The all-zero key on the point 0: the exchange returns zero, the case that callers have to refuse.\<close>

theorem x25519_rfc7748_witness:
  "length (replicate 32 0 :: bytes) = 32 \<and> crypto_x25519 (replicate 32 0) (replicate 32 0) = replicate 32 0"
proof -
  have k: "rfc_scalar (replicate 32 0) = 2 ^ 254" "rfc_coordinate (replicate 32 0) = 0"
    by (simp_all add: rfc_scalar_def rfc_coordinate_def)
  have b: "bit ((2 :: nat) ^ 254) (Suc 253)" "\<not> bit ((2 :: nat) ^ 254) 253" unfolding bit_exp_iff by simp_all
  have s: "rfc_swap True (rfc_step 0 (rfc_swap True (1, 0, 0, 1))) = (0, 0, 1, 0)"
    "rfc_swap False (rfc_step 0 (rfc_swap False (0, 0, 1, 0))) = (0, 0, 0, 0)"
    by code_simp+
  have "rfc_ladder (Suc (Suc 253)) (2 ^ 254) 0 (1, 0, 0, 1) = (0, 0, 0, 0)"
    using b s by (simp only: rfc_ladder.simps rfc_zero)
  then have l: "rfc_ladder 255 (2 ^ 254) 0 (1, 0, 0, 1) = (0, 0, 0, 0)" by (simp only: Suc_numeral arith_simps)
  have z: "nat_to_le n 0 = replicate n 0" for n by (induction n) simp_all
  have "rfc_x25519 (replicate 32 0) (replicate 32 0) = replicate 32 0"
    unfolding rfc_x25519_def k Let_def l prod.case by (simp only: mult_zero_left mod_0 nat_0 z)
  then show ?thesis using x25519_rfc7748 [of "replicate 32 0" "replicate 32 0"] by simp
qed

end
