(* ===== verification/Spec2Isabelle.thy ===== *)
theory Spec2Isabelle
  imports Counter Base64 RecvPool Ring DataStream Rfc7748
begin

text \<open>
  A verification of wg-nx, a userland WireGuard for the Nintendo Switch. The source paths are those below \<open>src/\<close> of this
  repository.

  \<^bold>\<open>Parts.\<close> The library (\<open>src/\<close>, \<open>include/\<close>) keeps a tunnel: a handshake gives it session keys, data packets are
  encrypted with them and sent through a UDP socket or a relay function, and a receive thread and a keepalive thread work on
  the same tunnel. It uses its own vector code for BLAKE2s, ChaCha20 and Poly1305 and \<open>library/crypto\<close> for the
  rest. \<open>lwip-relay/\<close> puts the TCP/IP stack lwIP on top of the tunnel and relays local TCP and UDP sockets through it.

  \<^bold>\<open>State and effects.\<close> Structs are records, machine integers are words, byte arrays are lists. An operation takes the tunnel
  and the \<open>world\<close> of \<open>State\<close> and returns both. The world holds what the system calls return, each kind in the order of
  the calls, and the log of what was sent; nothing is assumed of it except where a theorem says so. A pointer that may be
  null is an option, a pointer to a peer is its index in the table. A section under a mutex is one step. An
  operation that waits in a loop sees a list of observations; its value is \<open>None\<close> when it still waits at the end of the list.

  \<^bold>\<open>Theories.\<close>
  \<^item> \<open>Prelude\<close>, \<open>Bytes\<close>, \<open>Limbs\<close>: machine types, error codes, loads and stores, NEON lanes, little-endian numbers.
  \<^item> \<open>Counter\<close> (\<open>wg_counter.c\<close>): the replay window refines an ideal set of seen counters and accepts none twice while the
    stream stays below the limits stated, which \<open>counter_replay_hole\<close> shows to be necessary.
  \<^item> \<open>Base64\<close>, \<open>RecvPool\<close>, \<open>Peers\<close>, \<open>Lifecycle\<close>, \<open>Connect\<close>, \<open>Transport\<close>, \<open>RecvLoop\<close>, \<open>Keepalive\<close> (all \<open>wireguard.c\<close>): keys as text,
    the pool of 256 slots, the peer table, creation to destruction of a tunnel, \<open>wg_connect\<close> and \<open>wg_rekey\<close>, sending and receiving of data,
    and the loops of the two threads.
  \<^item> \<open>Ring\<close>, \<open>Platform\<close> (\<open>platform_switch.c\<close>): the packet ring between a relay and the receiver, sockets, clock, random numbers.
  \<^item> \<open>Threads\<close> (\<open>wg_thread.c\<close>), \<open>Relay\<close> (\<open>wg_relay.c\<close>).
  \<^item> \<open>Blake2s\<close>, \<open>ChaCha20\<close>, \<open>Poly1305\<close>, \<open>MonoPoly\<close>, \<open>Verify\<close>, \<open>Aead\<close>, \<open>Kdf\<close>: the symmetric cryptography. The vector code equals the
    portable code, Poly1305 is the polynomial modulo \<open>2^130 - 5\<close>, and decryption succeeds exactly on what encryption returns.
  \<^item> \<open>Fe25519\<close>, \<open>X25519\<close> (\<open>monocypher.c\<close>): field arithmetic on ten limbs and the key exchange. \<open>FieldValue\<close> and \<open>FieldBytes\<close> show what each
    operation computes and the bounds that exclude overflow, \<open>FieldInverse\<close> that inversion is the power \<open>p - 2\<close>, with the prime from
    \<open>Primality\<close> and \<open>Certificate\<close>, and \<open>Rfc7748\<close> that the whole is X25519 as the RFC defines it.
  \<^item> \<open>Messages\<close>, \<open>State\<close> (\<open>wg_internal.h\<close>), \<open>Noise\<close> (\<open>wg_noise.c\<close>): the packets, the tunnel, the handshake. Two sides that run
    its messages have the same keys in opposite order, and forged initiations leave the tunnel as it is.
  \<^item> \<open>Netif\<close> (\<open>wg_netif.c\<close>), \<open>LwipRelay\<close> (\<open>wg_lwip_relay.cpp\<close>): routing of outgoing packets, and the relays with the slots they hold.
  \<^item> \<open>System\<close>: an invariant of the tunnel, a step relation with every operation and thread round as a rule, and that every reachable
    tunnel satisfies the invariant. \<open>DataStream\<close> and this theory: a stream of data from handshake to delivery.

  \<^bold>\<open>Interfaces.\<close> The locales \<open>replay_filter\<close>, \<open>slot_pool\<close>, \<open>peer_search\<close> and \<open>one_time_mac\<close> state what a component promises; they are
  interpreted on the code's window, pool, three searches and two implementations of Poly1305.

  \<^bold>\<open>Loops.\<close> Loops over data are structural. \<open>connect_wait\<close> terminates because its remaining time falls, and the attempts of
  \<open>wg_connect\<close> are counted by the constant of the code. No other fuel is used. The bound of 252 texts in \<open>end_to_end\<close> is the number of
  packets the ring takes before it is committed, that of 2012 bytes the largest text whose packet fits a slot of the ring.

  \<^bold>\<open>Assumptions.\<close> Agreement of two X25519 exchanges (\<open>dh_agree\<close>) is a hypothesis of the theorems on the handshake: it is the
  group law of the curve, which is not proved here. Nothing is assumed about the strength of the cryptography; what is
  called authentic is what passes the tag under the session's key.

  \<^bold>\<open>Defects.\<close> Theorems whose text says so show behaviour of the code that it does not intend, such as \<open>ring_overrun\<close>,
  \<open>forged_keepalive\<close>, \<open>zero_key_accepted\<close>, \<open>response_unauthenticated\<close>, \<open>rekey_false_success\<close> and \<open>remote_close_leaks\<close>.

  \<^bold>\<open>Not modelled.\<close> BLAKE2b, Argon2, EdDSA, Elligator 2 and scalar division of \<open>monocypher.c\<close>, which the program never calls; the test
  application \<open>wg-tester\<close>; the clock and settings of the lwIP port; log output; the locking wrappers of \<open>wg_thread.c\<close>, whose
  sections are single steps; the wiping of local variables. lwIP, libnx and POSIX are not part of the sources: what they return
  are arguments. Data races inside a section without a lock are not visible in a model of single steps.
\<close>

section \<open>Properties that span the components\<close>

text \<open>
  C1: From handshake to delivery. An initiator and a responder that does not know it yet run the three messages of the
  handshake; then the initiator sends up to 252 texts of 1 to 2012 bytes with \<open>wg_send\<close>. Every call succeeds, the relay can
  write all packets to the responder's ring without waiting, and as many calls of \<open>wg_recv\<close> on the other
  side return exactly these texts, in order, for all keys on which the four Diffie-Hellman exchanges agree, all times below
  the expiry of the session and all random numbers.
\<close>

theorem end_to_end:
  assumes A: "static_public A = crypto_x25519_public_key (static_private A)"
    "peer_public A = crypto_x25519_public_key (static_private B)"
    and B: "static_public B = crypto_x25519_public_key (static_private B)" "table_ok B"
      "wg_find_peer_by_public_key (Some B) (static_public A) = None"
    and psk: "tunnel_psk A = tunnel_psk B" and relay: "relay_send u"
    and dh: "dh_agree e (static_private B)" "dh_agree (static_private A) (static_private B)"
      "dh_agree r e" "dh_agree r (static_private A)"
    and e: "e = clamp_key (fst (randomGet 32 w))" and r: "r = clamp_key (fst (randomGet 32 (snd (wg_random_index u))))"
    and init: "wg_handshake_init A s w = (err1, A1, msg, st, w1)"
    and answer: "wg_handshake_init_process B (init_of_bytes (init_bytes msg)) u = (err2, B1, u1)"
    and response: "sent_log u1 = sent_log u @ [ToRelay h packet]"
    and complete: "wg_handshake_response A1 (response_of_bytes packet) st w2 = (err3, A2, st', w3)"
    and clock: "relay_send w3" "\<forall>n. ticks w3 n - last_handshake (session A2) < WG_REJECT_AFTER_TIME * NS"
    and data: "length ds \<le> 252" "\<forall>d \<in> set ds. 0 < length d \<and> length d \<le> 2012"
    and send: "send_all ds (A2, w3) = (rs, A3, w4)"
  shows "err3 = WG_OK \<and> rs = map (\<lambda>d. Inr (length d)) ds \<and>
    (\<exists>ps ring. sent_log w4 = sent_log w3 @ map (ToRelay None) ps \<and> feed ps ring_init = Some ring \<and>
       (\<forall>v len t. 2012 \<le> len \<and> sees (wg_relay_commit ring) t 0 v \<longrightarrow> recv_all (length ds) len t (B1, v) = Some (map Inr ds)))"
proof -
  have "wg_handshake_init_process B (init_of_bytes (init_bytes msg @ [])) u = (err2, B1, u1)" using answer by simp
  from handshake_pairs [OF A B(1,2) psk relay dh e r init this] obtain h' resp where
    l: "sent_log u1 = sent_log u @ [ToRelay h' (response_bytes resp)]" and rok: "response_ok resp"
    and p: "\<And>w2 err3 A2 st' w3. wg_handshake_response A1 resp st w2 = (err3, A2, st', w3) \<Longrightarrow>
      err3 = WG_OK \<and> paired (session A2) (answered_session B (static_public A) B1)" by blast
  have "response_of_bytes packet = resp" using l response response_read_back [OF rok, of "[]"] by simp
  then have ok: "err3 = WG_OK" "paired (session A2) (session B1)"
    using p complete B(3) by (auto simp: answered_session_def)
  let ?ps = "stream_packets (session A2) ds"
  have f: "follows (session A2) (session B1) 0" "sending_counter (session A2) = of_nat 0" "valid (session A2)"
    using ok(2) paired_follows by (simp_all add: paired_def)
  have "young A2 w3" using clock by (simp add: young_def)
  then have s: "rs = map (\<lambda>d. Inr (length d)) ds" "sent_log w4 = sent_log w3 @ map (ToRelay None) ?ps"
    using send_stream [OF f(3) _ f(2), of w3 ds] data send by fastforce+
  have n: "length ?ps = length ds" "\<forall>q \<in> set ?ps. length q \<le> 2044" using stream_sizes [of ds 2012 "session A2"] data(2) by auto
  obtain ring where rg: "feed ?ps ring_init = Some ring" "ring_holds ?ps 0 ring"
    using feed_holds [OF ring_holds_init, of ?ps] n data(1) by auto
  have "ring_holds ?ps (length ?ps) (wg_relay_commit ring)" by (rule ring_holds_commit [OF rg(2)])
  then have "recv_all (length ds) len t (B1, v) = Some (map Inr ds)" if "2012 \<le> len" "sees (wg_relay_commit ring) t 0 v" for v len t
    using recv_stream [OF f(1) _ that(2), of ds ?ps len] n(1) data that(1) by fastforce
  then show ?thesis using ok(1) s rg(1) by blast
qed

theorem end_to_end_witness:
  "let k = clamp_key (replicate 32 0);
       A = zero_tunnel\<lparr>static_private := k, static_public := crypto_x25519_public_key k,
             peer_public := crypto_x25519_public_key k\<rparr>;
       (err1, A1, msg, st, w1) = wg_handshake_init A zero_hs quiet_world;
       (err2, B1, u1) = wg_handshake_init_process A (init_of_bytes (init_bytes msg)) quiet_world
   in \<exists>h packet ps ring A2 st' w3. sent_log u1 = [ToRelay h packet] \<and>
        wg_handshake_response A1 (response_of_bytes packet) st quiet_world = (WG_OK, A2, st', w3) \<and>
        feed ps ring_init = Some ring \<and>
        recv_all 2 2012 100 (B1, quiet_world\<lparr>ring_views := (\<lambda>_. [(0, wg_relay_commit ring)])\<rparr>) = Some [Inr [1, 2, 3], Inr [4]]"
proof -
  define k where "k = clamp_key (replicate 32 0)"
  define A where "A = zero_tunnel\<lparr>static_private := k, static_public := crypto_x25519_public_key k,
    peer_public := crypto_x25519_public_key k\<rparr>"
  obtain err1 A1 msg st w1 where i: "wg_handshake_init A zero_hs quiet_world = (err1, A1, msg, st, w1)" by (metis prod_cases5)
  obtain err2 B1 u1 where a: "wg_handshake_init_process A (init_of_bytes (init_bytes msg)) quiet_world = (err2, B1, u1)" by (metis prod_cases3)
  have a': "wg_handshake_init_process A (init_of_bytes (init_bytes msg @ [])) quiet_world = (err2, B1, u1)" using a by simp
  have rnd: "k = clamp_key (fst (randomGet 32 quiet_world))" "k = clamp_key (fst (randomGet 32 (snd (wg_random_index quiet_world))))"
    by (simp_all add: k_def randomGet_def quiet_world_def wg_random_index_def wg_random_u32_def map_replicate_const)
  have h: "static_public A = crypto_x25519_public_key (static_private A)" "peer_public A = crypto_x25519_public_key (static_private A)"
      "table_ok A" "wg_find_peer_by_public_key (Some A) (static_public A) = None" "relay_send quiet_world"
      "dh_agree k (static_private A)" "dh_agree (static_private A) (static_private A)" "dh_agree k k" "sent_log quiet_world = []"
    by (simp_all add: A_def table_ok_def zero_tunnel_def quiet_world_def dh_agree_def wg_find_peer_by_public_key_def)
  obtain h' resp where l: "sent_log u1 = sent_log quiet_world @ [ToRelay h' (response_bytes resp)]" and rok: "response_ok resp"
    and p: "\<And>w2 err3 A2 st' w3. wg_handshake_response A1 resp st w2 = (err3, A2, st', w3) \<Longrightarrow> err3 = WG_OK"
    using handshake_pairs [OF h(1,2,1,3) refl h(5,6,7,8,6) rnd i a'] by blast
  obtain err3 A2 st' w3 where c: "wg_handshake_response A1 (response_of_bytes (response_bytes resp)) st quiet_world = (err3, A2, st', w3)"
    by (metis prod_cases4)
  have "response_of_bytes (response_bytes resp) = resp" using response_read_back [OF rok, of "[]"] by simp
  then have ok: "err3 = WG_OK" using p c by simp
  have w3: "relay_send w3" "\<forall>n. ticks w3 n - last_handshake (session A2) < WG_REJECT_AFTER_TIME * NS"
    using response_clock [OF c [unfolded ok]] by (simp_all add: quiet_world_def wg_consts)
  obtain rs A3 w4 where s: "send_all [[1, 2, 3], [4]] (A2, w3) = (rs, A3, w4)" by (metis prod_cases3)
  from end_to_end [OF h(1,2,1,3,4) refl h(5,6,7,8,6) rnd i a l c w3 _ _ s] obtain ps ring where
    "feed ps ring_init = Some ring"
    "\<And>v len t. 2012 \<le> len \<Longrightarrow> sees (wg_relay_commit ring) t 0 v \<Longrightarrow> recv_all 2 len t (B1, v) = Some [Inr [1, 2, 3], Inr [4]]"
    by (auto simp: numeral_2_eq_2)
  moreover have "sees (wg_relay_commit ring) 100 0 (quiet_world\<lparr>ring_views := (\<lambda>_. [(0, wg_relay_commit ring)])\<rparr>)"
    by (simp add: sees_def quiet_world_def)
  ultimately have "\<exists>ps ring. feed ps ring_init = Some ring \<and>
      recv_all 2 2012 100 (B1, quiet_world\<lparr>ring_views := (\<lambda>_. [(0, wg_relay_commit ring)])\<rparr>) = Some [Inr [1, 2, 3], Inr [4]]"
    by blast
  then show ?thesis unfolding Let_def k_def [symmetric] A_def [symmetric] i using a l c ok h(9) by auto
qed

end
